(* ===== verification/Takyonic_Prelude.thy ===== *)
theory Takyonic_Prelude
  imports Main "HOL-Library.Word" "HOL-Library.List_Lexorder" "HOL-Library.Sublist"
    "HOL-Library.Multiset"
begin

text \<open>
  The prelude of the development: the machine types, the error type and the result type
  every component uses, the little- and big-endian byte codecs of Rust's \<open>to_le_bytes\<close> /
  \<open>from_le_bytes\<close> and of the \<open>bytes\<close> crate's \<open>put_u32_le\<close> / \<open>put_u64_le\<close>, the UTF-8
  validity check behind \<open>String::from_utf8\<close>, and \<open>BTreeMap\<close> as a strictly sorted
  association list. The collections \<open>codec\<close> and \<open>btree\<close> gather the rewrite rules the
  component proofs add to the simplifier.
\<close>

named_theorems codec \<open>length, take and drop rules of the byte codecs\<close>
named_theorems btree \<open>rules of the sorted association lists that model BTreeMap\<close>

section \<open>Machine types\<close>

text \<open>
  \<open>u8\<close>, \<open>u32\<close> and \<open>u64\<close> are words, so arithmetic on them wraps as in a release build.
  \<open>usize\<close> lengths and counters of things held in memory are \<open>nat\<close>. A byte buffer
  (\<open>Bytes\<close>, \<open>BytesMut\<close>, \<open>Vec<u8>\<close>, \<open>&[u8]\<close>) is a list of bytes, and so is a Rust
  \<open>String\<close>, whose bytes are valid UTF-8.
\<close>

type_synonym byte = "8 word"
type_synonym u32 = "32 word"
type_synonym u64 = "64 word"
type_synonym bytes = "byte list"
type_synonym rust_string = bytes

abbreviation u64_max :: u64 where
  "u64_max \<equiv> 0xFFFFFFFFFFFFFFFF"

lemma unat_lt2p: "unat (x :: 'a :: len word) < 2 ^ LENGTH('a)"
  by (fact unsigned_less)

lemma unat_of_nat_eq: "n < 2 ^ LENGTH('a) \<Longrightarrow> unat (word_of_nat n :: 'a :: len word) = n"
  by (simp add: unat_of_nat take_bit_nat_eq_self)

text \<open>
  Rust's \<open>saturating_add\<close>, \<open>saturating_sub\<close> and \<open>checked_add\<close> on \<open>u64\<close>; a sum has wrapped
  exactly when it is below its first summand.
\<close>

definition sat_add :: "u64 \<Rightarrow> u64 \<Rightarrow> u64" where
  "sat_add a b = (if a + b < a then u64_max else a + b)"

definition sat_sub :: "u64 \<Rightarrow> u64 \<Rightarrow> u64" where
  "sat_sub a b = (if b \<le> a then a - b else 0)"

definition checked_add :: "u64 \<Rightarrow> u64 \<Rightarrow> u64 option" where
  "checked_add a b = (if a + b < a then None else Some (a + b))"

lemma u64_no_wrap: "\<not> (a :: u64) + b < a \<longleftrightarrow> unat a + unat b < 2 ^ 64"
proof -
  have "a \<le> a + b \<longleftrightarrow> unat a + unat b < 2 ^ 64"
    using no_olen_add_nat [of a b] by simp
  then show ?thesis by (simp add: not_less)
qed

lemma sat_add_nat: "sat_add a b = (if unat a + unat b < 2 ^ 64 then a + b else u64_max)"
  using u64_no_wrap [of a b] by (auto simp: sat_add_def)

lemma checked_add_unat: "checked_add a b = (if unat a + unat b < 2 ^ 64 then Some (a + b) else None)"
  using u64_no_wrap [of a b] by (auto simp: checked_add_def)

lemma u64_le_max [simp]: "(x :: u64) \<le> u64_max"
proof -
  have "(u64_max :: u64) = - 1" by simp
  then show ?thesis by (metis word_n1_ge)
qed

lemma unat_u64_bound: "unat (x :: u64) < 18446744073709551616"
  using unat_lt2p [of x] by simp

lemma unat_u64_plus1: "(x :: u64) < y \<Longrightarrow> unat (x + 1) = unat x + 1"
  by (metis Suc_eq_plus1 add.commute max_word_wrap unatSuc word_not_simps(3))

lemma sat_add_1: "unat (sat_add x 1) = (if x = u64_max then unat x else unat x + 1)"
proof (cases "x = u64_max")
  case True
  then show ?thesis by (simp add: sat_add_nat)
next
  case False
  then have "x < u64_max" using u64_le_max [of x] by (simp add: order.not_eq_order_implies_strict)
  then have "unat x < unat u64_max" by (simp add: word_less_nat_alt)
  with False show ?thesis
    using unat_u64_plus1 [OF \<open>x < u64_max\<close>] by (simp add: sat_add_nat)
qed

text \<open>The inclusive range \<open>a..=b\<close> of \<open>u64\<close> values.\<close>

definition u64_range :: "u64 \<Rightarrow> u64 \<Rightarrow> u64 list" where
  "u64_range a b = map word_of_nat [unat a ..< Suc (unat b)]"

lemma set_u64_range [simp]: "set (u64_range a b) = {n. a \<le> n \<and> n \<le> b}"
proof (intro set_eqI iffI)
  fix n assume "n \<in> set (u64_range a b)"
  then obtain i where i: "unat a \<le> i" "i \<le> unat b" and n: "n = word_of_nat i"
    by (auto simp: u64_range_def)
  then have "i < 2 ^ 64" using unat_lt2p [of b] by simp
  then have "unat n = i" by (simp add: n unat_of_nat_eq)
  with i show "n \<in> {n. a \<le> n \<and> n \<le> b}" by (simp add: word_le_nat_alt)
next
  fix n assume "n \<in> {n. a \<le> n \<and> n \<le> b}"
  then have "unat n \<in> set [unat a ..< Suc (unat b)]"
    by (auto simp: word_le_nat_alt)
  then have "word_of_nat (unat n) \<in> set (u64_range a b)"
    unfolding u64_range_def set_map by (rule imageI)
  then show "n \<in> set (u64_range a b)" by simp
qed

section \<open>Errors and results\<close>

text \<open>
  \<open>TakyonicError\<close> of \<open>error.rs\<close>. A message is the source's literal; values that the source
  interpolates into it are not rendered. Of \<open>std::io::Error\<close> only the kinds the code
  distinguishes are kept.
\<close>

datatype io_error = UnexpectedEof | NotFound | AlreadyExists | OtherIo

datatype takyonic_error =
    Config string
  | Io io_error
  | Integrity string
  | Compaction string
  | Admission string
  | Raft string
  | Engine string
  | Network string
  | Conflict string
  | NotLeader "rust_string option"
  | Sql string
  | PermissionDenied string
  | Other string

type_synonym 'a result = "takyonic_error + 'a"

text \<open>The \<open>?\<close> operator.\<close>

definition rbind :: "'a result \<Rightarrow> ('a \<Rightarrow> 'b result) \<Rightarrow> 'b result" where
  "rbind r f = (case r of Inl e \<Rightarrow> Inl e | Inr x \<Rightarrow> f x)"

lemma rbind_Inl [simp]: "rbind (Inl e) f = Inl e"
  by (simp add: rbind_def)

lemma rbind_Inr [simp]: "rbind (Inr x) f = f x"
  by (simp add: rbind_def)

lemma rbind_eq_Inr: "rbind r f = Inr y \<longleftrightarrow> (\<exists>x. r = Inr x \<and> f x = Inr y)"
  by (cases r) auto

lemma rbind_assoc: "rbind (rbind r f) g = rbind r (\<lambda>x. rbind (f x) g)"
  by (cases r) auto

section \<open>Byte codecs\<close>

fun nat_le :: "nat \<Rightarrow> nat \<Rightarrow> bytes" where
  "nat_le 0 x = []"
| "nat_le (Suc n) x = word_of_nat (x mod 256) # nat_le n (x div 256)"

fun le_nat :: "bytes \<Rightarrow> nat" where
  "le_nat [] = 0"
| "le_nat (b # bs) = unat b + 256 * le_nat bs"

definition u32_le :: "u32 \<Rightarrow> bytes" where
  "u32_le w = nat_le 4 (unat w)"

definition u64_le :: "u64 \<Rightarrow> bytes" where
  "u64_le w = nat_le 8 (unat w)"

definition u64_be :: "u64 \<Rightarrow> bytes" where
  "u64_be w = rev (nat_le 8 (unat w))"

definition u32_of_le :: "bytes \<Rightarrow> u32" where
  "u32_of_le bs = word_of_nat (le_nat bs)"

definition u64_of_le :: "bytes \<Rightarrow> u64" where
  "u64_of_le bs = word_of_nat (le_nat bs)"

lemma length_nat_le [simp]: "length (nat_le n x) = n"
  by (induction n arbitrary: x) auto

lemma length_u32_le [simp, codec]: "length (u32_le w) = 4"
  by (simp add: u32_le_def)

lemma length_u64_le [simp, codec]: "length (u64_le w) = 8"
  by (simp add: u64_le_def)

lemma length_u64_be [simp, codec]: "length (u64_be w) = 8"
  by (simp add: u64_be_def)

lemma codec_not_Nil [simp]: "u32_le a \<noteq> []" "u64_le b \<noteq> []" "u64_be b \<noteq> []"
  by (metis length_u32_le length_u64_le length_u64_be list.size(3) zero_neq_numeral)+

lemma unat_byte_bound: "unat (b :: byte) < 256"
  using unat_lt2p [of b] by simp

lemma unat_byte_mod [simp]: "unat (word_of_nat (x mod 256) :: byte) = x mod 256"
  by (rule unat_of_nat_eq) simp

lemma le_nat_nat_le: "le_nat (nat_le n x) = x mod 256 ^ n"
proof (induction n arbitrary: x)
  case 0
  then show ?case by simp
next
  case (Suc n)
  have "x mod 256 + 256 * (x div 256 mod 256 ^ n) = x mod (256 * 256 ^ n)"
    by (simp add: mod_mult2_eq)
  with Suc show ?case by simp
qed

lemma le_nat_bound: "le_nat bs < 256 ^ length bs"
proof (induction bs)
  case Nil
  then show ?case by simp
next
  case (Cons b bs)
  have "unat b < 256" by (rule unat_byte_bound)
  moreover have "le_nat bs + 1 \<le> 256 ^ length bs" using Cons by simp
  then have "256 * (le_nat bs + 1) \<le> 256 * 256 ^ length bs" by (rule mult_le_mono2)
  ultimately show ?case by simp
qed

lemma nat_le_le_nat: "nat_le (length bs) (le_nat bs) = bs"
proof (induction bs)
  case Nil
  then show ?case by simp
next
  case (Cons b bs)
  have "unat b < 256" by (rule unat_byte_bound)
  then have "(unat b + 256 * le_nat bs) mod 256 = unat b"
    and "(unat b + 256 * le_nat bs) div 256 = le_nat bs" by simp_all
  with Cons show ?case by simp
qed

lemma u32_of_le_u32_le [simp]: "u32_of_le (u32_le w) = w"
proof -
  have "unat w < 256 ^ 4" using unat_lt2p [of w] by simp
  then show ?thesis by (simp add: u32_of_le_def u32_le_def le_nat_nat_le)
qed

lemma u64_of_le_u64_le [simp]: "u64_of_le (u64_le w) = w"
proof -
  have "unat w < 256 ^ 8" using unat_lt2p [of w] by simp
  then show ?thesis by (simp add: u64_of_le_def u64_le_def le_nat_nat_le)
qed

lemma u32_le_u32_of_le: "length bs = 4 \<Longrightarrow> u32_le (u32_of_le bs) = bs"
  using le_nat_bound [of bs] nat_le_le_nat [of bs]
  by (simp add: u32_of_le_def u32_le_def unat_of_nat_eq)

lemma u64_le_u64_of_le: "length bs = 8 \<Longrightarrow> u64_le (u64_of_le bs) = bs"
  using le_nat_bound [of bs] nat_le_le_nat [of bs]
  by (simp add: u64_of_le_def u64_le_def unat_of_nat_eq)

lemma u32_le_inject [simp]: "u32_le a = u32_le b \<longleftrightarrow> a = b"
  by (metis u32_of_le_u32_le)

lemma u64_le_inject [simp]: "u64_le a = u64_le b \<longleftrightarrow> a = b"
  by (metis u64_of_le_u64_le)

text \<open>The cast \<open>len as u32\<close> of a \<open>usize\<close>; it is exact below \<open>2 ^ 32\<close>.\<close>

definition len32 :: "bytes \<Rightarrow> u32" where
  "len32 bs = word_of_nat (length bs)"

lemma unat_len32 [simp]: "length bs < 2 ^ 32 \<Longrightarrow> unat (len32 bs) = length bs"
  by (simp add: len32_def unat_of_nat_eq)

lemma take_append_len: "length xs = n \<Longrightarrow> take n (xs @ ys) = xs"
  by simp

lemma drop_append_len: "length xs = n \<Longrightarrow> drop n (xs @ ys) = ys"
  by simp

lemma take_u32_le [simp, codec]: "take 4 (u32_le w @ bs) = u32_le w"
  by simp

lemma drop_u32_le [simp, codec]: "drop 4 (u32_le w @ bs) = bs"
  by simp

lemma take_u64_le [simp, codec]: "take 8 (u64_le w @ bs) = u64_le w"
  by simp

lemma drop_u64_le [simp, codec]: "drop 8 (u64_le w @ bs) = bs"
  by simp

section \<open>UTF-8\<close>

text \<open>
  The well-formed byte sequences of the Unicode standard (table 3-7), which is what
  \<open>String::from_utf8\<close> accepts.
\<close>

definition in_range :: "byte \<Rightarrow> byte \<Rightarrow> byte \<Rightarrow> bool" where
  "in_range lo hi b \<longleftrightarrow> lo \<le> b \<and> b \<le> hi"

fun utf8_valid :: "bytes \<Rightarrow> bool" where
  "utf8_valid [] = True"
| "utf8_valid (b0 # bs) =
     (if b0 < 0x80 then utf8_valid bs
      else case bs of [] \<Rightarrow> False
      | b1 # bs1 \<Rightarrow>
        (if in_range 0xC2 0xDF b0 then in_range 0x80 0xBF b1 \<and> utf8_valid bs1
         else case bs1 of [] \<Rightarrow> False
         | b2 # bs2 \<Rightarrow>
           (if in_range 0xE0 0xEF b0 then
              in_range (if b0 = 0xE0 then 0xA0 else 0x80) (if b0 = 0xED then 0x9F else 0xBF) b1 \<and>
              in_range 0x80 0xBF b2 \<and> utf8_valid bs2
            else case bs2 of [] \<Rightarrow> False
            | b3 # bs3 \<Rightarrow>
              in_range 0xF0 0xF4 b0 \<and>
              in_range (if b0 = 0xF0 then 0x90 else 0x80) (if b0 = 0xF4 then 0x8F else 0xBF) b1 \<and>
              in_range 0x80 0xBF b2 \<and> in_range 0x80 0xBF b3 \<and> utf8_valid bs3)))"

definition string_from_utf8 :: "takyonic_error \<Rightarrow> bytes \<Rightarrow> rust_string result" where
  "string_from_utf8 err bs = (if utf8_valid bs then Inr bs else Inl err)"

lemma utf8_valid_ascii: "\<forall>b \<in> set bs. b < 0x80 \<Longrightarrow> utf8_valid bs"
  by (induction bs) auto

text \<open>The bytes of an ASCII literal \<open>b"..."\<close>.\<close>

definition lit :: "string \<Rightarrow> bytes" where
  "lit s = map (\<lambda>c. word_of_nat (of_char c)) s"

lemma length_lit [simp]: "length (lit s) = length s"
  by (simp add: lit_def)

section \<open>BTreeMap as a sorted association list\<close>

definition bt_sorted :: "('k :: linorder \<times> 'v) list \<Rightarrow> bool" where
  "bt_sorted m \<longleftrightarrow> sorted_wrt (<) (map fst m)"

fun bt_insert :: "'k :: linorder \<Rightarrow> 'v \<Rightarrow> ('k \<times> 'v) list \<Rightarrow> ('k \<times> 'v) list" where
  "bt_insert k v [] = [(k, v)]"
| "bt_insert k v ((k', v') # m) =
     (if k < k' then (k, v) # (k', v') # m
      else if k = k' then (k, v) # m
      else (k', v') # bt_insert k v m)"

definition bt_remove :: "'k \<Rightarrow> ('k \<times> 'v) list \<Rightarrow> ('k \<times> 'v) list" where
  "bt_remove k m = filter (\<lambda>(k', _). k' \<noteq> k) m"

definition bt_from :: "'k :: linorder \<Rightarrow> ('k \<times> 'v) list \<Rightarrow> ('k \<times> 'v) list" where
  "bt_from k m = dropWhile (\<lambda>(k', _). k' < k) m"

lemma bt_sorted_Nil [simp, btree]: "bt_sorted []"
  by (simp add: bt_sorted_def)

lemma bt_sorted_Cons [btree]:
  "bt_sorted ((k, v) # m) \<longleftrightarrow> (\<forall>p \<in> set m. k < fst p) \<and> bt_sorted m"
  by (auto simp: bt_sorted_def)

lemma bt_sorted_distinct: "bt_sorted m \<Longrightarrow> distinct (map fst m)"
  by (simp add: bt_sorted_def strict_sorted_iff)

lemma set_bt_insert: "set (bt_insert k v m) \<subseteq> insert (k, v) (set m)"
  by (induction k v m rule: bt_insert.induct) auto

lemma map_of_bt_insert [simp, btree]: "map_of (bt_insert k v m) = (map_of m)(k \<mapsto> v)"
  by (induction k v m rule: bt_insert.induct) (auto simp: fun_eq_iff)

lemma bt_sorted_insert [btree]: "bt_sorted m \<Longrightarrow> bt_sorted (bt_insert k v m)"
proof (induction k v m rule: bt_insert.induct)
  case (1 k v)
  then show ?case by (simp add: bt_sorted_def)
next
  case (2 k v k' v' m)
  show ?case
  proof (cases "k' < k")
    case True
    have "\<forall>p \<in> set (bt_insert k v m). k' < fst p"
      using 2(2) True set_bt_insert [of k v m] by (auto simp: bt_sorted_Cons)
    then show ?thesis using 2 True by (auto simp: bt_sorted_Cons)
  next
    case False
    then show ?thesis using 2(2) by (auto simp: bt_sorted_Cons dest: less_trans)
  qed
qed

lemma bt_sorted_filter [btree]: "bt_sorted m \<Longrightarrow> bt_sorted (filter P m)"
  by (induction m) (auto simp: bt_sorted_Cons bt_sorted_def)

lemma bt_sorted_remove [btree]: "bt_sorted m \<Longrightarrow> bt_sorted (bt_remove k m)"
  by (simp add: bt_remove_def bt_sorted_filter)

lemma map_of_bt_remove [simp, btree]: "map_of (bt_remove k m) = (map_of m)(k := None)"
  by (induction m) (auto simp: bt_remove_def fun_eq_iff)

lemma bt_from_filter: "bt_sorted m \<Longrightarrow> bt_from k m = filter (\<lambda>p. k \<le> fst p) m"
proof (induction m)
  case Nil
  then show ?case by (simp add: bt_from_def)
next
  case (Cons p m)
  obtain k' v' where p: "p = (k', v')" by fastforce
  show ?case
  proof (cases "k' < k")
    case True
    then show ?thesis using Cons by (simp add: p bt_from_def bt_sorted_Cons)
  next
    case False
    then have "\<forall>q \<in> set m. k \<le> fst q"
      using Cons.prems by (auto simp: p bt_sorted_Cons)
    with False show ?thesis by (simp add: p bt_from_def)
  qed
qed

lemma map_of_Some_in: "bt_sorted m \<Longrightarrow> map_of m k = Some v \<longleftrightarrow> (k, v) \<in> set m"
  by (metis bt_sorted_distinct map_of_eq_Some_iff)

lemma bt_insert_new:
  assumes "bt_sorted m" and "map_of m k = None"
  shows "set (bt_insert k v m) = insert (k, v) (set m)"
    and "length (bt_insert k v m) = Suc (length m)"
    and "mset (bt_insert k v m) = add_mset (k, v) (mset m)"
  using assms
  by (induction k v m rule: bt_insert.induct) (auto simp: bt_sorted_Cons)

text \<open>Two sorted maps with the same bindings are equal.\<close>

lemma bt_sorted_eqI:
  assumes "bt_sorted m" "bt_sorted m'" "set m = set m'"
  shows "m = m'"
proof -
  have "distinct m" "distinct m'"
    using assms(1,2) by (auto dest!: bt_sorted_distinct simp: distinct_map)
  moreover have "sorted_wrt (\<lambda>p q. fst p < fst q) m" "sorted_wrt (\<lambda>p q. fst p < fst q) m'"
    using assms(1,2) by (simp_all add: bt_sorted_def sorted_wrt_map)
  ultimately show ?thesis
    using assms(3)
  proof (induction m arbitrary: m')
    case Nil
    then show ?case by simp
  next
    case (Cons p m)
    then obtain q n where m': "m' = q # n" by (cases m') auto
    have "p = q"
      using Cons.prems unfolding m' by (metis insert_iff less_asym list.set(2) sorted_wrt.simps(2))
    moreover have "set m = set n"
      using Cons.prems unfolding m' \<open>p = q\<close> by auto
    ultimately show ?case using Cons unfolding m' by auto
  qed
qed

section \<open>List helpers\<close>

lemma dropWhile_filter_sorted:
  "sorted_wrt (\<lambda>x y. P y \<longrightarrow> P x) xs \<Longrightarrow> dropWhile P xs = filter (\<lambda>x. \<not> P x) xs"
proof (induction xs)
  case Nil
  then show ?case by simp
next
  case (Cons x xs)
  show ?case
  proof (cases "P x")
    case True
    then show ?thesis using Cons by simp
  next
    case False
    then have "\<forall>y \<in> set xs. \<not> P y" using Cons.prems by auto
    with False show ?thesis by simp
  qed
qed

lemma takeWhile_filter_sorted:
  "sorted_wrt (\<lambda>x y. P y \<longrightarrow> P x) xs \<Longrightarrow> takeWhile P xs = filter P xs"
proof (induction xs)
  case Nil
  then show ?case by simp
next
  case (Cons x xs)
  show ?case
  proof (cases "P x")
    case True
    then show ?thesis using Cons by simp
  next
    case False
    then have "\<forall>y \<in> set xs. \<not> P y" using Cons.prems by auto
    with False show ?thesis by simp
  qed
qed

lemma find_SomeD: "find P xs = Some x \<Longrightarrow> x \<in> set xs \<and> P x"
  by (induction xs) (auto split: if_splits)

lemma find_None: "find P xs = None \<longleftrightarrow> (\<forall>x \<in> set xs. \<not> P x)"
  by (induction xs) auto

text \<open>Lists whose keys are consecutive numbers.\<close>

primrec consec :: "('a \<Rightarrow> nat) \<Rightarrow> nat \<Rightarrow> 'a list \<Rightarrow> bool" where
  "consec f a [] \<longleftrightarrow> True"
| "consec f a (x # xs) \<longleftrightarrow> f x = a \<and> consec f (Suc a) xs"

lemma consec_append [simp]:
  "consec f a (xs @ ys) \<longleftrightarrow> consec f a xs \<and> consec f (a + length xs) ys"
  by (induction xs arbitrary: a) auto

lemma consec_set: "consec f a xs \<Longrightarrow> x \<in> set xs \<Longrightarrow> a \<le> f x \<and> f x < a + length xs"
  by (induction xs arbitrary: a) fastforce+

lemma consec_filter_less:
  "consec f a xs \<Longrightarrow> filter (\<lambda>x. f x < c) xs = take (c - a) xs"
proof (induction xs arbitrary: a)
  case (Cons x xs)
  then show ?case using Cons.IH [of "Suc a"] by (auto simp: take_Cons' drop_Cons')
qed simp

lemma consec_filter_ge:
  "consec f a xs \<Longrightarrow> filter (\<lambda>x. c \<le> f x) xs = drop (c - a) xs"
proof (induction xs arbitrary: a)
  case (Cons x xs)
  then show ?case using Cons.IH [of "Suc a"] by (auto simp: take_Cons' drop_Cons')
qed simp

lemma consec_find:
  "consec f a xs \<Longrightarrow>
   find (\<lambda>x. f x = i) xs = (if a \<le> i \<and> i < a + length xs then Some (xs ! (i - a)) else None)"
proof (induction xs arbitrary: a)
  case (Cons x xs)
  then show ?case using Cons.IH [of "Suc a"] by (auto simp: nth_Cons')
qed simp

lemma consec_take: "consec f a xs \<Longrightarrow> consec f a (take n xs)"
  by (metis append_take_drop_id consec_append)

lemma consec_drop: "consec f a xs \<Longrightarrow> n \<le> length xs \<Longrightarrow> consec f (a + n) (drop n xs)"
  by (metis append_take_drop_id consec_append length_take min.absorb2)

lemma consec_nth: "consec f a xs \<Longrightarrow> i < length xs \<Longrightarrow> f (xs ! i) = a + i"
  by (induction xs arbitrary: a i) (auto simp: nth_Cons split: nat.split)

lemma consec_last: "consec f a xs \<Longrightarrow> xs \<noteq> [] \<Longrightarrow> f (last xs) = a + length xs - 1"
  by (cases xs rule: rev_cases) simp_all

text \<open>The longest prefix of \<open>xs\<close> whose encodings, of sizes given by \<open>sz\<close>, fit in \<open>n\<close> bytes.\<close>

fun fitting :: "('a \<Rightarrow> nat) \<Rightarrow> nat \<Rightarrow> 'a list \<Rightarrow> 'a list" where
  "fitting sz n [] = []"
| "fitting sz n (x # xs) = (if sz x \<le> n then x # fitting sz (n - sz x) xs else [])"

lemma prefix_fitting: "prefix (fitting sz n xs) xs"
  by (induction sz n xs rule: fitting.induct) auto

lemma fitting_size: "sum_list (map sz (fitting sz n xs)) \<le> n"
  by (induction sz n xs rule: fitting.induct) auto

lemma prefix_fittingI:
  "sum_list (map sz ys) \<le> n \<Longrightarrow> prefix ys xs \<Longrightarrow> prefix ys (fitting sz n xs)"
proof (induction sz n xs arbitrary: ys rule: fitting.induct)
  case (2 sz n x xs)
  show ?case
  proof (cases ys)
    case (Cons y ys')
    then show ?thesis using 2 by auto
  qed simp
qed simp

lemma fitting_all: "sum_list (map sz xs) \<le> n \<Longrightarrow> fitting sz n xs = xs"
  by (metis prefix_fitting prefix_fittingI prefix_order.antisym prefix_order.refl)

section \<open>Files\<close>

text \<open>
  An append-only file: its bytes, and how many of them \<open>sync_data\<close> has made durable. A crash
  may cut the file at any length that keeps the durable part.
\<close>

record disk_file =
  df_bytes :: bytes
  df_synced :: nat

definition file_append :: "bytes \<Rightarrow> disk_file \<Rightarrow> disk_file" where
  "file_append bs f = f\<lparr>df_bytes := df_bytes f @ bs\<rparr>"

definition file_sync :: "disk_file \<Rightarrow> disk_file" where
  "file_sync f = f\<lparr>df_synced := length (df_bytes f)\<rparr>"

definition crash_to :: "disk_file \<Rightarrow> nat \<Rightarrow> bytes \<Rightarrow> bool" where
  "crash_to f n bs \<longleftrightarrow> df_synced f \<le> n \<and> bs = take n (df_bytes f)"

end
