(* ===== verification/Takyonic_Types.thy ===== *)
theory Takyonic_Types
  imports Takyonic_Prelude
begin

text \<open>
  The domain types of \<open>types.rs\<close>: keys, values, versioned internal keys and LSM entries,
  with the internal-key order (user key ascending, commit timestamp descending) as an
  instance of the library's \<open>linorder\<close>. The section on versioned reads states what a
  snapshot read of any versioned store must return; the memtable, the SST reader and the
  merged engine read are interpretations of its locale.
\<close>

section \<open>Keys, values and entries\<close>

text \<open>A \<open>Key\<close> and a \<open>Value\<close> wrap \<open>Bytes\<close>; keys are ordered byte-wise lexicographically.\<close>

type_synonym key = bytes
type_synonym val = bytes
type_synonym commit_ts = u64

datatype value_type = VtPut | VtTombstone

datatype internal_key = InternalKey (user_key: key) (commit_ts: commit_ts)

text \<open>\<open>impl Ord for InternalKey\<close>: ties on the user key are broken by the larger timestamp.\<close>

instantiation internal_key :: linorder
begin

definition less_internal_key :: "internal_key \<Rightarrow> internal_key \<Rightarrow> bool" where
  "less_internal_key a b \<longleftrightarrow>
     user_key a < user_key b \<or> user_key a = user_key b \<and> commit_ts b < commit_ts a"

definition less_eq_internal_key :: "internal_key \<Rightarrow> internal_key \<Rightarrow> bool" where
  "less_eq_internal_key a b \<longleftrightarrow>
     user_key a < user_key b \<or> user_key a = user_key b \<and> commit_ts b \<le> commit_ts a"

instance
  by standard
    (auto simp: less_internal_key_def less_eq_internal_key_def intro: internal_key.expand)

end

lemma less_InternalKey [simp]:
  "InternalKey k t < InternalKey k' t' \<longleftrightarrow> k < k' \<or> k = k' \<and> t' < t"
  by (simp add: less_internal_key_def)

lemma less_eq_InternalKey [simp]:
  "InternalKey k t \<le> InternalKey k' t' \<longleftrightarrow> k < k' \<or> k = k' \<and> t' \<le> t"
  by (simp add: less_eq_internal_key_def)

record entry =
  e_key :: key
  e_value :: "val option"
  e_seq :: commit_ts
  e_tombstone :: bool

definition entry_put :: "key \<Rightarrow> val \<Rightarrow> commit_ts \<Rightarrow> entry" where
  "entry_put k v ts = \<lparr>e_key = k, e_value = Some v, e_seq = ts, e_tombstone = False\<rparr>"

definition entry_delete :: "key \<Rightarrow> commit_ts \<Rightarrow> entry" where
  "entry_delete k ts = \<lparr>e_key = k, e_value = None, e_seq = ts, e_tombstone = True\<rparr>"

definition entry_value_type :: "entry \<Rightarrow> value_type" where
  "entry_value_type e = (if e_tombstone e then VtTombstone else VtPut)"

definition ikey :: "entry \<Rightarrow> internal_key" where
  "ikey e = InternalKey (e_key e) (e_seq e)"

definition entry_less :: "entry \<Rightarrow> entry \<Rightarrow> bool" where
  "entry_less a b \<longleftrightarrow> ikey a < ikey b"

text \<open>A put carries a value and a tombstone does not; the constructors build only such entries.\<close>

definition wf_entry :: "entry \<Rightarrow> bool" where
  "wf_entry e \<longleftrightarrow> (e_tombstone e \<longleftrightarrow> e_value e = None)"

lemma wf_entry_put [simp]: "wf_entry (entry_put k v ts)"
  by (simp add: wf_entry_def entry_put_def)

lemma wf_entry_delete [simp]: "wf_entry (entry_delete k ts)"
  by (simp add: wf_entry_def entry_delete_def)

lemma entry_put_sel [simp]:
  "e_key (entry_put k v ts) = k" "e_value (entry_put k v ts) = Some v"
  "e_seq (entry_put k v ts) = ts" "\<not> e_tombstone (entry_put k v ts)"
  by (simp_all add: entry_put_def)

lemma entry_delete_sel [simp]:
  "e_key (entry_delete k ts) = k" "e_value (entry_delete k ts) = None"
  "e_seq (entry_delete k ts) = ts" "e_tombstone (entry_delete k ts)"
  by (simp_all add: entry_delete_def)

lemma wf_entry_cases:
  assumes "wf_entry e"
  obtains (put) k v ts where "e = entry_put k v ts" | (delete) k ts where "e = entry_delete k ts"
proof (cases "e_value e")
  case None
  then have "e = entry_delete (e_key e) (e_seq e)"
    using assms by (simp add: wf_entry_def entry_delete_def)
  then show ?thesis by (rule delete)
next
  case (Some v)
  then have "e = entry_put (e_key e) v (e_seq e)"
    using assms by (simp add: wf_entry_def entry_put_def)
  then show ?thesis by (rule put)
qed

lemma ikey_sel [simp]: "user_key (ikey e) = e_key e" "commit_ts (ikey e) = e_seq e"
  by (simp_all add: ikey_def)

text \<open>What a reader makes of an optional entry: a tombstone and an absent key read as nothing.\<close>

definition live_value :: "entry option \<Rightarrow> val option" where
  "live_value r = (case r of None \<Rightarrow> None | Some e \<Rightarrow> if e_tombstone e then None else e_value e)"

section \<open>Versioned reads\<close>

text \<open>
  \<open>newest V k ts r\<close>: \<open>r\<close> is what a snapshot read of key \<open>k\<close> at \<open>ts\<close> returns from the set of
  versions \<open>V\<close>, the version of \<open>k\<close> with the highest commit timestamp at or below \<open>ts\<close>.
\<close>

definition newest :: "entry set \<Rightarrow> key \<Rightarrow> commit_ts \<Rightarrow> entry option \<Rightarrow> bool" where
  "newest V k ts r \<longleftrightarrow>
     (case r of
        None \<Rightarrow> \<forall>e \<in> V. e_key e = k \<longrightarrow> ts < e_seq e
      | Some e \<Rightarrow> e \<in> V \<and> e_key e = k \<and> e_seq e \<le> ts \<and>
          (\<forall>e' \<in> V. e_key e' = k \<longrightarrow> e_seq e' \<le> ts \<longrightarrow> e_seq e' \<le> e_seq e))"

text \<open>At most one version per internal key: what makes a snapshot read deterministic.\<close>

definition versions_unique :: "entry set \<Rightarrow> bool" where
  "versions_unique V \<longleftrightarrow> inj_on ikey V"

lemma versions_uniqueD:
  "versions_unique V \<Longrightarrow> e \<in> V \<Longrightarrow> e' \<in> V \<Longrightarrow> e_key e = e_key e' \<Longrightarrow> e_seq e = e_seq e' \<Longrightarrow> e = e'"
  unfolding versions_unique_def inj_on_def by (simp add: ikey_def)

lemma versions_unique_subset: "versions_unique V \<Longrightarrow> W \<subseteq> V \<Longrightarrow> versions_unique W"
  unfolding versions_unique_def by (rule inj_on_subset)

lemma newest_None [simp]: "newest V k ts None \<longleftrightarrow> (\<forall>e \<in> V. e_key e = k \<longrightarrow> ts < e_seq e)"
  by (simp add: newest_def)

lemma newest_SomeI:
  "e \<in> V \<Longrightarrow> e_key e = k \<Longrightarrow> e_seq e \<le> ts \<Longrightarrow>
   (\<And>e'. e' \<in> V \<Longrightarrow> e_key e' = k \<Longrightarrow> e_seq e' \<le> ts \<Longrightarrow> e_seq e' \<le> e_seq e) \<Longrightarrow>
   newest V k ts (Some e)"
  by (simp add: newest_def)

lemma newest_SomeD:
  assumes "newest V k ts (Some e)"
  shows "e \<in> V" "e_key e = k" "e_seq e \<le> ts"
    "e' \<in> V \<Longrightarrow> e_key e' = k \<Longrightarrow> e_seq e' \<le> ts \<Longrightarrow> e_seq e' \<le> e_seq e"
  using assms by (auto simp: newest_def)

lemma newest_unique:
  assumes "versions_unique V" "newest V k ts r" "newest V k ts r'"
  shows "r = r'"
proof (cases r; cases r')
  fix e e' assume r: "r = Some e" and r': "r' = Some e'"
  note N = newest_SomeD [OF assms(2) [unfolded r]] newest_SomeD [OF assms(3) [unfolded r']]
  have "e_seq e = e_seq e'" using N by (metis antisym)
  then have "e = e'" using N by (metis assms(1) versions_uniqueD)
  then show ?thesis using r r' by simp
qed (use assms(2,3) in \<open>auto simp: newest_def\<close>)

text \<open>
  Versions that no snapshot at \<open>ts\<close> can see do not matter: later commits leave an older
  snapshot as it was, and so does dropping versions that a newer visible one shadows.
\<close>

lemma newest_insert_later:
  "ts < e_seq e \<Longrightarrow> newest V k ts r \<Longrightarrow> newest (insert e V) k ts r"
  by (cases r) (auto simp: newest_def)

lemma newest_insert_other:
  "e_key e \<noteq> k \<Longrightarrow> newest V k ts r \<Longrightarrow> newest (insert e V) k ts r"
  by (cases r) (auto simp: newest_def)

lemma newest_insert_at:
  "e_key e = k \<Longrightarrow> e_seq e \<le> ts \<Longrightarrow> (\<And>e'. e' \<in> V \<Longrightarrow> e_key e' = k \<Longrightarrow> e_seq e' \<le> e_seq e) \<Longrightarrow>
   newest (insert e V) k ts (Some e)"
  by (auto simp: newest_def)

text \<open>
  Garbage collection below a watermark: every version at or above the watermark stays, and
  so does the newest one below it. No snapshot at or above the watermark notices.
\<close>

definition gc_keeps :: "entry set \<Rightarrow> commit_ts \<Rightarrow> entry set \<Rightarrow> bool" where
  "gc_keeps V wm W \<longleftrightarrow>
     W \<subseteq> V \<and>
     (\<forall>e \<in> V. wm \<le> e_seq e \<longrightarrow> e \<in> W) \<and>
     (\<forall>e \<in> V. e_seq e < wm \<longrightarrow>
        (\<forall>e' \<in> V. e_key e' = e_key e \<longrightarrow> e_seq e' < wm \<longrightarrow> e_seq e' \<le> e_seq e) \<longrightarrow> e \<in> W)"

lemma gc_keeps_newest:
  assumes "gc_keeps V wm W" "wm \<le> ts" "newest V k ts r"
  shows "newest W k ts r"
proof (cases r)
  case None
  then show ?thesis using assms by (auto simp: gc_keeps_def)
next
  case (Some e)
  note N = newest_SomeD [OF assms(3) [unfolded Some]]
  have "e \<in> W"
  proof (cases "wm \<le> e_seq e")
    case True
    then show ?thesis using assms(1) N by (auto simp: gc_keeps_def)
  next
    case False
    have "e_seq e' \<le> e_seq e" if "e' \<in> V" "e_key e' = e_key e" "e_seq e' < wm" for e'
      using N(4) [of e'] that N(2) assms(2) by auto
    then show ?thesis using assms(1) N(1) False by (auto simp: gc_keeps_def)
  qed
  moreover have "W \<subseteq> V" using assms(1) by (simp add: gc_keeps_def)
  ultimately show ?thesis using N Some by (auto intro!: newest_SomeI)
qed

text \<open>The contract of a store that answers snapshot reads.\<close>

locale versioned_read =
  fixes versions :: "'s \<Rightarrow> entry set"
    and inv :: "'s \<Rightarrow> bool"
    and get_at :: "'s \<Rightarrow> key \<Rightarrow> commit_ts \<Rightarrow> entry option"
  assumes unique: "inv s \<Longrightarrow> versions_unique (versions s)"
    and read_newest: "inv s \<Longrightarrow> newest (versions s) k ts (get_at s k ts)"
begin

lemma get_at_eqI: "inv s \<Longrightarrow> newest (versions s) k ts r \<Longrightarrow> get_at s k ts = r"
  using newest_unique [OF unique read_newest] by blast

lemma same_versions_same_reads:
  "inv s \<Longrightarrow> inv s' \<Longrightarrow> versions s' = versions s \<Longrightarrow> get_at s' k ts = get_at s k ts"
  by (metis get_at_eqI read_newest)

lemma later_version_invisible:
  "inv s \<Longrightarrow> inv s' \<Longrightarrow> versions s' = insert e (versions s) \<Longrightarrow> ts < e_seq e \<Longrightarrow>
   get_at s' k ts = get_at s k ts"
  by (metis get_at_eqI newest_insert_later read_newest)

lemma other_key_invisible:
  "inv s \<Longrightarrow> inv s' \<Longrightarrow> versions s' = insert e (versions s) \<Longrightarrow> e_key e \<noteq> k \<Longrightarrow>
   get_at s' k ts = get_at s k ts"
  by (metis get_at_eqI newest_insert_other read_newest)

lemma gc_invisible:
  "inv s \<Longrightarrow> inv s' \<Longrightarrow> gc_keeps (versions s) wm (versions s') \<Longrightarrow> wm \<le> ts \<Longrightarrow>
   get_at s' k ts = get_at s k ts"
  by (metis get_at_eqI gc_keeps_newest read_newest)

lemma newest_write_visible:
  assumes "inv s'" "versions s' = insert e (versions s)" "e_seq e \<le> ts"
    and "\<And>e'. e' \<in> versions s \<Longrightarrow> e_key e' = e_key e \<Longrightarrow> e_seq e' \<le> e_seq e"
  shows "get_at s' (e_key e) ts = Some e"
  by (rule get_at_eqI [OF assms(1)])
    (simp add: assms(2) newest_insert_at [OF refl assms(3)] assms(4))

end

end
