(* ===== verification/Memtable.thy ===== *)
theory Memtable
  imports Takyonic_Types
begin

text \<open>
  The multi-version memtable of \<open>memtable.rs\<close>. Its \<open>BTreeMap<InternalKey, Slot>\<close> is a
  sorted association list; the read/write lock makes every operation atomic, so each is a
  function of the state. The invariant is that the map is sorted and that the approximate
  size is the sum of the sizes of the held versions.
\<close>

section \<open>State and operations\<close>

record slot =
  s_value :: "val option"
  s_tombstone :: bool

record memtable =
  mt_map :: "(internal_key \<times> slot) list"
  approx_size :: nat

definition entry_overhead :: nat where
  "entry_overhead = 40"

definition mt_new :: memtable where
  "mt_new = \<lparr>mt_map = [], approx_size = 0\<rparr>"

definition mt_len :: "memtable \<Rightarrow> nat" where
  "mt_len m = length (mt_map m)"

definition mt_is_empty :: "memtable \<Rightarrow> bool" where
  "mt_is_empty m \<longleftrightarrow> mt_map m = []"

definition opt_len :: "val option \<Rightarrow> nat" where
  "opt_len v = (case v of None \<Rightarrow> 0 | Some b \<Rightarrow> length b)"

definition slot_entry :: "internal_key \<times> slot \<Rightarrow> entry" where
  "slot_entry p = \<lparr>e_key = user_key (fst p), e_value = s_value (snd p),
                   e_seq = commit_ts (fst p), e_tombstone = s_tombstone (snd p)\<rparr>"

text \<open>\<open>Memtable::apply\<close>: a version that is already present is ignored.\<close>

definition mt_apply :: "memtable \<Rightarrow> entry \<Rightarrow> memtable" where
  "mt_apply m e =
     (let add = length (e_key e) + opt_len (e_value e) + entry_overhead;
          ik = ikey e
      in if map_of (mt_map m) ik \<noteq> None then m
         else m\<lparr>mt_map := bt_insert ik \<lparr>s_value = e_value e, s_tombstone = e_tombstone e\<rparr> (mt_map m),
                approx_size := approx_size m + add\<rparr>)"

text \<open>\<open>Memtable::get_at\<close>: the first version at or after \<open>(key, read_ts)\<close> in internal-key order.\<close>

definition mt_get_at :: "memtable \<Rightarrow> key \<Rightarrow> commit_ts \<Rightarrow> entry option" where
  "mt_get_at m k read_ts =
     (case bt_from (InternalKey k read_ts) (mt_map m) of
        [] \<Rightarrow> None
      | p # _ \<Rightarrow> if user_key (fst p) \<noteq> k then None else Some (slot_entry p))"

definition mt_get :: "memtable \<Rightarrow> key \<Rightarrow> val option" where
  "mt_get m k =
     (case mt_get_at m k u64_max of
        None \<Rightarrow> None
      | Some e \<Rightarrow> if e_tombstone e then None else e_value e)"

text \<open>
  \<open>Memtable::scan_prefix_at\<close>: one pass in internal-key order that skips keys before the
  prefix, stops after it, and resolves each user key at its first visible version.
\<close>

fun scan_prefix_loop ::
  "bytes \<Rightarrow> commit_ts \<Rightarrow> (internal_key \<times> slot) list \<Rightarrow> key option \<Rightarrow> bool \<Rightarrow> entry list \<Rightarrow> entry list"
where
  "scan_prefix_loop pre ts [] current_user resolved out = out"
| "scan_prefix_loop pre ts (p # ps) current_user resolved out =
     (let uk = user_key (fst p) in
      if \<not> prefix pre uk then
        (if pre < uk then out else scan_prefix_loop pre ts ps current_user resolved out)
      else
        let fresh = (current_user \<noteq> Some uk);
            resolved' = (if fresh then False else resolved);
            current' = (if fresh then Some uk else current_user)
        in if resolved' \<or> ts < commit_ts (fst p) then
             scan_prefix_loop pre ts ps current' resolved' out
           else
             scan_prefix_loop pre ts ps current' True
               (if s_tombstone (snd p) then out else out @ [(slot_entry p)\<lparr>e_tombstone := False\<rparr>]))"

definition mt_scan_prefix_at :: "memtable \<Rightarrow> bytes \<Rightarrow> commit_ts \<Rightarrow> entry list" where
  "mt_scan_prefix_at m pre ts = scan_prefix_loop pre ts (mt_map m) None False []"

definition mt_latest_entry :: "memtable \<Rightarrow> key \<Rightarrow> entry option" where
  "mt_latest_entry m k =
     (case bt_from (InternalKey k u64_max) (mt_map m) of
        [] \<Rightarrow> None
      | p # _ \<Rightarrow> if user_key (fst p) \<noteq> k then None else Some (slot_entry p))"

definition mt_is_tombstone :: "memtable \<Rightarrow> key \<Rightarrow> bool" where
  "mt_is_tombstone m k = (case mt_latest_entry m k of None \<Rightarrow> False | Some e \<Rightarrow> e_tombstone e)"

definition mt_latest_commit_ts :: "memtable \<Rightarrow> key \<Rightarrow> commit_ts option" where
  "mt_latest_commit_ts m k = map_option e_seq (mt_latest_entry m k)"

definition mt_iter_entries :: "memtable \<Rightarrow> entry list" where
  "mt_iter_entries m = map slot_entry (mt_map m)"

definition mt_clear :: "memtable \<Rightarrow> memtable" where
  "mt_clear m = m\<lparr>mt_map := [], approx_size := 0\<rparr>"

definition mt_drain_entries :: "memtable \<Rightarrow> memtable \<times> entry list" where
  "mt_drain_entries m = (m\<lparr>mt_map := [], approx_size := 0\<rparr>, map slot_entry (mt_map m))"

definition slot_size :: "internal_key \<times> slot \<Rightarrow> nat" where
  "slot_size p = length (user_key (fst p)) + opt_len (s_value (snd p)) + entry_overhead"

text \<open>
  \<open>Memtable::gc_below_watermark_prefix\<close>: per user key, keep every version at or above the
  watermark and the first (newest) one below it, remove the rest, then recompute the size.
\<close>

fun gc_versions ::
  "commit_ts \<Rightarrow> internal_key list \<Rightarrow> bool \<Rightarrow> (internal_key \<times> slot) list \<Rightarrow> nat \<Rightarrow>
   (internal_key \<times> slot) list \<times> nat"
where
  "gc_versions wm [] kept_below m removed = (m, removed)"
| "gc_versions wm (ik # iks) kept_below m removed =
     (if wm \<le> commit_ts ik then gc_versions wm iks kept_below m removed
      else if \<not> kept_below then gc_versions wm iks True m removed
      else if map_of m ik \<noteq> None then gc_versions wm iks kept_below (bt_remove ik m) (removed + 1)
      else gc_versions wm iks kept_below m removed)"

definition versions_of :: "key \<Rightarrow> (internal_key \<times> slot) list \<Rightarrow> internal_key list" where
  "versions_of k m =
     map fst (takeWhile (\<lambda>p. user_key (fst p) = k) (bt_from (InternalKey k u64_max) m))"

fun gc_keys ::
  "commit_ts \<Rightarrow> key list \<Rightarrow> (internal_key \<times> slot) list \<Rightarrow> nat \<Rightarrow> (internal_key \<times> slot) list \<times> nat"
where
  "gc_keys wm [] m removed = (m, removed)"
| "gc_keys wm (k # ks) m removed =
     (let (m', removed') = gc_versions wm (versions_of k m) False m removed
      in gc_keys wm ks m' removed')"

definition mt_gc_below_watermark_prefix ::
  "memtable \<Rightarrow> commit_ts \<Rightarrow> bytes \<Rightarrow> memtable \<times> nat"
where
  "mt_gc_below_watermark_prefix m wm pre =
     (let keys = remdups_adj (sort (map user_key
                   (filter (\<lambda>ik. pre = [] \<or> prefix pre (user_key ik)) (map fst (mt_map m)))));
          (m', removed) = gc_keys wm keys (mt_map m) 0
      in (m\<lparr>mt_map := m', approx_size := sum_list (map slot_size m')\<rparr>, removed))"

definition mt_gc_below_watermark :: "memtable \<Rightarrow> commit_ts \<Rightarrow> memtable \<times> nat" where
  "mt_gc_below_watermark m wm = mt_gc_below_watermark_prefix m wm []"

definition mt_scan_all_versions_prefix :: "memtable \<Rightarrow> bytes \<Rightarrow> entry list" where
  "mt_scan_all_versions_prefix m pre =
     map slot_entry (filter (\<lambda>p. prefix pre (user_key (fst p))) (mt_map m))"

section \<open>Invariant\<close>

definition mt_inv :: "memtable \<Rightarrow> bool" where
  "mt_inv m \<longleftrightarrow> bt_sorted (mt_map m) \<and> approx_size m = sum_list (map slot_size (mt_map m))"

definition mt_versions :: "memtable \<Rightarrow> entry set" where
  "mt_versions m = slot_entry ` set (mt_map m)"

lemma slot_entry_sel [simp]:
  "e_key (slot_entry p) = user_key (fst p)" "e_seq (slot_entry p) = commit_ts (fst p)"
  "e_value (slot_entry p) = s_value (snd p)" "e_tombstone (slot_entry p) = s_tombstone (snd p)"
  by (simp_all add: slot_entry_def)

lemma ikey_slot_entry [simp]: "ikey (slot_entry p) = fst p"
  by (simp add: ikey_def)

lemma slot_entry_inject [simp]: "slot_entry p = slot_entry q \<longleftrightarrow> p = q"
proof
  assume eq: "slot_entry p = slot_entry q"
  have "fst p = fst q" using arg_cong [OF eq, of ikey] by simp
  moreover have "snd p = snd q"
    using arg_cong [OF eq, of e_value] arg_cong [OF eq, of e_tombstone] by simp
  ultimately show "p = q" by (simp add: prod_eq_iff)
qed simp

lemma slot_entry_slot [simp]:
  "slot_entry (ikey e, \<lparr>s_value = e_value e, s_tombstone = e_tombstone e\<rparr>) = e"
  by (simp add: slot_entry_def)

lemma mt_inv_new: "mt_inv mt_new"
  by (simp add: mt_inv_def mt_new_def)

lemma mt_inv_clear: "mt_inv (mt_clear m)"
  by (simp add: mt_inv_def mt_clear_def)

lemma sum_slot_size_insert:
  "bt_sorted m \<Longrightarrow> map_of m k = None \<Longrightarrow>
   sum_list (map slot_size (bt_insert k v m)) = slot_size (k, v) + sum_list (map slot_size m)"
  by (induction k v m rule: bt_insert.induct) (auto simp: bt_sorted_Cons split: if_splits)

lemma mt_inv_apply: "mt_inv m \<Longrightarrow> mt_inv (mt_apply m e)"
  by (auto simp: mt_inv_def mt_apply_def Let_def bt_sorted_insert sum_slot_size_insert slot_size_def)

lemma mt_versions_apply:
  assumes "mt_inv m"
  shows "mt_versions (mt_apply m e) =
    (if \<exists>e' \<in> mt_versions m. ikey e' = ikey e then mt_versions m else insert e (mt_versions m))"
proof (cases "map_of (mt_map m) (ikey e)")
  case None
  then have "ikey e \<notin> fst ` set (mt_map m)" by (simp add: map_of_eq_None_iff)
  then have "\<not> (\<exists>e' \<in> mt_versions m. ikey e' = ikey e)" by (force simp: mt_versions_def)
  with None assms show ?thesis
    by (simp add: mt_versions_def mt_apply_def mt_inv_def bt_insert_new)
next
  case (Some v)
  then have "(ikey e, v) \<in> set (mt_map m)" by (rule map_of_SomeD)
  then have "\<exists>e' \<in> mt_versions m. ikey e' = ikey e" by (force simp: mt_versions_def)
  with Some show ?thesis by (simp add: mt_apply_def)
qed

lemma mt_versions_unique: "mt_inv m \<Longrightarrow> versions_unique (mt_versions m)"
  by (auto simp: mt_inv_def versions_unique_def mt_versions_def inj_on_def
      dest!: bt_sorted_distinct dest: eq_key_imp_eq_value)

section \<open>Snapshot reads\<close>

lemma mt_get_at_newest:
  assumes "mt_inv m"
  shows "newest (mt_versions m) k ts (mt_get_at m k ts)"
proof -
  let ?l = "bt_from (InternalKey k ts) (mt_map m)"
  have sorted: "bt_sorted (mt_map m)" using assms by (simp add: mt_inv_def)
  then have l: "?l = filter (\<lambda>p. InternalKey k ts \<le> fst p) (mt_map m)" by (rule bt_from_filter)
  have hit: "p \<in> set ?l"
    if "p \<in> set (mt_map m)" "user_key (fst p) = k" "commit_ts (fst p) \<le> ts" for p
    using that by (cases "fst p") (auto simp: l)
  show ?thesis
  proof (cases ?l)
    case Nil
    then show ?thesis using hit by (force simp: mt_get_at_def mt_versions_def not_le [symmetric])
  next
    case (Cons p ps)
    have "bt_sorted (p # ps)" using sorted unfolding Cons [symmetric] l by (rule bt_sorted_filter)
    then have least: "fst p \<le> fst q" if "q \<in> set ?l" for q
      using that unfolding Cons by (cases p) (auto simp: bt_sorted_Cons)
    have p: "p \<in> set (mt_map m)" "InternalKey k ts \<le> fst p"
    proof -
      have "p \<in> set ?l" using Cons by simp
      then show "p \<in> set (mt_map m)" "InternalKey k ts \<le> fst p" by (simp_all add: l)
    qed
    show ?thesis
    proof (cases "user_key (fst p) = k")
      case True
      have "newest (mt_versions m) k ts (Some (slot_entry p))"
      proof (rule newest_SomeI)
        show "slot_entry p \<in> mt_versions m" using p by (simp add: mt_versions_def)
        show "e_key (slot_entry p) = k" using True by simp
        show "e_seq (slot_entry p) \<le> ts" using p(2) True by (cases "fst p") auto
        fix e' assume "e' \<in> mt_versions m" "e_key e' = k" "e_seq e' \<le> ts"
        then obtain q where q: "q \<in> set (mt_map m)" "e' = slot_entry q" by (auto simp: mt_versions_def)
        then have "fst p \<le> fst q" using \<open>e_key e' = k\<close> \<open>e_seq e' \<le> ts\<close> hit least by simp
        then show "e_seq e' \<le> e_seq (slot_entry p)"
          using True q \<open>e_key e' = k\<close> by (cases "fst p"; cases "fst q") auto
      qed
      with Cons True show ?thesis by (simp add: mt_get_at_def)
    next
      case False
      have "ts < e_seq e" if e: "e \<in> mt_versions m" "e_key e = k" for e
      proof (rule ccontr)
        assume "\<not> ts < e_seq e"
        then obtain q where q: "q \<in> set (mt_map m)" "user_key (fst q) = k" "commit_ts (fst q) \<le> ts"
          using e by (auto simp: mt_versions_def)
        then have "fst p \<le> fst q" using hit least by simp
        then show False using p(2) False q by (cases "fst p"; cases "fst q") auto
      qed
      with Cons False show ?thesis by (simp add: mt_get_at_def)
    qed
  qed
qed

interpretation mem_read: versioned_read mt_versions mt_inv mt_get_at
  by unfold_locales (simp_all add: mt_versions_unique mt_get_at_newest)

lemma mt_latest_entry_eq: "mt_latest_entry m k = mt_get_at m k u64_max"
  by (simp add: mt_latest_entry_def mt_get_at_def)

section \<open>Prefix scans\<close>

lemma not_prefix_above:
  fixes pre :: "('a :: linorder) list"
  shows "pre < u \<Longrightarrow> \<not> prefix pre u \<Longrightarrow> u \<le> u' \<Longrightarrow> \<not> prefix pre u'"
proof (induction pre arbitrary: u u')
  case (Cons x pre)
  then show ?case by (cases u; cases u') (auto simp: list_less_def)
qed simp

lemma sorted_user_keys:
  "bt_sorted (p # ps) \<Longrightarrow> q \<in> set ps \<Longrightarrow> user_key (fst p) \<le> user_key (fst q)"
  "bt_sorted (p # ps) \<Longrightarrow> q \<in> set ps \<Longrightarrow> user_key (fst q) = user_key (fst p) \<Longrightarrow>
   commit_ts (fst q) < commit_ts (fst p)"
  by (cases p; fastforce simp: bt_sorted_Cons less_internal_key_def)+

text \<open>The slots a scan emits: the first visible version of each key, when it is not a tombstone.\<close>

definition scan_emits ::
  "bytes \<Rightarrow> commit_ts \<Rightarrow> (internal_key \<times> slot) list \<Rightarrow> key option \<Rightarrow> bool \<Rightarrow> internal_key \<times> slot \<Rightarrow> bool"
where
  "scan_emits pre ts ps cu res p \<longleftrightarrow>
     prefix pre (user_key (fst p)) \<and> commit_ts (fst p) \<le> ts \<and> \<not> s_tombstone (snd p) \<and>
     \<not> (res \<and> cu = Some (user_key (fst p))) \<and>
     (\<forall>q \<in> set ps. user_key (fst q) = user_key (fst p) \<longrightarrow> commit_ts (fst q) \<le> ts \<longrightarrow>
        commit_ts (fst q) \<le> commit_ts (fst p))"

lemma scan_emits_tail:
  assumes "bt_sorted (p # ps)" "q \<in> set ps" "prefix pre (user_key (fst p))"
    and "\<And>u. cu = Some u \<Longrightarrow> u \<le> user_key (fst p)"
  shows "scan_emits pre ts (p # ps) cu res q \<longleftrightarrow>
    scan_emits pre ts ps (Some (user_key (fst p)))
      (res \<and> cu = Some (user_key (fst p)) \<or> commit_ts (fst p) \<le> ts) q"
proof (cases "user_key (fst q) = user_key (fst p)")
  case True
  then show ?thesis
    using sorted_user_keys(2) [OF assms(1,2)] by (auto simp: scan_emits_def)
next
  case False
  then have "cu \<noteq> Some (user_key (fst q))"
    using assms(4) sorted_user_keys(1) [OF assms(1,2)] by force
  with False show ?thesis by (auto simp: scan_emits_def)
qed

lemma scan_prefix_loop_eq:
  assumes "bt_sorted ps" "\<And>u p. cu = Some u \<Longrightarrow> p \<in> set ps \<Longrightarrow> u \<le> user_key (fst p)"
  shows "scan_prefix_loop pre ts ps cu res out =
    out @ map slot_entry (filter (scan_emits pre ts ps cu res) ps)"
  using assms
proof (induction ps arbitrary: cu res out)
  case (Cons p ps)
  let ?uk = "user_key (fst p)"
  have ps: "bt_sorted ps" using Cons.prems(1) by (cases p) (simp add: bt_sorted_Cons)
  have uks: "?uk \<le> user_key (fst q)" if "q \<in> set ps" for q
    using sorted_user_keys(1) [OF Cons.prems(1) that] .
  have IH: "scan_prefix_loop pre ts ps (Some ?uk) r o' =
      o' @ map slot_entry (filter (scan_emits pre ts ps (Some ?uk) r) ps)" for r o'
    by (rule Cons.IH [OF ps]) (use uks in auto)
  show ?case
  proof (cases "prefix pre ?uk")
    case False
    show ?thesis
    proof (cases "pre < ?uk")
      case True
      then have "\<not> prefix pre (user_key (fst q))" if "q \<in> set ps" for q
        using not_prefix_above [OF _ False uks [OF that]] by simp
      with False True show ?thesis by (simp add: scan_emits_def)
    next
      case nlt: False
      have "scan_emits pre ts (p # ps) cu res q = scan_emits pre ts ps cu res q" for q
        using False by (auto simp: scan_emits_def)
      with False nlt Cons show ?thesis
        by (simp add: ps scan_emits_def [of _ _ _ _ _ p])
    qed
  next
    case True
    have tl: "filter (scan_emits pre ts (p # ps) cu res) ps =
        filter (scan_emits pre ts ps (Some ?uk) (res \<and> cu = Some ?uk \<or> commit_ts (fst p) \<le> ts)) ps"
      by (rule filter_cong [OF refl])
        (rule scan_emits_tail [OF Cons.prems(1) _ True], simp_all add: Cons.prems(2))
    have le: "commit_ts (fst q) \<le> commit_ts (fst p)"
      if "q \<in> set ps" "user_key (fst q) = ?uk" for q
      using sorted_user_keys(2) [OF Cons.prems(1) that] by simp
    have hd: "scan_emits pre ts (p # ps) cu res p \<longleftrightarrow>
        commit_ts (fst p) \<le> ts \<and> \<not> s_tombstone (snd p) \<and> \<not> (res \<and> cu = Some ?uk)"
      using True le by (auto simp: scan_emits_def)
    have [simp]: "\<not> s_tombstone (snd p) \<Longrightarrow> (slot_entry p)\<lparr>e_tombstone := False\<rparr> = slot_entry p"
      by (simp add: slot_entry_def)
    show ?thesis
    proof (cases "res \<and> cu = Some ?uk")
      case True
      then show ?thesis using \<open>prefix pre ?uk\<close> tl hd by (simp add: IH)
    next
      case False
      then have "scan_prefix_loop pre ts (p # ps) cu res out =
          (if ts < commit_ts (fst p) then scan_prefix_loop pre ts ps (Some ?uk) False out
           else scan_prefix_loop pre ts ps (Some ?uk) True
             (if s_tombstone (snd p) then out else out @ [(slot_entry p)\<lparr>e_tombstone := False\<rparr>]))"
        using \<open>prefix pre ?uk\<close> by (cases "cu = Some ?uk") (simp_all add: Let_def)
      note step = this
      from False have no: "(res \<and> cu = Some ?uk) = False" by blast
      show ?thesis
        unfolding step using hd [unfolded no] tl [unfolded no]
        by (cases "ts < commit_ts (fst p)") (simp_all add: IH not_less [symmetric])
    qed
  qed
qed simp

lemma sorted_filter_user_keys:
  assumes "bt_sorted ps"
    and "\<And>p q. p \<in> set ps \<Longrightarrow> q \<in> set ps \<Longrightarrow> P p \<Longrightarrow> P q \<Longrightarrow>
      user_key (fst p) = user_key (fst q) \<Longrightarrow> commit_ts (fst p) = commit_ts (fst q)"
  shows "sorted_wrt (<) (map (user_key \<circ> fst) (filter P ps))"
  using assms
proof (induction ps)
  case (Cons p ps)
  have "bt_sorted ps" using Cons.prems(1) by (cases p) (simp add: bt_sorted_Cons)
  moreover have "user_key (fst p) < user_key (fst q)" if "q \<in> set ps" "P p" "P q" for q
    using sorted_user_keys [OF Cons.prems(1) that(1)] Cons.prems(2) [of p q] that
    by (force simp: order_le_less)
  ultimately show ?case using Cons by auto
qed simp

lemma mt_scan_eq:
  "bt_sorted (mt_map m) \<Longrightarrow>
   mt_scan_prefix_at m pre ts = map slot_entry (filter (scan_emits pre ts (mt_map m) None False) (mt_map m))"
  unfolding mt_scan_prefix_at_def by (subst scan_prefix_loop_eq) simp_all

lemma mt_scan_mem:
  assumes "mt_inv m"
  shows "e \<in> set (mt_scan_prefix_at m pre ts) \<longleftrightarrow>
    prefix pre (e_key e) \<and> mt_get_at m (e_key e) ts = Some e \<and> \<not> e_tombstone e"
proof -
  have "e \<in> set (mt_scan_prefix_at m pre ts) \<longleftrightarrow>
      e \<in> mt_versions m \<and> prefix pre (e_key e) \<and> \<not> e_tombstone e \<and>
      newest (mt_versions m) (e_key e) ts (Some e)"
    using assms
    by (auto simp: mt_scan_eq mt_inv_def mt_versions_def scan_emits_def newest_def)
  also have "\<dots> \<longleftrightarrow> prefix pre (e_key e) \<and> mt_get_at m (e_key e) ts = Some e \<and> \<not> e_tombstone e"
    using assms mem_read.get_at_eqI mt_get_at_newest newest_SomeD(1) by metis
  finally show ?thesis .
qed

lemma mt_scan_sorted:
  assumes "mt_inv m"
  shows "sorted_wrt (<) (map e_key (mt_scan_prefix_at m pre ts))"
proof -
  have sorted: "bt_sorted (mt_map m)" using assms by (simp add: mt_inv_def)
  have "sorted_wrt (<) (map (user_key \<circ> fst) (filter (scan_emits pre ts (mt_map m) None False) (mt_map m)))"
    by (rule sorted_filter_user_keys [OF sorted]) (auto simp: scan_emits_def intro: antisym)
  then show ?thesis
    by (simp add: mt_scan_eq sorted comp_def)
qed

section \<open>Garbage collection\<close>

text \<open>A version is dead when a newer version of its key is also below the watermark.\<close>

definition gc_dead :: "commit_ts \<Rightarrow> (internal_key \<times> slot) list \<Rightarrow> internal_key \<Rightarrow> bool" where
  "gc_dead wm m ik \<longleftrightarrow>
     (\<exists>q \<in> set m. user_key (fst q) = user_key ik \<and> commit_ts ik < commit_ts (fst q) \<and>
        commit_ts (fst q) < wm)"

lemma gc_versions_eq:
  assumes "distinct iks" "set iks \<subseteq> fst ` set m" "bt_sorted m"
  shows "gc_versions wm iks kept m removed =
    (let below = filter (\<lambda>ik. commit_ts ik < wm) iks;
         dead = (if kept then below else tl below)
     in (filter (\<lambda>p. fst p \<notin> set dead) m, removed + length dead))"
  using assms
proof (induction iks arbitrary: kept m removed)
  case (Cons ik iks)
  have some: "map_of m ik \<noteq> None" using Cons.prems(2) by (auto simp: map_of_eq_None_iff)
  show ?case
  proof (cases "kept \<and> \<not> wm \<le> commit_ts ik")
    case False
    then show ?thesis using Cons
      by (cases "commit_ts ik < wm") (simp_all add: Let_def not_less [symmetric])
  next
    case True
    let ?m = "bt_remove ik m"
    have "set iks \<subseteq> fst ` set ?m"
    proof
      fix i assume i: "i \<in> set iks"
      then obtain s where "(i, s) \<in> set m" using Cons.prems(2) by auto
      moreover have "i \<noteq> ik" using i Cons.prems(1) by auto
      ultimately have "(i, s) \<in> set ?m" by (simp add: bt_remove_def)
      then show "i \<in> fst ` set ?m" by force
    qed
    then have rest: "gc_versions wm iks True ?m (removed + 1) =
        (filter (\<lambda>p. fst p \<notin> set (filter (\<lambda>ik. commit_ts ik < wm) iks)) ?m,
         removed + 1 + length (filter (\<lambda>ik. commit_ts ik < wm) iks))"
      using Cons.IH [of ?m True "removed + 1"] Cons.prems by (simp add: bt_sorted_remove)
    have step: "gc_versions wm (ik # iks) kept m removed = gc_versions wm iks True ?m (removed + 1)"
      using True some by simp
    show ?thesis unfolding step rest using True
      by (simp add: Let_def bt_remove_def case_prod_beta not_le)
  qed
qed (simp add: Let_def)

lemma versions_of_eq:
  assumes "bt_sorted m"
  shows "versions_of k m = map fst (filter (\<lambda>p. user_key (fst p) = k) m)"
proof -
  let ?l = "filter (\<lambda>p. InternalKey k u64_max \<le> fst p) m"
  have "bt_sorted ?l" using assms by (rule bt_sorted_filter)
  then have "sorted_wrt (\<lambda>p q. fst p < fst q) ?l" by (simp add: bt_sorted_def sorted_wrt_map)
  then have "sorted_wrt (\<lambda>p q. user_key (fst q) = k \<longrightarrow> user_key (fst p) = k) ?l"
    by (rule sorted_wrt_mono_rel [rotated])
      (auto simp: less_internal_key_def less_eq_internal_key_def)
  then have "takeWhile (\<lambda>p. user_key (fst p) = k) ?l = filter (\<lambda>p. user_key (fst p) = k) ?l"
    by (rule takeWhile_filter_sorted)
  also have "\<dots> = filter (\<lambda>p. user_key (fst p) = k) m"
    by (auto simp: less_eq_internal_key_def intro!: filter_cong)
  finally show ?thesis by (simp add: versions_of_def bt_from_filter assms)
qed

lemma in_set_tl_sorted:
  "sorted_wrt (<) xs \<Longrightarrow> (x :: 'a :: linorder) \<in> set (tl xs) \<longleftrightarrow> x \<in> set xs \<and> (\<exists>y \<in> set xs. y < x)"
  by (cases xs) (auto dest: less_asym)

lemma gc_versions_key:
  assumes "bt_sorted m"
  shows "fst (gc_versions wm (versions_of k m) False m removed) =
    filter (\<lambda>p. \<not> (user_key (fst p) = k \<and> gc_dead wm m (fst p))) m"
proof -
  let ?iks = "map fst (filter (\<lambda>p. user_key (fst p) = k) m)"
  let ?below = "filter (\<lambda>ik. commit_ts ik < wm) ?iks"
  have "bt_sorted (filter (\<lambda>p. user_key (fst p) = k) m)" using assms by (rule bt_sorted_filter)
  then have iks: "sorted_wrt (<) ?iks" by (simp add: bt_sorted_def)
  then have tl: "x \<in> set (tl ?below) \<longleftrightarrow> x \<in> set ?below \<and> (\<exists>y \<in> set ?below. y < x)" for x
    by (rule in_set_tl_sorted [OF sorted_wrt_filter])
  have below: "set ?below = {ik \<in> fst ` set m. user_key ik = k \<and> commit_ts ik < wm}" by auto
  have dead: "fst p \<in> set (tl ?below) \<longleftrightarrow> user_key (fst p) = k \<and> gc_dead wm m (fst p)"
    if "p \<in> set m" for p
    unfolding tl below gc_dead_def less_internal_key_def using that by (auto simp: image_iff)
  have "fst (gc_versions wm ?iks False m removed) = filter (\<lambda>p. fst p \<notin> set (tl ?below)) m"
    by (subst gc_versions_eq) (use iks assms in \<open>auto simp: strict_sorted_iff Let_def\<close>)
  also have "\<dots> = filter (\<lambda>p. \<not> (user_key (fst p) = k \<and> gc_dead wm m (fst p))) m"
    by (rule filter_cong [OF refl]) (simp only: dead)
  finally show ?thesis by (simp add: versions_of_eq assms)
qed

lemma length_bt_remove:
  "bt_sorted m \<Longrightarrow> map_of m k \<noteq> None \<Longrightarrow> length m = Suc (length (bt_remove k m))"
proof (induction m)
  case (Cons p m)
  obtain k' v where p: "p = (k', v)" by fastforce
  show ?case
  proof (cases "k' = k")
    case True
    have "filter (\<lambda>(k', _). k' \<noteq> k) m = m"
      using Cons.prems(1) by (auto simp: p True bt_sorted_Cons filter_id_conv)
    then show ?thesis by (simp add: p True bt_remove_def)
  next
    case False
    then show ?thesis using Cons by (auto simp: p bt_remove_def bt_sorted_Cons split: if_splits)
  qed
qed simp

lemma gc_versions_count:
  "bt_sorted m \<Longrightarrow> gc_versions wm iks kept m removed = (m', removed') \<Longrightarrow>
   length m' + removed' = length m + removed \<and> bt_sorted m'"
proof (induction iks arbitrary: kept m removed)
  case (Cons ik iks)
  show ?case
  proof (cases "wm \<le> commit_ts ik \<or> \<not> kept \<or> map_of m ik = None")
    case True
    then show ?thesis using Cons by (auto split: if_splits)
  next
    case False
    then show ?thesis
      using Cons.IH [of "bt_remove ik m" True "removed + 1"] Cons.prems length_bt_remove [of m ik]
      by (auto simp: bt_sorted_remove)
  qed
qed auto

lemma gc_keys_count:
  "bt_sorted m \<Longrightarrow> gc_keys wm ks m removed = (m', removed') \<Longrightarrow>
   length m' + removed' = length m + removed \<and> bt_sorted m'"
proof (induction ks arbitrary: m removed)
  case (Cons k ks)
  obtain m1 r1 where g: "gc_versions wm (versions_of k m) False m removed = (m1, r1)" by fastforce
  from gc_versions_count [OF Cons.prems(1) g] Cons g show ?case by auto
qed auto

lemma gc_dead_filter:
  assumes "\<And>q. q \<in> set m \<Longrightarrow> user_key (fst q) = user_key ik \<Longrightarrow> P q"
  shows "gc_dead wm (filter P m) ik \<longleftrightarrow> gc_dead wm m ik"
  unfolding gc_dead_def set_filter using assms by blast

lemma gc_keys_eq:
  assumes "bt_sorted m" "distinct ks"
  shows "fst (gc_keys wm ks m removed) =
    filter (\<lambda>p. \<not> (user_key (fst p) \<in> set ks \<and> gc_dead wm m (fst p))) m"
  using assms
proof (induction ks arbitrary: m removed)
  case (Cons k ks)
  obtain m1 r1 where g: "gc_versions wm (versions_of k m) False m removed = (m1, r1)" by fastforce
  then have m1: "m1 = filter (\<lambda>p. \<not> (user_key (fst p) = k \<and> gc_dead wm m (fst p))) m"
    using gc_versions_key [OF Cons.prems(1), of wm k removed] by simp
  have same: "gc_dead wm m1 (fst p) \<longleftrightarrow> gc_dead wm m (fst p)" if "user_key (fst p) \<in> set ks" for p
    unfolding m1 by (rule gc_dead_filter) (use that Cons.prems(2) in auto)
  have "fst (gc_keys wm (k # ks) m removed) =
      filter (\<lambda>p. \<not> (user_key (fst p) \<in> set ks \<and> gc_dead wm m1 (fst p))) m1"
    using Cons.IH [of m1 r1] Cons.prems gc_versions_count [OF Cons.prems(1) g] by (simp add: g)
  also have "\<dots> = filter (\<lambda>p. \<not> (user_key (fst p) \<in> set ks \<and> gc_dead wm m (fst p))) m1"
    by (rule filter_cong [OF refl]) (use same in blast)
  also have "\<dots> = filter (\<lambda>p. \<not> (user_key (fst p) \<in> set (k # ks) \<and> gc_dead wm m (fst p))) m"
    unfolding m1 filter_filter by (rule filter_cong [OF refl]) auto
  finally show ?case .
qed simp

lemma distinct_remdups_adj_sorted: "sorted xs \<Longrightarrow> distinct (remdups_adj xs)"
  by (induction xs rule: remdups_adj.induct) auto

lemma distinct_sorted_keys: "distinct (remdups_adj (sort (xs :: ('a :: linorder) list)))"
  by (simp add: distinct_remdups_adj_sorted)

lemma mt_gc_map:
  assumes "mt_inv m"
  shows "mt_map (fst (mt_gc_below_watermark_prefix m wm pre)) =
    filter (\<lambda>p. \<not> (prefix pre (user_key (fst p)) \<and> gc_dead wm (mt_map m) (fst p))) (mt_map m)"
proof -
  let ?keys = "remdups_adj (sort (map user_key
    (filter (\<lambda>ik. pre = [] \<or> prefix pre (user_key ik)) (map fst (mt_map m)))))"
  have "mt_map (fst (mt_gc_below_watermark_prefix m wm pre)) = fst (gc_keys wm ?keys (mt_map m) 0)"
    by (simp add: mt_gc_below_watermark_prefix_def Let_def split_beta)
  also have "\<dots> = filter (\<lambda>p. \<not> (user_key (fst p) \<in> set ?keys \<and> gc_dead wm (mt_map m) (fst p))) (mt_map m)"
    using assms by (intro gc_keys_eq distinct_sorted_keys) (simp add: mt_inv_def)
  also have "\<dots> = filter (\<lambda>p. \<not> (prefix pre (user_key (fst p)) \<and> gc_dead wm (mt_map m) (fst p))) (mt_map m)"
    by (rule filter_cong [OF refl]) force
  finally show ?thesis .
qed

lemma mt_inv_gc:
  assumes "mt_inv m"
  shows "mt_inv (fst (mt_gc_below_watermark_prefix m wm pre))"
proof -
  obtain m' r where g: "mt_gc_below_watermark_prefix m wm pre = (m', r)" by fastforce
  have "bt_sorted (mt_map m')"
    using mt_gc_map [OF assms, of wm pre] assms by (simp add: g mt_inv_def bt_sorted_filter)
  moreover have "approx_size m' = sum_list (map slot_size (mt_map m'))"
    using g by (auto simp: mt_gc_below_watermark_prefix_def Let_def split: prod.splits)
  ultimately show ?thesis by (simp add: g mt_inv_def)
qed

lemma mt_gc_count:
  "mt_inv m \<Longrightarrow> mt_gc_below_watermark_prefix m wm pre = (m', removed) \<Longrightarrow>
   mt_len m' + removed = mt_len m"
  by (auto simp: mt_gc_below_watermark_prefix_def mt_len_def mt_inv_def Let_def split: prod.splits
      dest: gc_keys_count)

lemma mt_gc_keeps:
  assumes "mt_inv m"
  shows "gc_keeps (mt_versions m) wm (mt_versions (fst (mt_gc_below_watermark_prefix m wm pre)))"
  unfolding gc_keeps_def mt_versions_def mt_gc_map [OF assms]
  by (force simp: gc_dead_def)

section \<open>Traces of operations\<close>

text \<open>The operations of \<open>Memtable\<close> that change its state.\<close>

datatype mt_op = OpApply entry | OpDrain | OpClear | OpGc commit_ts bytes

fun mt_step :: "memtable \<Rightarrow> mt_op \<Rightarrow> memtable" where
  "mt_step m (OpApply e) = mt_apply m e"
| "mt_step m OpDrain = fst (mt_drain_entries m)"
| "mt_step m OpClear = mt_clear m"
| "mt_step m (OpGc wm pre) = fst (mt_gc_below_watermark_prefix m wm pre)"

lemma mt_inv_drain: "mt_inv (fst (mt_drain_entries m))"
  by (simp add: mt_inv_def mt_drain_entries_def)

lemma mt_inv_step: "mt_inv m \<Longrightarrow> mt_inv (mt_step m op)"
  by (cases op) (simp_all add: mt_inv_apply mt_inv_clear mt_inv_gc mt_inv_drain)

lemma mt_inv_steps: "mt_inv m \<Longrightarrow> mt_inv (foldl mt_step m ops)"
  by (induction ops arbitrary: m) (auto simp: mt_inv_step)

lemma mt_inv_foldl_apply: "mt_inv m \<Longrightarrow> mt_inv (foldl mt_apply m es)"
  by (induction es arbitrary: m) (auto simp: mt_inv_apply)

section \<open>Properties\<close>

text \<open>
  Every sequence of applies, drains, clears and garbage collections leaves the memtable
  sorted by internal key, with one slot per version and with \<open>approx_size\<close> equal to the sum of
  the sizes of the versions it holds.
\<close>

theorem memtable_invariant: "mt_inv (foldl mt_step mt_new ops)"
  by (rule mt_inv_steps [OF mt_inv_new])

text \<open>
  In every reachable memtable \<open>get_at(key, ts)\<close> returns the version of the key with the
  highest commit timestamp at or below \<open>ts\<close>, and nothing exactly when there is none.
\<close>

theorem memtable_snapshot_read:
  fixes ops :: "mt_op list"
  defines "m \<equiv> foldl mt_step mt_new ops"
  shows "newest (mt_versions m) k ts (mt_get_at m k ts)"
  unfolding m_def by (rule mt_get_at_newest [OF mt_inv_steps [OF mt_inv_new]])

text \<open>
  Applying an entry: a snapshot older than the entry reads as before, a version already
  present is left alone, and a newer version of the key is what later snapshots see.
\<close>

theorem memtable_apply_visibility:
  fixes ops :: "mt_op list"
  defines "m \<equiv> foldl mt_step mt_new ops"
  shows "(ts < e_seq e \<or> e_key e \<noteq> k \<or> (\<exists>e' \<in> mt_versions m. ikey e' = ikey e) \<longrightarrow>
           mt_get_at (mt_apply m e) k ts = mt_get_at m k ts) \<and>
         (e_seq e \<le> ts \<and> (\<forall>e' \<in> mt_versions m. e_key e' = e_key e \<longrightarrow> e_seq e' < e_seq e) \<longrightarrow>
           mt_get_at (mt_apply m e) (e_key e) ts = Some e)"
proof (intro conjI impI)
  have inv: "mt_inv m" "mt_inv (mt_apply m e)"
    unfolding m_def by (simp_all add: mt_inv_steps mt_inv_apply mt_inv_new)
  assume *: "ts < e_seq e \<or> e_key e \<noteq> k \<or> (\<exists>e' \<in> mt_versions m. ikey e' = ikey e)"
  show "mt_get_at (mt_apply m e) k ts = mt_get_at m k ts"
  proof (cases "\<exists>e' \<in> mt_versions m. ikey e' = ikey e")
    case True
    then show ?thesis using mem_read.same_versions_same_reads [OF inv] by (simp add: mt_versions_apply inv)
  next
    case False
    then have "mt_versions (mt_apply m e) = insert e (mt_versions m)" by (simp add: mt_versions_apply inv)
    then show ?thesis
      using * False mem_read.later_version_invisible [OF inv] mem_read.other_key_invisible [OF inv] by blast
  qed
next
  have inv: "mt_inv m" "mt_inv (mt_apply m e)"
    unfolding m_def by (simp_all add: mt_inv_steps mt_inv_apply mt_inv_new)
  assume *: "e_seq e \<le> ts \<and> (\<forall>e' \<in> mt_versions m. e_key e' = e_key e \<longrightarrow> e_seq e' < e_seq e)"
  then have "\<not> (\<exists>e' \<in> mt_versions m. ikey e' = ikey e)" by (auto simp: ikey_def)
  then have "mt_versions (mt_apply m e) = insert e (mt_versions m)" by (simp add: mt_versions_apply inv)
  then show "mt_get_at (mt_apply m e) (e_key e) ts = Some e"
    using * by (intro mem_read.newest_write_visible [OF inv(2)]) auto
qed

text \<open>Key \<open>[1]\<close> at timestamps 1 and 5: a read at 3 does not see the write at 5, a read at 5 does.\<close>

lemma memtable_apply_visibility_witness:
  "mt_get_at (mt_apply (foldl mt_step mt_new [OpApply (entry_put [1] [7] 1)]) (entry_put [1] [8] 5)) [1] 3 =
     Some (entry_put [1] [7] 1) \<and>
   mt_get_at (mt_apply (foldl mt_step mt_new [OpApply (entry_put [1] [7] 1)]) (entry_put [1] [8] 5)) [1] 5 =
     Some (entry_put [1] [8] 5)"
proof -
  let ?ops = "[OpApply (entry_put [1] [7] 1)]" and ?e = "entry_put [1] [8] 5"
  have "mt_get_at (foldl mt_step mt_new ?ops) [1] 3 = Some (entry_put [1] [7] 1)" by code_simp
  moreover have "\<forall>e' \<in> mt_versions (foldl mt_step mt_new ?ops). e_key e' = e_key ?e \<longrightarrow> e_seq e' < e_seq ?e"
    by code_simp
  ultimately show ?thesis
    using memtable_apply_visibility [of 3 ?e "[1]" ?ops] memtable_apply_visibility [of 5 ?e "[1]" ?ops] by simp
qed

text \<open>
  \<open>scan_prefix_at\<close> returns, in strictly ascending key order and each key once, exactly the
  entries that a point read of a key with that prefix returns and that are not tombstones.
\<close>

theorem memtable_scan_prefix:
  fixes ops :: "mt_op list"
  defines "m \<equiv> foldl mt_step mt_new ops"
  shows "sorted_wrt (<) (map e_key (mt_scan_prefix_at m pre ts)) \<and>
    set (mt_scan_prefix_at m pre ts) =
      {e. prefix pre (e_key e) \<and> mt_get_at m (e_key e) ts = Some e \<and> \<not> e_tombstone e}"
proof -
  have "mt_inv m" unfolding m_def by (simp add: mt_inv_steps mt_inv_new)
  then show ?thesis using mt_scan_sorted mt_scan_mem by blast
qed

text \<open>
  C17. Garbage collection below a watermark, of all keys or of those with a prefix, changes no
  read at or above the watermark, and reports the number of versions it removed.
\<close>

theorem memtable_gc_safe:
  fixes ops :: "mt_op list"
  defines "m \<equiv> foldl mt_step mt_new ops"
  assumes "mt_gc_below_watermark_prefix m wm pre = (m', removed)" "wm \<le> ts"
  shows "mt_get_at m' k ts = mt_get_at m k ts \<and> mt_len m' + removed = mt_len m"
proof -
  have inv: "mt_inv m" unfolding m_def by (simp add: mt_inv_steps mt_inv_new)
  have "mt_inv m'" "gc_keeps (mt_versions m) wm (mt_versions m')"
    using mt_inv_gc [OF inv, of wm pre] mt_gc_keeps [OF inv, of wm pre] assms(2) by simp_all
  then show ?thesis
    using mem_read.gc_invisible [OF inv] assms(3) mt_gc_count [OF inv assms(2)] by simp
qed

text \<open>Three versions of a key, collected at 5: the version at 1 goes, a read at 5 still sees 3.\<close>

lemma memtable_gc_safe_witness:
  "\<exists>m'. mt_gc_below_watermark_prefix (foldl mt_step mt_new
      [OpApply (entry_put [1] [7] 1), OpApply (entry_put [1] [8] 3), OpApply (entry_put [1] [9] 6)]) 5 [] = (m', 1) \<and>
    mt_get_at m' [1] 5 = Some (entry_put [1] [8] 3)"
proof -
  let ?ops = "[OpApply (entry_put [1] [7] 1), OpApply (entry_put [1] [8] 3), OpApply (entry_put [1] [9] 6)]"
  have "snd (mt_gc_below_watermark_prefix (foldl mt_step mt_new ?ops) 5 []) = 1" by code_simp
  then obtain m' where m': "mt_gc_below_watermark_prefix (foldl mt_step mt_new ?ops) 5 [] = (m', 1)"
    by (metis prod.collapse)
  have "mt_get_at (foldl mt_step mt_new ?ops) [1] 5 = Some (entry_put [1] [8] 3)" by code_simp
  then show ?thesis using memtable_gc_safe [OF m', of 5 "[1]"] m' by simp
qed

end
