(* ===== verification/Epoch.thy ===== *)
theory Epoch
  imports Memtable
begin

text \<open>
  Epoch tracking and the VACUUM watermark of \<open>epoch.rs\<close>: the registry of active read
  timestamps, its oldest one, and the selection of the versions that garbage collection
  keeps. The selection agrees with the one the memtable makes, and collecting at the
  registry's watermark is invisible to every active snapshot.
\<close>

section \<open>State and operations\<close>

record epoch_manager =
  em_active :: "(u64 \<times> commit_ts) list"
  em_next_id :: u64

definition em_new :: epoch_manager where
  "em_new = \<lparr>em_active = [], em_next_id = 0\<rparr>"

text \<open>\<open>fetch_add\<close> returns the old counter and wraps; the id is that value plus one, saturating.\<close>

definition em_begin :: "epoch_manager \<Rightarrow> commit_ts \<Rightarrow> epoch_manager \<times> u64" where
  "em_begin m read_ts =
     (let id = sat_add (em_next_id m) 1
      in (m\<lparr>em_next_id := em_next_id m + 1, em_active := bt_insert id read_ts (em_active m)\<rparr>, id))"

definition em_end :: "epoch_manager \<Rightarrow> u64 \<Rightarrow> epoch_manager" where
  "em_end m txn_id = m\<lparr>em_active := bt_remove txn_id (em_active m)\<rparr>"

definition em_watermark :: "epoch_manager \<Rightarrow> commit_ts option" where
  "em_watermark m =
     (case map snd (em_active m) of [] \<Rightarrow> None | t # ts \<Rightarrow> Some (fold min ts t))"

definition em_active_count :: "epoch_manager \<Rightarrow> nat" where
  "em_active_count m = length (em_active m)"

definition em_active_epochs :: "epoch_manager \<Rightarrow> (u64 \<times> commit_ts) list" where
  "em_active_epochs m = map (\<lambda>(id, ts). (id, ts)) (em_active m)"

definition vacuum_watermark :: "epoch_manager \<Rightarrow> commit_ts \<Rightarrow> commit_ts" where
  "vacuum_watermark m fallback =
     (case em_watermark m of None \<Rightarrow> fallback | Some w \<Rightarrow> w)"

fun survivors_loop :: "commit_ts \<Rightarrow> commit_ts list \<Rightarrow> commit_ts list \<Rightarrow> bool \<Rightarrow> commit_ts list" where
  "survivors_loop wm [] kept kept_below = kept"
| "survivors_loop wm (ts # tss) kept kept_below =
     (if wm \<le> ts then survivors_loop wm tss (kept @ [ts]) kept_below
      else if \<not> kept_below then survivors_loop wm tss (kept @ [ts]) True
      else survivors_loop wm tss kept kept_below)"

definition survivors_for_key :: "commit_ts list \<Rightarrow> commit_ts \<Rightarrow> commit_ts list" where
  "survivors_for_key versions_newest_first wm = survivors_loop wm versions_newest_first [] False"

definition is_dead_version :: "commit_ts list \<Rightarrow> commit_ts \<Rightarrow> commit_ts \<Rightarrow> bool" where
  "is_dead_version versions_newest_first ts wm \<longleftrightarrow>
     ts \<notin> set (survivors_for_key versions_newest_first wm)"

definition dead_versions_for_key :: "commit_ts list \<Rightarrow> commit_ts \<Rightarrow> commit_ts list" where
  "dead_versions_for_key versions_newest_first wm =
     (let survivors = survivors_for_key versions_newest_first wm
      in filter (\<lambda>ts. ts \<notin> set survivors) versions_newest_first)"

section \<open>The watermark\<close>

lemma fold_min_le: "fold min ts t \<le> (t :: 'a :: linorder)" "x \<in> set ts \<Longrightarrow> fold min ts t \<le> x"
proof -
  show le: "fold min ts t \<le> t" for ts and t :: 'a
  proof (induction ts arbitrary: t)
    case (Cons a ts)
    show ?case using Cons [of "min a t"] by simp
  qed simp
  show "x \<in> set ts \<Longrightarrow> fold min ts t \<le> x"
  proof (induction ts arbitrary: t)
    case (Cons a ts)
    show ?case using Cons le [of ts "min a t"] by auto
  qed simp
qed

lemma em_watermark_le:
  assumes "(i, ts) \<in> set (em_active m)"
  shows "\<exists>w. em_watermark m = Some w \<and> w \<le> ts"
proof -
  have "ts \<in> set (map snd (em_active m))" using assms by force
  then show ?thesis
    by (cases "map snd (em_active m)") (auto simp: em_watermark_def fold_min_le)
qed

lemma vacuum_watermark_le: "(i, ts) \<in> set (em_active m) \<Longrightarrow> vacuum_watermark m fallback \<le> ts"
  using em_watermark_le by (force simp: vacuum_watermark_def)

text \<open>Transactions begin and end in any order; \<open>em_run\<close> returns the ids handed out, oldest first.\<close>

datatype em_op = EmBegin commit_ts | EmEnd u64

fun em_run :: "epoch_manager \<Rightarrow> em_op list \<Rightarrow> epoch_manager \<times> (u64 \<times> commit_ts) list" where
  "em_run m [] = (m, [])"
| "em_run m (EmBegin ts # ops) =
     (let (m', i) = em_begin m ts; (m'', ids) = em_run m' ops in (m'', (i, ts) # ids))"
| "em_run m (EmEnd i # ops) = em_run (em_end m i) ops"

text \<open>Ids come from a counter that has not wrapped.\<close>

definition em_inv :: "epoch_manager \<Rightarrow> bool" where
  "em_inv m \<longleftrightarrow> bt_sorted (em_active m) \<and> (\<forall>p \<in> set (em_active m). fst p \<le> em_next_id m)"

definition em_begins :: "em_op list \<Rightarrow> nat" where
  "em_begins ops = length (filter (\<lambda>op. case op of EmBegin _ \<Rightarrow> True | _ \<Rightarrow> False) ops)"

lemma em_begins_simps [simp]:
  "em_begins [] = 0" "em_begins (EmBegin ts # ops) = Suc (em_begins ops)"
  "em_begins (EmEnd i # ops) = em_begins ops"
  by (simp_all add: em_begins_def)

lemma em_inv_end: "em_inv m \<Longrightarrow> em_inv (em_end m i)"
  by (auto simp: em_inv_def em_end_def bt_sorted_remove) (auto simp: bt_remove_def)

lemma em_begin_fresh:
  assumes "em_inv m" "em_next_id m \<noteq> u64_max" "em_begin m ts = (m', i)"
  shows "em_inv m'" "set (em_active m') = insert (i, ts) (set (em_active m))"
    "unat (em_next_id m') = unat (em_next_id m) + 1" "i = em_next_id m'"
    "\<forall>p \<in> set (em_active m). fst p < i"
proof -
  let ?n = "em_next_id m"
  have lt: "?n < u64_max" using assms(2) u64_le_max [of ?n] by (simp add: order_less_le)
  then have n1: "unat (?n + 1) = unat ?n + 1" by (rule unat_u64_plus1)
  have sat: "sat_add ?n 1 = ?n + 1"
    using assms(2) sat_add_1 [of ?n] n1 by (metis word_unat_eq_iff)
  have m': "m' = m\<lparr>em_next_id := ?n + 1, em_active := bt_insert (?n + 1) ts (em_active m)\<rparr>"
    and i: "i = ?n + 1" using assms(3) by (auto simp: em_begin_def Let_def sat)
  have less: "?n < ?n + 1" using n1 by (simp add: word_less_nat_alt)
  then show lt_id: "\<forall>p \<in> set (em_active m). fst p < i"
    using assms(1) by (auto simp: em_inv_def i intro: le_less_trans)
  then have "map_of (em_active m) (?n + 1) = None" by (force simp: i map_of_eq_None_iff)
  then show "set (em_active m') = insert (i, ts) (set (em_active m))"
    using assms(1) by (simp add: m' i em_inv_def bt_insert_new)
  then show "em_inv m'"
    using assms(1) lt_id by (auto simp: em_inv_def m' i bt_sorted_insert)
  show "unat (em_next_id m') = unat ?n + 1" "i = em_next_id m'" by (simp_all add: m' i n1)
qed

lemma em_run_ids:
  assumes "em_inv m" "unat (em_next_id m) + em_begins ops < 2 ^ 64" "em_run m ops = (m', ids)"
  shows "em_inv m' \<and> sorted_wrt (<) (map fst ids) \<and> (\<forall>p \<in> set ids. em_next_id m < fst p) \<and>
    (\<forall>p \<in> set (em_active m) \<union> set ids. EmEnd (fst p) \<notin> set ops \<longrightarrow> p \<in> set (em_active m'))"
  using assms
proof (induction m ops arbitrary: m' ids rule: em_run.induct)
  case (2 m ts ops)
  obtain m1 i where b: "em_begin m ts = (m1, i)" by fastforce
  obtain m2 ids2 where r: "em_run m1 ops = (m2, ids2)" by fastforce
  have "em_next_id m \<noteq> u64_max" using 2(3) by auto
  note F = em_begin_fresh [OF 2(2) this b]
  have lt: "em_next_id m < em_next_id m1" using F(3) by (simp add: word_less_nat_alt)
  have "em_inv m2 \<and> sorted_wrt (<) (map fst ids2) \<and> (\<forall>p \<in> set ids2. em_next_id m1 < fst p) \<and>
    (\<forall>p \<in> set (em_active m1) \<union> set ids2. EmEnd (fst p) \<notin> set ops \<longrightarrow> p \<in> set (em_active m2))"
    using 2(1) [OF b [symmetric] refl F(1) _ r] 2(3) F(3) by simp
  moreover have "m' = m2" "ids = (i, ts) # ids2" using 2(4) b r by simp_all
  ultimately show ?case using F(2,4) lt by auto
next
  case (3 m i ops)
  have "set (em_active (em_end m i)) = {p \<in> set (em_active m). fst p \<noteq> i}"
    by (auto simp: em_end_def bt_remove_def)
  moreover have "em_next_id (em_end m i) = em_next_id m" by (simp add: em_end_def)
  ultimately show ?case
    using 3(1) [OF em_inv_end [OF 3(2)]] 3(3,4) by auto
qed simp

section \<open>Survivors\<close>

lemma survivors_loop_eq:
  assumes "sorted_wrt (>) tss"
  shows "survivors_loop wm tss kept kept_below =
    kept @ filter (\<lambda>t. wm \<le> t \<or> \<not> kept_below \<and> (\<forall>t' \<in> set tss. t' < wm \<longrightarrow> t' \<le> t)) tss"
  using assms
proof (induction tss arbitrary: kept kept_below)
  case (Cons ts tss)
  have "filter (\<lambda>t. wm \<le> t \<or> \<not> kept_below \<and> (\<forall>t' \<in> set (ts # tss). t' < wm \<longrightarrow> t' \<le> t)) tss =
      filter (\<lambda>t. wm \<le> t \<or> \<not> (kept_below \<or> ts < wm) \<and> (\<forall>t' \<in> set tss. t' < wm \<longrightarrow> t' \<le> t)) tss"
    using Cons.prems by (intro filter_cong [OF refl]) (auto simp: not_le)
  moreover have "\<forall>t' \<in> set (ts # tss). t' < wm \<longrightarrow> t' \<le> ts" using Cons.prems by auto
  ultimately show ?case using Cons
    by (cases "ts < wm"; cases kept_below) (simp_all add: not_less [symmetric])
qed simp

lemma survivors_for_key_eq:
  "sorted_wrt (>) tss \<Longrightarrow>
   survivors_for_key tss wm = filter (\<lambda>t. wm \<le> t \<or> (\<forall>t' \<in> set tss. t' < wm \<longrightarrow> t' \<le> t)) tss"
  by (simp add: survivors_for_key_def survivors_loop_eq)

text \<open>The commit timestamps of a key, newest first, as the memtable holds them.\<close>

definition key_timestamps :: "key \<Rightarrow> memtable \<Rightarrow> commit_ts list" where
  "key_timestamps k m = map commit_ts (versions_of k (mt_map m))"

lemma key_timestamps_eq:
  "bt_sorted (mt_map m) \<Longrightarrow>
   key_timestamps k m = map (commit_ts \<circ> fst) (filter (\<lambda>p. user_key (fst p) = k) (mt_map m))"
  by (simp add: key_timestamps_def versions_of_eq)

lemma key_timestamps_sorted:
  assumes "bt_sorted (mt_map m)"
  shows "sorted_wrt (>) (key_timestamps k m)"
proof -
  let ?l = "filter (\<lambda>p. user_key (fst p) = k) (mt_map m)"
  have "bt_sorted ?l" using assms by (rule bt_sorted_filter)
  then have "sorted_wrt (\<lambda>p q. fst p < fst q) ?l" by (simp add: bt_sorted_def sorted_wrt_map)
  then have "sorted_wrt (\<lambda>p q. commit_ts (fst q) < commit_ts (fst p)) ?l"
    by (rule sorted_wrt_mono_rel [rotated]) (auto simp: less_internal_key_def)
  then show ?thesis by (simp add: key_timestamps_eq assms sorted_wrt_map)
qed

lemma mt_gc_survivors:
  assumes "mt_inv m"
  shows "key_timestamps k (fst (mt_gc_below_watermark m wm)) = survivors_for_key (key_timestamps k m) wm"
proof -
  have s: "bt_sorted (mt_map m)" using assms by (simp add: mt_inv_def)
  let ?k = "\<lambda>p. user_key (fst p) = k"
  let ?dead = "\<lambda>p. gc_dead wm (mt_map m) (fst p)"
  let ?keep = "\<lambda>t. wm \<le> t \<or> (\<forall>t' \<in> set (key_timestamps k m). t' < wm \<longrightarrow> t' \<le> t)"
  have map: "mt_map (fst (mt_gc_below_watermark m wm)) = filter (\<lambda>p. \<not> ?dead p) (mt_map m)"
    by (simp add: mt_gc_below_watermark_def mt_gc_map [OF assms])
  have "key_timestamps k (fst (mt_gc_below_watermark m wm)) =
      map (commit_ts \<circ> fst) (filter (\<lambda>p. ?k p \<and> \<not> ?dead p) (mt_map m))"
    by (subst key_timestamps_eq) (simp_all add: map s bt_sorted_filter conj_commute)
  also have "filter (\<lambda>p. ?k p \<and> \<not> ?dead p) (mt_map m) =
      filter (\<lambda>p. ?k p \<and> ?keep (commit_ts (fst p))) (mt_map m)"
    by (rule filter_cong [OF refl])
      (force simp: gc_dead_def key_timestamps_eq s not_less not_le)
  also have "map (commit_ts \<circ> fst) \<dots> = filter ?keep (key_timestamps k m)"
    by (simp add: key_timestamps_eq [OF s] filter_map comp_def conj_commute)
  also have "\<dots> = survivors_for_key (key_timestamps k m) wm"
    by (simp add: survivors_for_key_eq key_timestamps_sorted s)
  finally show ?thesis .
qed

lemma dead_versions_partition:
  "t \<in> set tss \<Longrightarrow> is_dead_version tss t wm \<longleftrightarrow> t \<in> set (dead_versions_for_key tss wm)"
  by (simp add: is_dead_version_def dead_versions_for_key_def)

section \<open>Properties\<close>

text \<open>
  The memtable's garbage collector keeps, for every key, exactly the timestamps that
  \<open>survivors_for_key\<close> selects from the versions of that key.
\<close>

theorem memtable_gc_is_survivors:
  fixes ops :: "mt_op list"
  defines "m \<equiv> foldl mt_step mt_new ops"
  shows "key_timestamps k (fst (mt_gc_below_watermark m wm)) = survivors_for_key (key_timestamps k m) wm"
  unfolding m_def by (rule mt_gc_survivors) (simp add: mt_inv_steps mt_inv_new)

text \<open>
  C16. In any run of begins and ends with fewer than \<open>2 ^ 64\<close> begins, the ids handed out are
  distinct, and every transaction that has not ended is registered with its own read
  timestamp; the vacuum watermark is at or below each of them, so collecting the memtable at
  the watermark leaves every open snapshot as it was.
\<close>

theorem vacuum_protects_open_snapshots:
  assumes "em_run em_new ops = (m, ids)" "em_begins ops < 2 ^ 64"
    and "(i, ts) \<in> set ids" "EmEnd i \<notin> set ops"
  shows "distinct (map fst ids) \<and> (i, ts) \<in> set (em_active m) \<and> vacuum_watermark m fallback \<le> ts \<and>
    mt_get_at (fst (mt_gc_below_watermark (foldl mt_step mt_new mops) (vacuum_watermark m fallback))) k ts =
    mt_get_at (foldl mt_step mt_new mops) k ts"
proof -
  let ?wm = "vacuum_watermark m fallback" and ?t = "foldl mt_step mt_new mops"
  have run: "em_inv m \<and> sorted_wrt (<) (map fst ids) \<and> (\<forall>p \<in> set ids. em_next_id em_new < fst p) \<and>
    (\<forall>p \<in> set (em_active em_new) \<union> set ids. EmEnd (fst p) \<notin> set ops \<longrightarrow> p \<in> set (em_active m))"
    using assms(2) by (intro em_run_ids [OF _ _ assms(1)]) (simp_all add: em_inv_def em_new_def)
  then have act: "(i, ts) \<in> set (em_active m)" using assms(3,4) by fastforce
  then have wm: "?wm \<le> ts" by (rule vacuum_watermark_le)
  have inv: "mt_inv ?t" by (simp add: mt_inv_steps mt_inv_new)
  have "mt_get_at (fst (mt_gc_below_watermark ?t ?wm)) k ts = mt_get_at ?t k ts"
    unfolding mt_gc_below_watermark_def
    by (rule mem_read.gc_invisible [OF inv mt_inv_gc [OF inv] mt_gc_keeps [OF inv] wm])
  then show ?thesis using run act wm by (simp add: strict_sorted_iff)
qed

text \<open>Two readers begin at 5 and 9 and the second ends: the watermark is 5.\<close>

lemma vacuum_protects_open_snapshots_witness:
  "\<exists>m ids. em_run em_new [EmBegin 5, EmBegin 9, EmEnd 2] = (m, ids) \<and> (1, 5) \<in> set ids \<and>
     vacuum_watermark m 100 \<le> 5"
proof -
  let ?ops = "[EmBegin 5, EmBegin 9, EmEnd 2]"
  obtain m ids where r: "em_run em_new ?ops = (m, ids)" by fastforce
  have "snd (em_run em_new ?ops) = [(1, 5), (2, 9)]" by code_simp
  then have ids: "(1, 5) \<in> set ids" using r by simp
  have "vacuum_watermark m 100 \<le> 5"
    using vacuum_protects_open_snapshots [OF r _ ids, of 100] by simp
  then show ?thesis using r ids by blast
qed

end
