(* ===== verification/Wal.thy ===== *)
theory Wal
  imports Memtable
begin

text \<open>
  The write-ahead log of \<open>wal.rs\<close>: the record format, the writer and the recovering reader.
  The hash \<open>xxh3_64\<close> is the parameter \<open>xxh\<close>. Writes to the file succeed (a full disk is not
  modelled); durability is the \<open>sync_data\<close> mark of the file, and a crash cuts the file anywhere
  past it. Replay returns every synced entry and never invents or reorders one.
\<close>

section \<open>Record format\<close>

definition WAL_MAGIC :: bytes where
  "WAL_MAGIC = lit ''TKYW''"

definition WAL_VERSION :: byte where
  "WAL_VERSION = 1"

definition FLAG_TOMBSTONE :: byte where
  "FLAG_TOMBSTONE = 1"

definition encode_body :: "entry \<Rightarrow> bytes" where
  "encode_body e =
     (if e_tombstone e then FLAG_TOMBSTONE else 0) # u64_le (e_seq e) @ u32_le (len32 (e_key e)) @ e_key e @
     (case e_value e of
        Some v \<Rightarrow> if \<not> e_tombstone e then u32_le (len32 v) @ v else u32_le 0
      | None \<Rightarrow> u32_le 0)"

definition decode_body :: "bytes \<Rightarrow> entry result" where
  "decode_body bs =
     (case bs of
        [] \<Rightarrow> Inl (Integrity ''WAL body empty'')
      | flags # body \<Rightarrow>
          if length body < 8 + 4 then Inl (Integrity ''WAL body truncated (seq/key_len)'')
          else
            let seq = u64_of_le (take 8 body);
                body = drop 8 body;
                key_len = unat (u32_of_le (take 4 body));
                body = drop 4 body
            in if length body < key_len + 4 then Inl (Integrity ''WAL body truncated (key)'')
               else
                 let k = take key_len body;
                     body = drop key_len body;
                     val_len = unat (u32_of_le (take 4 body));
                     body = drop 4 body
                 in if length body \<noteq> val_len then Inl (Integrity ''WAL body truncated (value)'')
                    else if and flags FLAG_TOMBSTONE \<noteq> 0 then
                      (if val_len \<noteq> 0 then Inl (Integrity ''WAL tombstone with non-empty value'')
                       else Inr (entry_delete k seq))
                    else Inr (entry_put k body seq))"

section \<open>Writer\<close>

text \<open>The bytes \<open>WalWriter::append\<close> writes for one entry.\<close>

definition wal_record :: "(bytes \<Rightarrow> u64) \<Rightarrow> entry \<Rightarrow> bytes" where
  "wal_record xxh e =
     (let body = encode_body e; checksum = xxh body; body_len = len32 body
      in u32_le body_len @ body @ u64_le checksum)"

definition wal_create :: "disk_file option \<Rightarrow> disk_file result" where
  "wal_create existing =
     (case existing of
        Some _ \<Rightarrow> Inl (Io AlreadyExists)
      | None \<Rightarrow> Inr (file_sync (file_append [WAL_VERSION] (file_append WAL_MAGIC
                  \<lparr>df_bytes = [], df_synced = 0\<rparr>))))"

definition wal_open_append :: "disk_file option \<Rightarrow> disk_file result" where
  "wal_open_append existing = (case existing of None \<Rightarrow> Inl (Io NotFound) | Some f \<Rightarrow> Inr f)"

definition wal_append :: "(bytes \<Rightarrow> u64) \<Rightarrow> disk_file \<Rightarrow> entry \<Rightarrow> disk_file" where
  "wal_append xxh w e = file_append (wal_record xxh e) w"

definition wal_sync :: "disk_file \<Rightarrow> disk_file" where
  "wal_sync w = file_sync w"

definition wal_append_sync :: "(bytes \<Rightarrow> u64) \<Rightarrow> disk_file \<Rightarrow> entry \<Rightarrow> disk_file" where
  "wal_append_sync xxh w e = wal_sync (wal_append xxh w e)"

definition wal_append_batch :: "(bytes \<Rightarrow> u64) \<Rightarrow> disk_file \<Rightarrow> entry list \<Rightarrow> disk_file" where
  "wal_append_batch xxh w es = foldl (wal_append xxh) w es"

definition wal_append_batch_sync :: "(bytes \<Rightarrow> u64) \<Rightarrow> disk_file \<Rightarrow> entry list \<Rightarrow> disk_file" where
  "wal_append_batch_sync xxh w es = wal_sync (wal_append_batch xxh w es)"

section \<open>Reader\<close>

record wal_reader =
  wr_rest :: bytes
  wr_file_len :: u64
  wr_last_valid_offset :: u64
  wr_torn_tail :: bool

definition wal_open :: "bytes option \<Rightarrow> wal_reader result" where
  "wal_open content =
     (case content of
        None \<Rightarrow> Inl (Io NotFound)
      | Some bs \<Rightarrow>
          if length bs < 4 then Inl (Io UnexpectedEof)
          else if take 4 bs \<noteq> WAL_MAGIC then Inl (Integrity ''bad WAL magic'')
          else case drop 4 bs of
                 [] \<Rightarrow> Inl (Io UnexpectedEof)
               | ver # rest \<Rightarrow>
                   if ver \<noteq> WAL_VERSION then Inl (Integrity ''unsupported WAL version'')
                   else Inr \<lparr>wr_rest = rest, wr_file_len = word_of_nat (length bs),
                             wr_last_valid_offset = word_of_nat (length WAL_MAGIC + 1),
                             wr_torn_tail = False\<rparr>)"

definition MAX_WAL_RECORD :: nat where
  "MAX_WAL_RECORD = 64 * 1024 * 1024"

definition read_next :: "(bytes \<Rightarrow> u64) \<Rightarrow> wal_reader \<Rightarrow> wal_reader \<times> entry option result" where
  "read_next xxh r =
     (if wr_rest r = [] then (r, Inr None)
      else if length (wr_rest r) < 4 then (r\<lparr>wr_rest := [], wr_torn_tail := True\<rparr>, Inr None)
      else
        let body_len = unat (u32_of_le (take 4 (wr_rest r)));
            rest = drop 4 (wr_rest r);
            r1 = r\<lparr>wr_rest := rest\<rparr>;
            record_end = Option.bind (checked_add (wr_last_valid_offset r) 4)
              (\<lambda>offset. Option.bind (checked_add offset (word_of_nat body_len))
                (\<lambda>offset. checked_add offset 8))
        in if (case record_end of None \<Rightarrow> True | Some e \<Rightarrow> wr_file_len r < e) then
             (r1\<lparr>wr_torn_tail := True\<rparr>, Inr None)
           else if MAX_WAL_RECORD < body_len then (r1, Inl (Integrity ''WAL record too large''))
           else if length rest < body_len then (r1\<lparr>wr_rest := [], wr_torn_tail := True\<rparr>, Inr None)
           else
             let body = take body_len rest; rest = drop body_len rest
             in if length rest < 8 then (r1\<lparr>wr_rest := [], wr_torn_tail := True\<rparr>, Inr None)
                else
                  let expected = u64_of_le (take 8 rest); r2 = r1\<lparr>wr_rest := drop 8 rest\<rparr>
                  in if expected \<noteq> xxh body then (r2, Inl (Integrity ''WAL checksum mismatch''))
                     else case decode_body body of
                            Inl err \<Rightarrow> (r2, Inl err)
                          | Inr e \<Rightarrow> (r2\<lparr>wr_last_valid_offset :=
                                          wr_last_valid_offset r + (4 + word_of_nat body_len + 8)\<rparr>,
                                      Inr (Some e)))"

lemma read_next_consumes:
  "read_next xxh r = (r', Inr (Some e)) \<Longrightarrow> length (wr_rest r') < length (wr_rest r)"
  by (auto simp: read_next_def Let_def split: if_splits option.splits sum.splits)

text \<open>
  \<open>replay\<close> with its callback \<open>f\<close> and the state \<open>s\<close> the callback changes. Entries read before an
  error have been applied.
\<close>

function wal_replay ::
  "(bytes \<Rightarrow> u64) \<Rightarrow> ('s \<Rightarrow> entry \<Rightarrow> 's) \<Rightarrow> wal_reader \<Rightarrow> 's \<Rightarrow> u64 \<Rightarrow> wal_reader \<times> 's \<times> u64 result"
where
  "wal_replay xxh f r s cnt =
     (case read_next xxh r of
        (r', Inl err) \<Rightarrow> (r', s, Inl err)
      | (r', Inr None) \<Rightarrow> (r', s, Inr cnt)
      | (r', Inr (Some e)) \<Rightarrow> wal_replay xxh f r' (f s e) (cnt + 1))"
  by pat_completeness auto

termination
  by (relation "measure (\<lambda>(_, _, r, _, _). length (wr_rest r))") (auto dest: read_next_consumes [OF sym])

declare wal_replay.simps [simp del]

text \<open>Opening a segment and replaying it, as recovery does.\<close>

definition wal_recover ::
  "(bytes \<Rightarrow> u64) \<Rightarrow> ('s \<Rightarrow> entry \<Rightarrow> 's) \<Rightarrow> bytes \<Rightarrow> 's \<Rightarrow> (wal_reader \<times> 's \<times> u64 result) result"
where
  "wal_recover xxh f bs s =
     rbind (wal_open (Some bs)) (\<lambda>r. Inr (wal_replay xxh f r s 0))"

section \<open>Round trip of one record\<close>

text \<open>Entries the format can carry: the flags match the value and the record fits the reader's cap.\<close>

definition wal_ok :: "entry \<Rightarrow> bool" where
  "wal_ok e \<longleftrightarrow> wf_entry e \<and> length (encode_body e) \<le> MAX_WAL_RECORD"

lemma length_encode_body:
  "length (encode_body e) = 17 + length (e_key e) + (if e_tombstone e then 0 else opt_len (e_value e))"
  by (auto simp: encode_body_def opt_len_def split: option.splits)

lemma decode_encode_body:
  assumes "wf_entry e" "length (e_key e) < 2 ^ 32" "opt_len (e_value e) < 2 ^ 32"
  shows "decode_body (encode_body e) = Inr e"
  using assms(1)
proof (cases rule: wf_entry_cases)
  case (put k v ts)
  then show ?thesis using assms(2,3)
    by (simp add: encode_body_def decode_body_def Let_def opt_len_def)
next
  case (delete k ts)
  then show ?thesis using assms(2)
    by (simp add: encode_body_def decode_body_def Let_def FLAG_TOMBSTONE_def)
qed

lemma decode_encode_ok: "wal_ok e \<Longrightarrow> decode_body (encode_body e) = Inr e"
  by (rule decode_encode_body)
    (auto simp: wal_ok_def length_encode_body MAX_WAL_RECORD_def wf_entry_def opt_len_def
      split: if_splits)

lemma length_wal_record [simp]: "length (wal_record xxh e) = length (encode_body e) + 12"
  by (simp add: wal_record_def Let_def)

section \<open>Recovery\<close>

text \<open>Between records, the offset and the unread bytes add up to the file length.\<close>

definition rd_ok :: "wal_reader \<Rightarrow> bool" where
  "rd_ok r \<longleftrightarrow> unat (wr_last_valid_offset r) + length (wr_rest r) = unat (wr_file_len r)"

text \<open>The bound check of \<open>read_next\<close> compares the record with the unread bytes.\<close>

lemma checked_add_nat:
  "n < 2 ^ 64 \<Longrightarrow> checked_add a (word_of_nat n) = (if unat a + n < 2 ^ 64 then Some (a + word_of_nat n) else None)"
  by (simp add: checked_add_unat unat_of_nat_eq)

lemma unat_add_nat:
  assumes "unat (a :: u64) + n < 2 ^ 64"
  shows "unat (a + word_of_nat n) = unat a + n"
  using assms by (simp add: unat_add_lem [THEN iffD1] unat_of_nat_eq)

lemma record_end_check:
  assumes "rd_ok r" "4 \<le> length (wr_rest r)" "n < 2 ^ 32"
  shows "(case Option.bind (checked_add (wr_last_valid_offset r) 4)
      (\<lambda>offset. Option.bind (checked_add offset (word_of_nat n)) (\<lambda>offset. checked_add offset 8))
    of None \<Rightarrow> True | Some e \<Rightarrow> wr_file_len r < e) \<longleftrightarrow> length (wr_rest r) < n + 12"
proof -
  let ?a = "wr_last_valid_offset r" and ?F = "wr_file_len r"
  have F: "unat ?F < 2 ^ 64" and a: "unat ?a + length (wr_rest r) = unat ?F"
    using unat_lt2p [of ?F] assms(1) by (simp_all add: rd_ok_def)
  have 1: "checked_add ?a 4 = Some (?a + word_of_nat 4)" "unat (?a + word_of_nat 4) = unat ?a + 4"
    using checked_add_nat [of 4 ?a] unat_add_nat [of ?a 4] F a assms(2) by simp_all
  show ?thesis
  proof (cases "unat ?a + 4 + n < 2 ^ 64")
    case True
    then have 2: "checked_add (?a + word_of_nat 4) (word_of_nat n) = Some (?a + word_of_nat 4 + word_of_nat n)"
      "unat (?a + word_of_nat 4 + word_of_nat n) = unat ?a + 4 + n"
      using checked_add_nat [of n "?a + word_of_nat 4"] unat_add_nat [of "?a + word_of_nat 4" n]
        1(2) assms(3) by simp_all
    show ?thesis
    proof (cases "unat ?a + 4 + n + 8 < 2 ^ 64")
      case True
      then have "checked_add (?a + word_of_nat 4 + word_of_nat n) 8 =
          Some (?a + word_of_nat 4 + word_of_nat n + word_of_nat 8)"
        "unat (?a + word_of_nat 4 + word_of_nat n + word_of_nat 8) = unat ?a + 4 + n + 8"
        using checked_add_nat [of 8 "?a + word_of_nat 4 + word_of_nat n"]
          unat_add_nat [of "?a + word_of_nat 4 + word_of_nat n" 8] 2(2) by simp_all
      then show ?thesis unfolding 1(1) bind.simps 2(1) using a
        by (simp add: word_less_nat_alt) linarith
    next
      case False
      then have "checked_add (?a + word_of_nat 4 + word_of_nat n) 8 = None"
        using checked_add_nat [of 8 "?a + word_of_nat 4 + word_of_nat n"] 2(2) by simp
      then show ?thesis unfolding 1(1) bind.simps 2(1) using a F False by simp
    qed
  next
    case False
    then have "checked_add (?a + word_of_nat 4) (word_of_nat n) = None"
      using checked_add_nat [of n "?a + word_of_nat 4"] 1(2) assms(3) by simp
    then show ?thesis unfolding 1(1) bind.simps using a F False by simp
  qed
qed

lemma read_next_record:
  assumes "rd_ok r" "wal_ok e" "wr_rest r = wal_record xxh e @ rest"
  obtains r' where "read_next xxh r = (r', Inr (Some e))" "wr_rest r' = rest" "rd_ok r'"
    "wr_file_len r' = wr_file_len r" "wr_torn_tail r' = wr_torn_tail r"
proof -
  let ?b = "encode_body e"
  have b: "length ?b \<le> MAX_WAL_RECORD" "length ?b < 2 ^ 32"
    using assms(2) by (simp_all add: wal_ok_def MAX_WAL_RECORD_def)
  have split: "wr_rest r = u32_le (len32 ?b) @ ?b @ u64_le (xxh ?b) @ rest"
    using assms(3) by (simp add: wal_record_def Let_def)
  let ?o = "wr_last_valid_offset r + (4 + word_of_nat (length ?b) + 8)"
  let ?r = "r\<lparr>wr_rest := rest, wr_last_valid_offset := ?o\<rparr>"
  have "length (wr_rest r) = length ?b + 12 + length rest" by (simp add: split)
  then have check: "(case Option.bind (checked_add (wr_last_valid_offset r) 4)
      (\<lambda>offset. Option.bind (checked_add offset (word_of_nat (length ?b))) (\<lambda>offset. checked_add offset 8))
    of None \<Rightarrow> True | Some e \<Rightarrow> wr_file_len r < e) = False"
    by (subst record_end_check [OF assms(1) _ b(2)]) simp_all
  have "read_next xxh r = (?r, Inr (Some e))"
    unfolding read_next_def split using check b decode_encode_ok [OF assms(2)]
    by (simp add: Let_def)
  moreover have "rd_ok ?r"
  proof -
    have "unat (wr_last_valid_offset r) + (length ?b + 12) < 2 ^ 64"
      using assms(1) unat_lt2p [of "wr_file_len r"] by (simp add: rd_ok_def split)
    then have "unat (wr_last_valid_offset r + word_of_nat (length ?b + 12)) =
        unat (wr_last_valid_offset r) + (length ?b + 12)" by (rule unat_add_nat)
    moreover have "?o = wr_last_valid_offset r + word_of_nat (length ?b + 12)" by simp
    ultimately show ?thesis using assms(1) by (simp add: rd_ok_def split add_ac)
  qed
  ultimately show ?thesis using that [of ?r] by simp
qed

lemma read_next_torn:
  assumes "rd_ok r" "wal_ok e" "wr_rest r = take n (wal_record xxh e)" "0 < n" "n < length (wal_record xxh e)"
  obtains r' where "read_next xxh r = (r', Inr None)" "wr_torn_tail r'"
    "wr_last_valid_offset r' = wr_last_valid_offset r"
proof (cases "n < 4")
  case True
  have "length (wr_rest r) = n" using assms(3,5) by simp
  then show ?thesis using True assms(4) that by (auto simp: read_next_def)
next
  case False
  let ?b = "encode_body e"
  have b: "length ?b < 2 ^ 32" using assms(2) by (simp add: wal_ok_def MAX_WAL_RECORD_def)
  have len: "length (wr_rest r) = n" using assms(3,5) by simp
  have "take 4 (wr_rest r) = u32_le (len32 ?b)"
    using assms(3) False by (simp add: wal_record_def Let_def)
  then have bl: "unat (u32_of_le (take 4 (wr_rest r))) = length ?b" using b by simp
  have check: "(case Option.bind (checked_add (wr_last_valid_offset r) 4)
      (\<lambda>offset. Option.bind (checked_add offset (word_of_nat (length ?b))) (\<lambda>offset. checked_add offset 8))
    of None \<Rightarrow> True | Some e \<Rightarrow> wr_file_len r < e) = True"
    using assms(5) by (subst record_end_check [OF assms(1) _ b]) (simp_all add: len False not_less [symmetric])
  have "wr_rest r \<noteq> []" using len assms(4) by auto
  then have "read_next xxh r = (r\<lparr>wr_rest := drop 4 (wr_rest r), wr_torn_tail := True\<rparr>, Inr None)"
    unfolding read_next_def Let_def bl check using False len by simp
  then show ?thesis using that by auto
qed

text \<open>
  Replaying what is left of a segment after a cut: exactly the records that are whole, in
  order, and a torn tail is reported exactly when bytes of a further record remain.
\<close>

abbreviation wal_bytes :: "(bytes \<Rightarrow> u64) \<Rightarrow> entry list \<Rightarrow> bytes" where
  "wal_bytes xxh es \<equiv> concat (map (wal_record xxh) es)"

abbreviation wal_size :: "(bytes \<Rightarrow> u64) \<Rightarrow> entry \<Rightarrow> nat" where
  "wal_size xxh \<equiv> \<lambda>e. length (wal_record xxh e)"

lemma wal_replay_cut:
  assumes "rd_ok r" "\<forall>e \<in> set es. wal_ok e" "wr_rest r = take n (wal_bytes xxh es)"
  shows "\<exists>r'. wal_replay xxh f r s cnt =
      (r', foldl f s (fitting (wal_size xxh) n es), Inr (cnt + word_of_nat (length (fitting (wal_size xxh) n es)))) \<and>
    unat (wr_last_valid_offset r') = unat (wr_last_valid_offset r) + length (wal_bytes xxh (fitting (wal_size xxh) n es)) \<and>
    (wr_torn_tail r' \<longleftrightarrow> wr_torn_tail r \<or> take n (wal_bytes xxh es) \<noteq> wal_bytes xxh (fitting (wal_size xxh) n es))"
  using assms
proof (induction es arbitrary: n r s cnt)
  case Nil
  then show ?case by (subst wal_replay.simps) (simp add: read_next_def)
next
  case (Cons e es)
  have e: "wal_ok e" using Cons.prems(2) by simp
  show ?case
  proof (cases "wal_size xxh e \<le> n")
    case True
    then have "wr_rest r = wal_record xxh e @ take (n - wal_size xxh e) (wal_bytes xxh es)"
      using Cons.prems(3) by simp
    from read_next_record [OF Cons.prems(1) e this] obtain r1 where
      r1: "read_next xxh r = (r1, Inr (Some e))"
        "wr_rest r1 = take (n - wal_size xxh e) (wal_bytes xxh es)" "rd_ok r1"
        "wr_file_len r1 = wr_file_len r" "wr_torn_tail r1 = wr_torn_tail r" by blast
    have "unat (wr_last_valid_offset r1) = unat (wr_last_valid_offset r) + wal_size xxh e"
      using r1(2-4) Cons.prems(1,3) True unfolding rd_ok_def by (simp add: min_def split: if_splits)
    then show ?thesis
      using Cons.IH [OF r1(3) _ r1(2), of "f s e" "cnt + 1"] Cons.prems(2) True
      by (subst wal_replay.simps) (auto simp: r1(1,5) add.assoc)
  next
    case False
    then have rest: "wr_rest r = take n (wal_record xxh e)" using Cons.prems(3) by simp
    show ?thesis
    proof (cases "n = 0")
      case True
      then show ?thesis using rest by (subst wal_replay.simps) (simp add: read_next_def)
    next
      case nz: False
      obtain r1 where "read_next xxh r = (r1, Inr None)" "wr_last_valid_offset r1 = wr_last_valid_offset r"
        "wr_torn_tail r1"
        by (rule read_next_torn [OF Cons.prems(1) e rest]) (use False nz in auto)
      then show ?thesis using False nz by (subst wal_replay.simps) (auto simp: wal_record_def Let_def)
    qed
  qed
qed

section \<open>Durability\<close>

text \<open>The calls a client of the writer makes, and the entries they append.\<close>

datatype wal_op = WalAppend entry | WalAppendSync entry | WalBatch "entry list" | WalBatchSync "entry list" | WalSync

fun wal_step :: "(bytes \<Rightarrow> u64) \<Rightarrow> disk_file \<Rightarrow> wal_op \<Rightarrow> disk_file" where
  "wal_step xxh w (WalAppend e) = wal_append xxh w e"
| "wal_step xxh w (WalAppendSync e) = wal_append_sync xxh w e"
| "wal_step xxh w (WalBatch es) = wal_append_batch xxh w es"
| "wal_step xxh w (WalBatchSync es) = wal_append_batch_sync xxh w es"
| "wal_step xxh w WalSync = wal_sync w"

fun wal_op_entries :: "wal_op \<Rightarrow> entry list" where
  "wal_op_entries (WalAppend e) = [e]"
| "wal_op_entries (WalAppendSync e) = [e]"
| "wal_op_entries (WalBatch es) = es"
| "wal_op_entries (WalBatchSync es) = es"
| "wal_op_entries WalSync = []"

fun wal_op_syncs :: "wal_op \<Rightarrow> bool" where
  "wal_op_syncs (WalAppend _) = False"
| "wal_op_syncs (WalBatch _) = False"
| "wal_op_syncs _ = True"

definition appended :: "wal_op list \<Rightarrow> entry list" where
  "appended ops = concat (map wal_op_entries ops)"

definition wal_header :: bytes where
  "wal_header = WAL_MAGIC @ [WAL_VERSION]"

lemma length_wal_header [simp]: "length wal_header = 5"
  by (simp add: wal_header_def WAL_MAGIC_def)

lemma wal_batch_bytes:
  "df_bytes (wal_append_batch xxh w es) = df_bytes w @ wal_bytes xxh es"
  "df_synced (wal_append_batch xxh w es) = df_synced w"
  by (induction es arbitrary: w) (auto simp: wal_append_batch_def wal_append_def file_append_def)

lemma wal_step_bytes: "df_bytes (wal_step xxh w op) = df_bytes w @ wal_bytes xxh (wal_op_entries op)"
  by (cases op)
    (auto simp: wal_append_sync_def wal_append_batch_sync_def wal_sync_def file_sync_def
      wal_append_def file_append_def wal_batch_bytes)

lemma wal_step_synced:
  "df_synced (wal_step xxh w op) =
     (if wal_op_syncs op then length (df_bytes (wal_step xxh w op)) else df_synced w)"
  by (cases op)
    (auto simp: wal_append_sync_def wal_append_batch_sync_def wal_sync_def file_sync_def
      wal_append_def file_append_def wal_batch_bytes)

lemma wal_run_bytes:
  "df_bytes (foldl (wal_step xxh) w ops) = df_bytes w @ wal_bytes xxh (appended ops)"
  by (induction ops arbitrary: w) (auto simp: wal_step_bytes appended_def)

lemma wal_run_synced_mono:
  assumes "df_synced w \<le> length (df_bytes w)"
  shows "df_synced w \<le> df_synced (foldl (wal_step xxh) w ops)"
  using assms
proof (induction ops arbitrary: w)
  case (Cons op ops)
  have "df_synced w \<le> df_synced (wal_step xxh w op)"
    and "df_synced (wal_step xxh w op) \<le> length (df_bytes (wal_step xxh w op))"
    using Cons.prems by (auto simp: wal_step_synced wal_step_bytes)
  then show ?case using Cons.IH [of "wal_step xxh w op"] by simp
qed simp

lemma wal_open_header:
  assumes "length bs < 2 ^ 64 - 5"
  obtains r where "wal_open (Some (wal_header @ bs)) = Inr r" "rd_ok r" "wr_rest r = bs"
    "wr_last_valid_offset r = 5" "\<not> wr_torn_tail r"
proof -
  have "length (wal_header @ bs) < 2 ^ 64" using assms by simp
  then have "unat (word_of_nat (length bs + 5) :: u64) = length bs + 5" using assms by (intro unat_of_nat_eq) simp
  then show ?thesis
    using that [of "\<lparr>wr_rest = bs, wr_file_len = word_of_nat (length bs + 5),
      wr_last_valid_offset = 5, wr_torn_tail = False\<rparr>"]
    by (simp add: wal_open_def wal_header_def WAL_MAGIC_def rd_ok_def add.commute [of 5])
qed

lemma wal_recover_cut:
  assumes "\<forall>e \<in> set es. wal_ok e" "length (wal_bytes xxh es) < 2 ^ 64 - 5" "5 \<le> n"
  shows "\<exists>r'. wal_recover xxh f (take n (wal_header @ wal_bytes xxh es)) s =
      Inr (r', foldl f s (fitting (wal_size xxh) (n - 5) es),
           Inr (word_of_nat (length (fitting (wal_size xxh) (n - 5) es))))"
proof -
  have cut: "take n (wal_header @ wal_bytes xxh es) = wal_header @ take (n - 5) (wal_bytes xxh es)"
    using assms(3) by simp
  obtain r where "wal_open (Some (wal_header @ take (n - 5) (wal_bytes xxh es))) = Inr r" and
    r: "rd_ok r" "wr_rest r = take (n - 5) (wal_bytes xxh es)"
    by (rule wal_open_header [of "take (n - 5) (wal_bytes xxh es)"]) (use assms(2) in auto)
  then show ?thesis
    unfolding wal_recover_def cut
    using wal_replay_cut [OF r(1) assms(1) r(2), of f s 0] by auto
qed

lemma wal_created:
  assumes "wal_create None = Inr w"
  shows "df_bytes w = wal_header" "df_synced w = 5"
  using assms by (auto simp: wal_create_def file_sync_def file_append_def wal_header_def WAL_MAGIC_def)

lemma wal_replay_err:
  assumes "rd_ok r" "\<forall>e \<in> set es. wal_ok e" "wr_rest r = wal_bytes xxh es @ rest"
    and "\<And>r'. rd_ok r' \<Longrightarrow> wr_rest r' = rest \<Longrightarrow> \<exists>r''. read_next xxh r' = (r'', Inl err)"
  shows "\<exists>r''. wal_replay xxh f r s cnt = (r'', foldl f s es, Inl err)"
  using assms
proof (induction es arbitrary: r s cnt)
  case Nil
  then obtain r'' where "read_next xxh r = (r'', Inl err)" by fastforce
  then show ?case by (subst wal_replay.simps) simp
next
  case (Cons e es)
  from read_next_record [OF Cons.prems(1), of e xxh "wal_bytes xxh es @ rest"] Cons.prems(2,3)
  obtain r' where r': "read_next xxh r = (r', Inr (Some e))" "wr_rest r' = wal_bytes xxh es @ rest" "rd_ok r'"
    by auto
  have "wal_replay xxh f r s cnt = wal_replay xxh f r' (f s e) (cnt + 1)"
    by (subst wal_replay.simps) (simp add: r'(1))
  moreover have "\<exists>r''. wal_replay xxh f r' (f s e) (cnt + 1) = (r'', foldl f (f s e) es, Inl err)"
    by (rule Cons.IH [OF r'(3) _ r'(2) Cons.prems(4)]) (use Cons.prems(2) in simp_all)
  ultimately show ?case by simp
qed

section \<open>Properties\<close>

text \<open>The WAL body format round-trips: decoding an encoded entry gives the entry back.\<close>

theorem wal_body_roundtrip:
  assumes "wf_entry e" "length (e_key e) < 2 ^ 32" "opt_len (e_value e) < 2 ^ 32"
  shows "decode_body (encode_body e) = Inr e"
  using assms by (rule decode_encode_body)

lemma wal_body_roundtrip_witness:
  "decode_body (encode_body (entry_put [1, 2] [3] 9)) = Inr (entry_put [1, 2] [3] 9)"
  by (rule wal_body_roundtrip) (simp_all add: opt_len_def)

text \<open>
  C14. Durability. A segment is created and written by any sequence of appends, batches and
  syncs; a crash cuts the file anywhere past its synced part. Reopening and replaying it
  succeeds, applies a prefix of what was appended in the order it was appended, and that
  prefix contains everything appended up to any sync. Nothing is invented or reordered.
\<close>

theorem wal_crash_recovery:
  assumes "wal_create None = Inr w" "crash_to (foldl (wal_step xxh) w (ops1 @ ops2)) n bs"
    and "ops1 = [] \<or> wal_op_syncs (last ops1)"
    and "\<forall>e \<in> set (appended (ops1 @ ops2)). wal_ok e"
    and "length (wal_bytes xxh (appended (ops1 @ ops2))) < 2 ^ 64 - 5"
  shows "\<exists>r es. wal_recover xxh f bs s = Inr (r, foldl f s es, Inr (word_of_nat (length es))) \<and>
    prefix (appended ops1) es \<and> prefix es (appended (ops1 @ ops2))"
proof -
  let ?es = "appended (ops1 @ ops2)" and ?w1 = "foldl (wal_step xxh) w ops1"
  have w1: "df_bytes ?w1 = wal_header @ wal_bytes xxh (appended ops1)"
    by (simp add: wal_run_bytes wal_created [OF assms(1)])
  have "5 + length (wal_bytes xxh (appended ops1)) \<le> df_synced ?w1"
  proof (cases "ops1 = []")
    case True
    then show ?thesis by (simp add: appended_def wal_created [OF assms(1)])
  next
    case False
    then obtain ops op where ops: "ops1 = ops @ [op]" by (metis append_butlast_last_id)
    then have "df_synced ?w1 = length (df_bytes ?w1)" using assms(3) by (simp add: wal_step_synced)
    then show ?thesis by (simp add: w1)
  qed
  moreover have "df_synced ?w1 \<le> length (df_bytes ?w1)"
    using assms(3) by (cases ops1 rule: rev_cases) (auto simp: wal_step_synced wal_created [OF assms(1)])
  ultimately have n: "5 + length (wal_bytes xxh (appended ops1)) \<le> n"
    using wal_run_synced_mono [of ?w1 xxh ops2] assms(2) by (simp add: crash_to_def)
  have bs: "bs = take n (wal_header @ wal_bytes xxh ?es)"
    using assms(2) by (simp add: crash_to_def wal_run_bytes wal_created [OF assms(1)] flip: foldl_append)
  let ?fit = "fitting (wal_size xxh) (n - 5) ?es"
  have "prefix (appended ops1) ?es" by (simp add: appended_def)
  then have "prefix (appended ops1) ?fit"
    using n by (intro prefix_fittingI) (simp_all add: length_concat comp_def)
  then show ?thesis
    using wal_recover_cut [OF assms(4,5), of n f s] n prefix_fitting [of _ _ ?es] unfolding bs by fastforce
qed

lemma wal_crash_recovery_witness:
  "\<forall>(xxh :: bytes \<Rightarrow> u64). \<exists>w r es. wal_create None = Inr w \<and>
    wal_recover xxh (\<lambda>es e. es @ [e]) (take 40 (df_bytes (foldl (wal_step xxh) w
      ([WalAppendSync (entry_put [1] [2] 1)] @ [WalAppend (entry_put [1] [3] 2)])))) [] =
      Inr (r, es, Inr (word_of_nat (length es))) \<and> prefix [entry_put [1] [2] 1] es"
    (is "\<forall>xxh. ?P xxh")
proof (intro allI)
  fix xxh :: "bytes \<Rightarrow> u64"
  let ?o1 = "[WalAppendSync (entry_put [1] [2] 1)]" and ?o2 = "[WalAppend (entry_put [1] [3] 2)]"
  obtain w where w: "wal_create None = Inr w" by (simp add: wal_create_def)
  have len: "length (encode_body (entry_put k v ts)) = 17 + length k + length v" for k v ts
    by (simp add: length_encode_body opt_len_def)
  let ?f = "\<lambda>es e. es @ [e :: entry]"
  let ?bs = "take 40 (df_bytes (foldl (wal_step xxh) w (?o1 @ ?o2)))"
  have c: "crash_to (foldl (wal_step xxh) w (?o1 @ ?o2)) 40 ?bs"
    by (simp add: crash_to_def wal_step_synced wal_created [OF w] wal_append_def wal_append_sync_def
        wal_sync_def file_append_def file_sync_def len)
  obtain r es where res: "wal_recover xxh ?f ?bs [] = Inr (r, foldl ?f [] es, Inr (word_of_nat (length es)))"
    "prefix (appended ?o1) es"
    using wal_crash_recovery [OF w c, of ?f "[]"]
    by (auto simp: appended_def wal_ok_def len MAX_WAL_RECORD_def)
  have "foldl ?f acc xs = acc @ xs" for acc xs by (induction xs arbitrary: acc) auto
  with res w show "?P xxh" by (intro exI [of _ w] exI [of _ r] exI [of _ es]) (simp add: appended_def)
qed

text \<open>
  Corruption is fatal and localised: a record whose stored checksum differs from the hash of
  its body stops the replay with an integrity error, after every record before it was applied.
\<close>

theorem wal_corruption_detected:
  assumes "\<forall>e \<in> set es. wal_ok e" "length body \<le> MAX_WAL_RECORD" "c \<noteq> xxh body"
    and "length (wal_bytes xxh es @ u32_le (len32 body) @ body @ u64_le c @ rest) < 2 ^ 64 - 5"
  shows "\<exists>r. wal_recover xxh f (wal_header @ wal_bytes xxh es @ u32_le (len32 body) @ body @ u64_le c @ rest) s =
    Inr (r, foldl f s es, Inl (Integrity ''WAL checksum mismatch''))"
proof -
  let ?bad = "u32_le (len32 body) @ body @ u64_le c @ rest"
  have b: "length body < 2 ^ 32" using assms(2) by (simp add: MAX_WAL_RECORD_def)
  obtain r where r: "wal_open (Some (wal_header @ wal_bytes xxh es @ ?bad)) = Inr r" "rd_ok r"
    "wr_rest r = wal_bytes xxh es @ ?bad" by (rule wal_open_header [OF assms(4)])
  have "\<exists>r''. read_next xxh r' = (r'', Inl (Integrity ''WAL checksum mismatch''))"
    if r': "rd_ok r'" "wr_rest r' = ?bad" for r'
  proof -
    have check: "(case Option.bind (checked_add (wr_last_valid_offset r') 4)
        (\<lambda>offset. Option.bind (checked_add offset (word_of_nat (length body))) (\<lambda>offset. checked_add offset 8))
      of None \<Rightarrow> True | Some e \<Rightarrow> wr_file_len r' < e) = False"
      by (subst record_end_check [OF r'(1) _ b]) (simp_all add: r'(2))
    show ?thesis unfolding read_next_def r'(2) using check b assms(2,3) by (simp add: Let_def)
  qed
  from wal_replay_err [OF r(2) assms(1) r(3) this, of f s 0] r(1) show ?thesis
    by (auto simp: wal_recover_def)
qed

lemma wal_corruption_detected_witness:
  "\<exists>r. wal_recover (\<lambda>_. 0) (\<lambda>n _. Suc n)
      (wal_header @ wal_bytes (\<lambda>_. 0) [] @ u32_le (len32 [1]) @ [1] @ u64_le 5 @ []) 0 =
    Inr (r, 0, Inl (Integrity ''WAL checksum mismatch''))"
  using wal_corruption_detected [of "[]" "[1]" 5 "\<lambda>_. 0" "[]" "\<lambda>n _. Suc n" 0]
  by (simp add: MAX_WAL_RECORD_def)

text \<open>
  The writer has no size limit but the reader does: an entry whose body is over 64 MiB is
  appended and synced without an error, and the segment can then no longer be replayed past it.
\<close>

theorem wal_oversized_entry_unreadable:
  assumes "MAX_WAL_RECORD < length (encode_body e)" "length (encode_body e) < 2 ^ 32" "wal_create None = Inr w"
  shows "\<exists>r. wal_recover xxh f (df_bytes (wal_append_sync xxh w e)) s =
    Inr (r, s, Inl (Integrity ''WAL record too large''))"
proof -
  let ?b = "encode_body e"
  have bytes: "df_bytes (wal_append_sync xxh w e) = wal_header @ wal_record xxh e"
    by (simp add: wal_append_sync_def wal_sync_def file_sync_def wal_append_def file_append_def
        wal_created [OF assms(3)])
  obtain r where r: "wal_open (Some (wal_header @ wal_record xxh e)) = Inr r" "rd_ok r"
    "wr_rest r = wal_record xxh e" by (rule wal_open_header [of "wal_record xxh e"]) (use assms(2) in auto)
  have check: "(case Option.bind (checked_add (wr_last_valid_offset r) 4)
      (\<lambda>offset. Option.bind (checked_add offset (word_of_nat (length ?b))) (\<lambda>offset. checked_add offset 8))
    of None \<Rightarrow> True | Some e \<Rightarrow> wr_file_len r < e) = False"
    by (subst record_end_check [OF r(2) _ assms(2)]) (simp_all add: r(3))
  have "\<exists>r'. read_next xxh r = (r', Inl (Integrity ''WAL record too large''))"
    unfolding read_next_def r(3) using check assms(1,2) by (simp add: Let_def wal_record_def)
  then show ?thesis
    using r(1) by (auto simp: bytes wal_recover_def wal_replay.simps [of xxh f r])
qed

lemma wal_oversized_entry_unreadable_witness:
  "\<exists>w r. wal_create None = Inr w \<and>
     wal_recover (\<lambda>_. 0) (\<lambda>n _. Suc n)
       (df_bytes (wal_append_sync (\<lambda>_. 0) w (entry_put [1] (replicate (64 * 1024 * 1024) 0) 1))) 0 =
     Inr (r, 0, Inl (Integrity ''WAL record too large''))"
proof -
  obtain w where w: "wal_create None = Inr w" by (simp add: wal_create_def)
  let ?e = "entry_put [1] (replicate (64 * 1024 * 1024) 0) 1"
  have "length (encode_body ?e) = 18 + 64 * 1024 * 1024" by (simp add: length_encode_body opt_len_def)
  then show ?thesis
    using wal_oversized_entry_unreadable [of ?e w "\<lambda>_. 0" "\<lambda>n _. Suc n" 0] w
    by (simp add: MAX_WAL_RECORD_def)
qed

end
