(* ===== verification/Group_Commit.thy ===== *)
theory Group_Commit
  imports Wal
begin

text \<open>
  The group-commit flusher of \<open>group_commit.rs\<close>. Client threads check the closed flag, send a
  message and park on a completion slot; the flusher thread drains the channel, writes the
  batch with one sync, runs the apply hook and completes the slots. A slot is a number, the
  hook is the list of the batches it was called on, and the outcome of the write (\<open>None\<close>, or
  \<open>Some n\<close> when the device failed after \<open>n\<close> bytes) and of the hook are inputs of a round.
  The interleavings of clients and flusher are a step relation.
\<close>

section \<open>State\<close>

datatype flusher_msg =
    MAppend entry nat
  | MAppendBatch "entry list" nat
  | MRotate disk_file nat
  | MShutdown

datatype gc_request = ReqSubmit entry | ReqBatch "entry list" | ReqRotate disk_file

text \<open>
  \<open>gc_requests\<close> lists the requests that passed the closed check; the position of a request is
  the number of its completion slot. \<open>gc_sending\<close> holds the messages about to be sent.
\<close>

record group_commit =
  gc_wal :: disk_file
  gc_retired :: "disk_file list"
  gc_queue :: "flusher_msg list"
  gc_sending :: "flusher_msg list"
  gc_done :: "nat \<rightharpoonup> unit result"
  gc_hook_calls :: "entry list list"
  gc_closed :: bool
  gc_returned :: bool
  gc_ops_committed :: u64
  gc_batches :: u64
  gc_requests :: "gc_request list"

definition gc_start :: "disk_file \<Rightarrow> group_commit" where
  "gc_start wal =
     \<lparr>gc_wal = wal, gc_retired = [], gc_queue = [], gc_sending = [], gc_done = Map.empty, gc_hook_calls = [],
      gc_closed = False, gc_returned = False, gc_ops_committed = 0, gc_batches = 0, gc_requests = []\<rparr>"

section \<open>The flusher\<close>

text \<open>
  Draining the channel: appends are collected until the channel is empty, a rotation or a
  shutdown is met. The result is the batch with the slot of each entry, the rotation, the
  shutdown flag and the messages left.
\<close>

fun drain_queue ::
  "flusher_msg list \<Rightarrow> (entry \<times> nat) list \<Rightarrow>
   (entry \<times> nat) list \<times> (disk_file \<times> nat) option \<times> bool \<times> flusher_msg list"
where
  "drain_queue [] batch = (batch, None, False, [])"
| "drain_queue (MAppend e i # q) batch = drain_queue q (batch @ [(e, i)])"
| "drain_queue (MAppendBatch es i # q) batch = drain_queue q (batch @ map (\<lambda>e. (e, i)) es)"
| "drain_queue (MRotate w i # q) batch = (batch, Some (w, i), False, q)"
| "drain_queue (MShutdown # q) batch = (batch, None, True, q)"

definition complete_slots :: "unit result \<Rightarrow> (entry \<times> nat) list \<Rightarrow> (nat \<rightharpoonup> unit result) \<Rightarrow> (nat \<rightharpoonup> unit result)" where
  "complete_slots r batch d = foldl (\<lambda>d p. d(snd p \<mapsto> r)) d batch"

text \<open>Writing a batch: one \<open>append_batch_sync\<close>, then the hook, then every slot of the batch.\<close>

definition flush_batch ::
  "(bytes \<Rightarrow> u64) \<Rightarrow> nat option \<Rightarrow> bool \<Rightarrow> (entry \<times> nat) list \<Rightarrow> group_commit \<Rightarrow> group_commit"
where
  "flush_batch xxh io hook_ok batch s =
     (if batch = [] then s
      else
        let entries = map fst batch;
            s1 = (case io of
                    None \<Rightarrow> s\<lparr>gc_wal := wal_append_batch_sync xxh (gc_wal s) entries,
                              gc_hook_calls := gc_hook_calls s @ [entries]\<rparr>
                  | Some n \<Rightarrow> s\<lparr>gc_wal := file_append (take n (wal_bytes xxh entries)) (gc_wal s)\<rparr>);
            result = (if io = None \<and> hook_ok then Inr ()
                      else Inl (Engine ''group-commit WAL flush failed''))
        in s1\<lparr>gc_ops_committed := gc_ops_committed s + word_of_nat (length batch),
              gc_batches := gc_batches s + 1,
              gc_done := complete_slots result batch (gc_done s)\<rparr>)"

definition flusher_round ::
  "(bytes \<Rightarrow> u64) \<Rightarrow> nat option \<Rightarrow> bool \<Rightarrow> group_commit \<Rightarrow> group_commit"
where
  "flusher_round xxh io hook_ok s =
     (let (batch, rotate, shutdown, rest) = drain_queue (gc_queue s) [];
          s1 = flush_batch xxh io hook_ok batch (s\<lparr>gc_queue := rest\<rparr>);
          s2 = (case rotate of
                  None \<Rightarrow> s1
                | Some (new_wal, i) \<Rightarrow> s1\<lparr>gc_retired := gc_retired s1 @ [gc_wal s1], gc_wal := new_wal,
                                          gc_done := (gc_done s1)(i \<mapsto> Inr ())\<rparr>)
      in if shutdown then s2\<lparr>gc_wal := wal_sync (gc_wal s2), gc_returned := True\<rparr> else s2)"

section \<open>Clients\<close>

text \<open>
  \<open>submit\<close>, \<open>submit_batch\<close> and \<open>rotate\<close> up to the send: the closed flag is read first, and the
  message goes out in a later step. \<open>submit_batch\<close> returns at once on an empty batch.
\<close>

fun request_msg :: "gc_request \<Rightarrow> nat \<Rightarrow> flusher_msg" where
  "request_msg (ReqSubmit e) i = MAppend e i"
| "request_msg (ReqBatch es) i = MAppendBatch es i"
| "request_msg (ReqRotate w) i = MRotate w i"

definition gc_check :: "gc_request \<Rightarrow> group_commit \<Rightarrow> group_commit \<times> nat option result" where
  "gc_check req s =
     (if req = ReqBatch [] then (s, Inr None)
      else if gc_closed s then (s, Inl (Engine ''group-commit WAL is closed''))
      else let i = length (gc_requests s)
           in (s\<lparr>gc_sending := request_msg req i # gc_sending s, gc_requests := gc_requests s @ [req]\<rparr>,
               Inr (Some i)))"

definition gc_send :: "flusher_msg \<Rightarrow> group_commit \<Rightarrow> group_commit result" where
  "gc_send msg s =
     (if gc_returned s then Inl (Engine ''WAL flusher channel closed'')
      else Inr (s\<lparr>gc_queue := gc_queue s @ [msg], gc_sending := remove1 msg (gc_sending s)\<rparr>))"

definition gc_shutdown :: "group_commit \<Rightarrow> group_commit" where
  "gc_shutdown s =
     (let s' = s\<lparr>gc_closed := True\<rparr>
      in if gc_returned s' then s' else s'\<lparr>gc_queue := gc_queue s' @ [MShutdown]\<rparr>)"

inductive gc_step :: "(bytes \<Rightarrow> u64) \<Rightarrow> group_commit \<Rightarrow> group_commit \<Rightarrow> bool"
  for xxh :: "bytes \<Rightarrow> u64"
where
  check: "gc_check req s = (s', r) \<Longrightarrow> gc_step xxh s s'"
| send: "msg \<in> set (gc_sending s) \<Longrightarrow> gc_send msg s = Inr s' \<Longrightarrow> gc_step xxh s s'"
| shutdown: "gc_step xxh s (gc_shutdown s)"
| flush: "\<not> gc_returned s \<Longrightarrow> gc_queue s \<noteq> [] \<Longrightarrow> gc_step xxh s (flusher_round xxh io hook_ok s)"

inductive gc_reach :: "(bytes \<Rightarrow> u64) \<Rightarrow> group_commit \<Rightarrow> group_commit \<Rightarrow> bool"
  for xxh :: "bytes \<Rightarrow> u64" and s0 :: group_commit
where
  init: "gc_reach xxh s0 s0"
| step: "gc_reach xxh s0 s \<Longrightarrow> gc_step xxh s s' \<Longrightarrow> gc_reach xxh s0 s'"

section \<open>Batches\<close>

lemma drain_queue_acc:
  "drain_queue q batch = (batch @ fst (drain_queue q []), snd (drain_queue q []))"
proof (induction q arbitrary: batch)
  case (Cons m q)
  show ?case
    by (cases m) (simp_all add: Cons [of "batch @ _"] Cons [of "[_]"] Cons [of "map _ _"])
qed simp

fun msg_slot :: "flusher_msg \<Rightarrow> nat option" where
  "msg_slot (MAppend _ i) = Some i"
| "msg_slot (MAppendBatch es i) = (if es = [] then None else Some i)"
| "msg_slot (MRotate _ i) = Some i"
| "msg_slot MShutdown = None"

fun msg_entries :: "flusher_msg \<Rightarrow> entry list" where
  "msg_entries (MAppend e _) = [e]"
| "msg_entries (MAppendBatch es _) = es"
| "msg_entries (MRotate _ _) = []"
| "msg_entries MShutdown = []"

definition msg_batch :: "flusher_msg \<Rightarrow> (entry \<times> nat) list" where
  "msg_batch m = (case msg_slot m of None \<Rightarrow> [] | Some i \<Rightarrow> map (\<lambda>e. (e, i)) (msg_entries m))"

definition is_append :: "flusher_msg \<Rightarrow> bool" where
  "is_append m \<longleftrightarrow> (case m of MAppend _ _ \<Rightarrow> True | MAppendBatch _ _ \<Rightarrow> True | _ \<Rightarrow> False)"

text \<open>What a drain takes: a run of appends, closed by the first rotation or shutdown if there is one.\<close>

lemma drain_queue_spec:
  "\<exists>taken. list_all is_append taken \<and>
     (let (batch, rotate, shutdown, rest) = drain_queue q []
      in batch = concat (map msg_batch taken) \<and>
         (q = taken \<and> rotate = None \<and> \<not> shutdown \<and> rest = [] \<or>
          (\<exists>w i. q = taken @ MRotate w i # rest \<and> rotate = Some (w, i) \<and> \<not> shutdown) \<or>
          q = taken @ MShutdown # rest \<and> rotate = None \<and> shutdown))"
proof (induction q)
  case Nil
  show ?case by (rule exI [of _ "[]"]) simp
next
  case (Cons m q)
  show ?case
  proof (cases "is_append m")
    case True
    have app: "drain_queue (m # q) [] = (msg_batch m @ fst (drain_queue q []), snd (drain_queue q []))"
      using True drain_queue_acc [of q "msg_batch m"]
      by (cases m) (auto simp: msg_batch_def is_append_def)
    from Cons obtain taken where "list_all is_append taken"
      "let (batch, rotate, shutdown, rest) = drain_queue q []
      in batch = concat (map msg_batch taken) \<and>
         (q = taken \<and> rotate = None \<and> \<not> shutdown \<and> rest = [] \<or>
          (\<exists>w i. q = taken @ MRotate w i # rest \<and> rotate = Some (w, i) \<and> \<not> shutdown) \<or>
          q = taken @ MShutdown # rest \<and> rotate = None \<and> shutdown)" by blast
    then show ?thesis using True
      by (intro exI [of _ "m # taken"]) (auto simp: app split: prod.splits)
  next
    case False
    then show ?thesis
      by (intro exI [of _ "[]"]) (cases m; simp add: is_append_def)
  qed
qed

lemma complete_slots_eq:
  "complete_slots r batch d = (\<lambda>i. if i \<in> snd ` set batch then Some r else d i)"
  by (induction batch arbitrary: d) (auto simp: complete_slots_def fun_eq_iff)

section \<open>Acknowledged entries are durable and published\<close>

fun request_entries :: "gc_request \<Rightarrow> entry list" where
  "request_entries (ReqSubmit e) = [e]"
| "request_entries (ReqBatch es) = es"
| "request_entries (ReqRotate _) = []"

text \<open>Entries on the durable part of one of the segments, and passed to the hook in one call.\<close>

definition gc_durable :: "(bytes \<Rightarrow> u64) \<Rightarrow> group_commit \<Rightarrow> entry list \<Rightarrow> bool" where
  "gc_durable xxh s es \<longleftrightarrow>
     (\<exists>w \<in> set (gc_wal s # gc_retired s). sublist (wal_bytes xxh es) (take (df_synced w) (df_bytes w)))"

definition gc_published :: "group_commit \<Rightarrow> entry list \<Rightarrow> bool" where
  "gc_published s es \<longleftrightarrow> es = [] \<or> (\<exists>call \<in> set (gc_hook_calls s). sublist es call)"

definition msg_ok :: "group_commit \<Rightarrow> flusher_msg \<Rightarrow> bool" where
  "msg_ok s m \<longleftrightarrow>
     m = MShutdown \<or>
     (\<exists>i < length (gc_requests s). m = request_msg (gc_requests s ! i) i \<and> gc_requests s ! i \<noteq> ReqBatch [])"

definition gc_inv :: "(bytes \<Rightarrow> u64) \<Rightarrow> group_commit \<Rightarrow> bool" where
  "gc_inv xxh s \<longleftrightarrow>
     (\<forall>m \<in> set (gc_sending s) \<union> set (gc_queue s). msg_ok s m) \<and>
     (\<forall>i r. gc_done s i = Some r \<longrightarrow> i < length (gc_requests s)) \<and>
     (\<forall>i. gc_done s i = Some (Inr ()) \<longrightarrow>
        gc_durable xxh s (request_entries (gc_requests s ! i)) \<and>
        gc_published s (request_entries (gc_requests s ! i))) \<and>
     (\<forall>i < length (gc_requests s). gc_done s i \<noteq> None \<or> gc_returned s \<or>
        (\<exists>m \<in> set (gc_sending s) \<union> set (gc_queue s). msg_slot m = Some i))"

lemma gc_frame [simp]:
  "gc_durable xxh (s\<lparr>gc_queue := q\<rparr>) es = gc_durable xxh s es"
  "gc_durable xxh (s\<lparr>gc_sending := m\<rparr>) es = gc_durable xxh s es"
  "gc_durable xxh (s\<lparr>gc_closed := b\<rparr>) es = gc_durable xxh s es"
  "gc_durable xxh (s\<lparr>gc_requests := rs\<rparr>) es = gc_durable xxh s es"
  "gc_published (s\<lparr>gc_queue := q\<rparr>) es = gc_published s es"
  "gc_published (s\<lparr>gc_sending := m\<rparr>) es = gc_published s es"
  "gc_published (s\<lparr>gc_closed := b\<rparr>) es = gc_published s es"
  "gc_published (s\<lparr>gc_requests := rs\<rparr>) es = gc_published s es"
  "msg_ok (s\<lparr>gc_queue := q\<rparr>) m' = msg_ok s m'"
  "msg_ok (s\<lparr>gc_sending := m\<rparr>) m' = msg_ok s m'"
  "msg_ok (s\<lparr>gc_closed := b\<rparr>) m' = msg_ok s m'"
  by (simp_all add: gc_durable_def gc_published_def msg_ok_def)

lemma msg_ok_requests: "gc_requests s' = gc_requests s \<Longrightarrow> msg_ok s' m \<longleftrightarrow> msg_ok s m"
  by (simp add: msg_ok_def)

lemma gc_invI:
  assumes "\<And>m. m \<in> set (gc_sending s) \<union> set (gc_queue s) \<Longrightarrow> msg_ok s m"
    and "\<And>i r. gc_done s i = Some r \<Longrightarrow> i < length (gc_requests s)"
    and "\<And>i. gc_done s i = Some (Inr ()) \<Longrightarrow>
        gc_durable xxh s (request_entries (gc_requests s ! i)) \<and>
        gc_published s (request_entries (gc_requests s ! i))"
    and "\<And>i. i < length (gc_requests s) \<Longrightarrow> gc_done s i = None \<Longrightarrow> \<not> gc_returned s \<Longrightarrow>
        \<exists>m \<in> set (gc_sending s) \<union> set (gc_queue s). msg_slot m = Some i"
  shows "gc_inv xxh s"
  using assms unfolding gc_inv_def by blast

lemma gc_invD:
  assumes "gc_inv xxh s"
  shows "m \<in> set (gc_sending s) \<union> set (gc_queue s) \<Longrightarrow> msg_ok s m"
    and "gc_done s i = Some r \<Longrightarrow> i < length (gc_requests s)"
    and "gc_done s i = Some (Inr ()) \<Longrightarrow>
        gc_durable xxh s (request_entries (gc_requests s ! i)) \<and>
        gc_published s (request_entries (gc_requests s ! i))"
    and "i < length (gc_requests s) \<Longrightarrow> gc_done s i = None \<Longrightarrow> \<not> gc_returned s \<Longrightarrow>
        \<exists>m \<in> set (gc_sending s) \<union> set (gc_queue s). msg_slot m = Some i"
  using assms unfolding gc_inv_def by blast+

lemma gc_inv_start: "gc_inv xxh (gc_start w)"
  by (simp add: gc_inv_def gc_start_def)

lemma request_msg_sel [simp]:
  "msg_entries (request_msg req i) = request_entries req"
  "req \<noteq> ReqBatch [] \<Longrightarrow> msg_slot (request_msg req i) = Some i"
  "request_msg req i \<noteq> MShutdown"
  by (cases req; simp)+

lemma msg_okD:
  "msg_ok s m \<Longrightarrow> msg_slot m = Some i \<Longrightarrow>
   i < length (gc_requests s) \<and> msg_entries m = request_entries (gc_requests s ! i) \<and>
   m = request_msg (gc_requests s ! i) i"
  by (auto simp: msg_ok_def)

lemma sublist_take_append: "sublist (take n xs) (take n (xs @ ys))"
  by simp

lemma sublist_take_append_right: "sublist (take n xs) (xs @ ys)"
  by (metis append_assoc append_take_drop_id sublist_append_rightI)

lemma sublist_concat_map: "m \<in> set ms \<Longrightarrow> sublist (f m) (concat (map f ms))"
  by (metis concat.simps(2) concat_append list.simps(9) map_append split_list sublist_appendI)

text \<open>What a segment holds durably stays there as it grows.\<close>

lemma durable_append: "sublist bs (take (df_synced w) (df_bytes w)) \<Longrightarrow>
  sublist bs (take (df_synced (file_append x w)) (df_bytes (file_append x w)))"
  using sublist_take_append [of "df_synced w" "df_bytes w" x]
  by (auto simp: file_append_def intro: sublist_order.order_trans)

lemma durable_sync: "sublist bs (take (df_synced w) (df_bytes w)) \<Longrightarrow>
  sublist bs (take (df_synced (wal_sync w)) (df_bytes (wal_sync w)))"
  using sublist_take [of "df_synced w" "df_bytes w"]
  by (auto simp: wal_sync_def file_sync_def intro: sublist_order.order_trans)

lemma durable_batch_sync:
  "sublist bs (take (df_synced w) (df_bytes w)) \<or> sublist bs (wal_bytes xxh es) \<Longrightarrow>
   sublist bs (take (df_synced (wal_append_batch_sync xxh w es)) (df_bytes (wal_append_batch_sync xxh w es)))"
  using sublist_take_append_right [of "df_synced w" "df_bytes w" "wal_bytes xxh es"]
  by (auto simp: wal_append_batch_sync_def wal_sync_def file_sync_def wal_batch_bytes
      intro: sublist_order.order_trans)

lemma gc_durable_mono:
  assumes "gc_durable xxh s es"
    and "\<And>w bs. w \<in> set (gc_wal s # gc_retired s) \<Longrightarrow> sublist bs (take (df_synced w) (df_bytes w)) \<Longrightarrow>
      \<exists>w' \<in> set (gc_wal s' # gc_retired s'). sublist bs (take (df_synced w') (df_bytes w'))"
  shows "gc_durable xxh s' es"
  using assms unfolding gc_durable_def by blast

lemma flush_batch_frame [simp]:
  "gc_queue (flush_batch xxh io ok batch s) = gc_queue s"
  "gc_sending (flush_batch xxh io ok batch s) = gc_sending s"
  "gc_requests (flush_batch xxh io ok batch s) = gc_requests s"
  "gc_retired (flush_batch xxh io ok batch s) = gc_retired s"
  "gc_returned (flush_batch xxh io ok batch s) = gc_returned s"
  by (simp_all add: flush_batch_def Let_def split: option.splits)

lemma flush_batch_done:
  "gc_done (flush_batch xxh io ok batch s) i =
     (if i \<in> snd ` set batch
      then Some (if io = None \<and> ok then Inr () else Inl (Engine ''group-commit WAL flush failed''))
      else gc_done s i)"
  by (auto simp: flush_batch_def Let_def complete_slots_eq split: option.splits)

lemma flush_batch_durable:
  "gc_durable xxh s es \<Longrightarrow> gc_durable xxh (flush_batch xxh io ok batch s) es"
  by (erule gc_durable_mono)
    (auto simp: flush_batch_def Let_def durable_append durable_batch_sync split: option.splits)

lemma flush_batch_published:
  "gc_published s es \<Longrightarrow> gc_published (flush_batch xxh io ok batch s) es"
  by (auto simp: gc_published_def flush_batch_def Let_def split: option.splits)

lemma flush_batch_new:
  assumes "batch \<noteq> []" "sublist es (map fst batch)"
  shows "gc_durable xxh (flush_batch xxh None ok batch s) es" "gc_published (flush_batch xxh None ok batch s) es"
proof -
  obtain p q where "map fst batch = p @ es @ q" using assms(2) by (auto simp: sublist_def)
  then have "wal_bytes xxh (map fst batch) = wal_bytes xxh p @ wal_bytes xxh es @ wal_bytes xxh q" by simp
  then have "sublist (wal_bytes xxh es) (wal_bytes xxh (map fst batch))" by simp
  then show "gc_durable xxh (flush_batch xxh None ok batch s) es"
    using assms(1) by (simp add: gc_durable_def flush_batch_def Let_def durable_batch_sync)
  show "gc_published (flush_batch xxh None ok batch s) es"
    using assms by (simp add: gc_published_def flush_batch_def Let_def)
qed

lemma map_fst_msg_batch:
  "is_append m \<Longrightarrow> map fst (msg_batch m) = msg_entries m"
  by (cases m) (auto simp: msg_batch_def is_append_def comp_def)

lemma in_msg_batch: "(e, i) \<in> set (msg_batch m) \<Longrightarrow> msg_slot m = Some i"
  by (auto simp: msg_batch_def split: option.splits)

lemma msg_batch_slot:
  "msg_slot m = Some i \<Longrightarrow> is_append m \<Longrightarrow> i \<in> snd ` set (msg_batch m)"
  by (cases m) (auto simp: msg_batch_def is_append_def image_image image_constant_conv split: if_splits)

text \<open>A flush of a run of appends whose messages are in order keeps the invariant.\<close>

lemma gc_inv_flush:
  assumes "gc_inv xxh (s\<lparr>gc_queue := taken @ rest\<rparr>)" "list_all is_append taken" "gc_queue s = rest"
  shows "gc_inv xxh (flush_batch xxh io ok (concat (map msg_batch taken)) s)" (is "gc_inv xxh ?s'")
proof -
  let ?batch = "concat (map msg_batch taken)"
  have ok: "msg_ok s m" if "m \<in> set (gc_sending s) \<union> set taken \<union> set rest" for m
    using assms(1) that by (auto simp: gc_inv_def msg_ok_def)
  have slot: "\<exists>m \<in> set taken. msg_slot m = Some i" if "i \<in> snd ` set ?batch" for i
    using that in_msg_batch by fastforce
  have app: "is_append m" if "m \<in> set taken" for m using assms(2) that by (simp add: list_all_iff)
  have fst: "map fst ?batch = concat (map msg_entries taken)"
    using app map_fst_msg_batch by (induction taken) auto
  have new: "gc_durable xxh ?s' (request_entries (gc_requests s ! i)) \<and>
      gc_published ?s' (request_entries (gc_requests s ! i))"
    if i: "i \<in> snd ` set ?batch" and "io = None" for i
  proof -
    obtain m where m: "m \<in> set taken" "msg_slot m = Some i" using slot [OF i] by blast
    have "request_entries (gc_requests s ! i) = msg_entries m" using msg_okD [OF ok m(2)] m(1) by simp
    moreover have "sublist (msg_entries m) (map fst ?batch)"
      unfolding fst by (rule sublist_concat_map [OF m(1)])
    moreover have "?batch \<noteq> []" using i by (metis empty_iff image_empty list.set(1))
    ultimately show ?thesis using \<open>io = None\<close> by (simp only: flush_batch_new simp_thms)
  qed
  have taken_done: "i \<in> snd ` set ?batch" if "m \<in> set taken" "msg_slot m = Some i" for m i
    using msg_batch_slot [OF that(2) app [OF that(1)]] that(1) by force
  have lt: "i < length (gc_requests s)" if "i \<in> snd ` set ?batch" for i
    using slot [OF that] msg_okD ok by blast
  note D = gc_invD [OF assms(1), simplified]
  show ?thesis
  proof (rule gc_invI)
    fix m assume "m \<in> set (gc_sending ?s') \<union> set (gc_queue ?s')"
    then show "msg_ok ?s' m" using ok [of m] assms(3) by (auto simp: msg_ok_requests [of ?s' s])
  next
    fix i r assume "gc_done ?s' i = Some r"
    then show "i < length (gc_requests ?s')"
      using lt [of i] D(2) [of i r] by (simp only: flush_batch_done flush_batch_frame split: if_splits)
  next
    fix i assume d: "gc_done ?s' i = Some (Inr ())"
    show "gc_durable xxh ?s' (request_entries (gc_requests ?s' ! i)) \<and>
        gc_published ?s' (request_entries (gc_requests ?s' ! i))"
    proof (cases "i \<in> snd ` set ?batch")
      case True
      then show ?thesis using d new [OF True] by (simp only: flush_batch_done flush_batch_frame) (auto split: if_splits)
    next
      case False
      then have "gc_done s i = Some (Inr ())" using d by (simp only: flush_batch_done if_False)
      then show ?thesis using D(3) by (simp add: flush_batch_durable flush_batch_published)
    qed
  next
    fix i assume i: "i < length (gc_requests ?s')" "gc_done ?s' i = None" "\<not> gc_returned ?s'"
    then have nb: "i \<notin> snd ` set ?batch" "gc_done s i = None"
      by (metis flush_batch_done option.distinct(1))+
    obtain m where "m \<in> set (gc_sending s) \<union> (set taken \<union> set rest)" "msg_slot m = Some i"
      using D(4) [of i] i nb(2) assms(3) by auto
    then show "\<exists>m \<in> set (gc_sending ?s') \<union> set (gc_queue ?s'). msg_slot m = Some i"
      using taken_done [of m i] nb(1) assms(3) by auto
  qed
qed

lemma gc_inv_sync:
  assumes "gc_inv xxh s"
  shows "gc_inv xxh (s\<lparr>gc_wal := wal_sync (gc_wal s), gc_returned := True\<rparr>)"
proof -
  have "gc_durable xxh (s\<lparr>gc_wal := wal_sync (gc_wal s), gc_returned := True\<rparr>) es" if "gc_durable xxh s es" for es
    using that by (rule gc_durable_mono) (auto simp: durable_sync)
  then show ?thesis using gc_invD [OF assms]
    by (intro gc_invI) (auto simp: gc_published_def msg_ok_def)
qed

lemma gc_inv_rotate:
  assumes "gc_inv xxh (s\<lparr>gc_queue := MRotate w i # rest\<rparr>)" "gc_queue s = rest"
  shows "gc_inv xxh (s\<lparr>gc_retired := gc_retired s @ [gc_wal s], gc_wal := w, gc_done := (gc_done s)(i \<mapsto> Inr ())\<rparr>)"
    (is "gc_inv xxh ?s'")
proof -
  have dur: "gc_durable xxh ?s' es" if "gc_durable xxh s es" for es
    using that by (rule gc_durable_mono) auto
  have "msg_ok (s\<lparr>gc_queue := MRotate w i # rest\<rparr>) (MRotate w i)"
    using assms(1) by (simp add: gc_inv_def)
  from msg_okD [OF this, of i] have i: "i < length (gc_requests s)" "request_entries (gc_requests s ! i) = []"
    by auto
  have "gc_durable xxh ?s' []" by (auto simp: gc_durable_def)
  moreover have "gc_published ?s' es \<longleftrightarrow> gc_published s es" for es by (simp add: gc_published_def)
  ultimately show ?thesis
    using gc_invD [OF assms(1), simplified] dur i assms(2)
    by (intro gc_invI) (auto simp: msg_ok_requests [of ?s' s] gc_published_def split: if_splits, metis)
qed

lemma gc_inv_round:
  assumes "gc_inv xxh s"
  shows "gc_inv xxh (flusher_round xxh io ok s)"
proof -
  obtain batch rotate shutdown rest where d: "drain_queue (gc_queue s) [] = (batch, rotate, shutdown, rest)"
    by (metis prod_cases4)
  from drain_queue_spec [of "gc_queue s"] obtain taken where t: "list_all is_append taken"
    "batch = concat (map msg_batch taken)"
    "gc_queue s = taken \<and> rotate = None \<and> \<not> shutdown \<and> rest = [] \<or>
     (\<exists>w i. gc_queue s = taken @ MRotate w i # rest \<and> rotate = Some (w, i) \<and> \<not> shutdown) \<or>
     gc_queue s = taken @ MShutdown # rest \<and> rotate = None \<and> shutdown"
    unfolding d by auto
  let ?f = "\<lambda>q. flush_batch xxh io ok batch (s\<lparr>gc_queue := q\<rparr>)"
  have flushed: "gc_inv xxh (?f q)" if "gc_queue s = taken @ q" for q
  proof -
    have "s\<lparr>gc_queue := taken @ q\<rparr> = s" using that by simp
    then show ?thesis unfolding t(2) by (intro gc_inv_flush [OF _ t(1)]) (simp_all add: assms)
  qed
  have queue: "?f q = (?f rest)\<lparr>gc_queue := q\<rparr>" for q
    by (simp add: flush_batch_def Let_def split: option.splits)
  have round: "flusher_round xxh io ok s =
     (let s1 = ?f rest;
          s2 = (case rotate of
                  None \<Rightarrow> s1
                | Some (new_wal, i) \<Rightarrow> s1\<lparr>gc_retired := gc_retired s1 @ [gc_wal s1], gc_wal := new_wal,
                                          gc_done := (gc_done s1)(i \<mapsto> Inr ())\<rparr>)
      in if shutdown then s2\<lparr>gc_wal := wal_sync (gc_wal s2), gc_returned := True\<rparr> else s2)"
    by (simp only: flusher_round_def d prod.case Let_def)
  consider (all) "gc_queue s = taken @ rest" "rotate = None" "\<not> shutdown"
    | (rot) w i where "gc_queue s = taken @ MRotate w i # rest" "rotate = Some (w, i)" "\<not> shutdown"
    | (stop) "gc_queue s = taken @ MShutdown # rest" "rotate = None" "shutdown"
    using t(3) by auto
  then show ?thesis
  proof cases
    case all
    then show ?thesis unfolding round using flushed [of rest] by simp
  next
    case rot
    have "gc_inv xxh ((?f rest)\<lparr>gc_queue := MRotate w i # rest\<rparr>)"
      using flushed [OF rot(1)] unfolding queue [of "MRotate w i # rest"] .
    from gc_inv_rotate [OF this] rot show ?thesis unfolding round by (simp add: Let_def)
  next
    case stop
    have "gc_inv xxh ((?f rest)\<lparr>gc_queue := MShutdown # rest\<rparr>)"
      using flushed [OF stop(1)] unfolding queue [of "MShutdown # rest"] .
    from gc_invD [OF this, simplified] have "gc_inv xxh (?f rest)"
      by (intro gc_invI) auto
    from gc_inv_sync [OF this] stop show ?thesis unfolding round by (simp add: Let_def)
  qed
qed

lemma gc_inv_check:
  assumes "gc_inv xxh s" "gc_check req s = (s', r)"
  shows "gc_inv xxh s'"
proof (cases "req = ReqBatch [] \<or> gc_closed s")
  case True
  then show ?thesis using assms by (auto simp: gc_check_def split: if_splits)
next
  case False
  let ?i = "length (gc_requests s)"
  have s': "s' = s\<lparr>gc_sending := request_msg req ?i # gc_sending s, gc_requests := gc_requests s @ [req]\<rparr>"
    using assms(2) False by (auto simp: gc_check_def Let_def)
  have ok: "msg_ok s' m" if "msg_ok s m" for m
    using that by (auto simp: msg_ok_def s' nth_append)
  have new: "msg_ok s' (request_msg req ?i)"
    unfolding msg_ok_def using False by (intro disjI2 exI [of _ ?i]) (simp add: s')
  note D = gc_invD [OF assms(1)]
  show ?thesis
  proof (rule gc_invI)
    fix m assume "m \<in> set (gc_sending s') \<union> set (gc_queue s')"
    then show "msg_ok s' m" using new ok D(1) [of m] by (auto simp: s')
  next
    fix i r assume "gc_done s' i = Some r"
    then show "i < length (gc_requests s')" using D(2) by (fastforce simp: s')
  next
    fix i assume "gc_done s' i = Some (Inr ())"
    then have "gc_done s i = Some (Inr ())" by (simp add: s')
    then show "gc_durable xxh s' (request_entries (gc_requests s' ! i)) \<and>
        gc_published s' (request_entries (gc_requests s' ! i))"
      using D(2) [of i] D(3) [of i] by (simp add: s' nth_append)
  next
    fix i assume "i < length (gc_requests s')" "gc_done s' i = None" "\<not> gc_returned s'"
    then show "\<exists>m \<in> set (gc_sending s') \<union> set (gc_queue s'). msg_slot m = Some i"
      using D(4) [of i] False by (cases "i = ?i") (auto simp: s' less_Suc_eq)
  qed
qed

lemma gc_inv_step:
  assumes "gc_step xxh s s'" "gc_inv xxh s"
  shows "gc_inv xxh s'"
  using assms
proof (induction rule: gc_step.induct)
  case (send msg s s')
  have s': "s' = s\<lparr>gc_queue := gc_queue s @ [msg], gc_sending := remove1 msg (gc_sending s)\<rparr>"
    using send(2) by (auto simp: gc_send_def split: if_splits)
  have "set (gc_sending s') \<union> set (gc_queue s') = set (gc_sending s) \<union> set (gc_queue s)"
    using send(1) by (auto simp: s' dest: notin_set_remove1) (metis in_set_remove1)
  with gc_invD [OF send(3)] show ?case by (intro gc_invI) (auto simp: s' simp del: set_append)
next
  case (shutdown s)
  have "msg_ok s MShutdown" by (simp add: msg_ok_def)
  with gc_invD [OF shutdown] show ?case
    by (cases "gc_returned s"; intro gc_invI) (auto simp: gc_shutdown_def)
next
  case (check req s s' r)
  from gc_inv_check [OF check(2,1)] show ?case .
next
  case (flush s io hook_ok)
  from gc_inv_round [OF flush(3)] show ?case .
qed

lemma gc_reach_inv: "gc_reach xxh s0 s \<Longrightarrow> gc_inv xxh s0 \<Longrightarrow> gc_inv xxh s"
  by (induction rule: gc_reach.induct) (auto dest: gc_inv_step)

section \<open>Progress\<close>

text \<open>One round completes the slot of every message it drains, whatever the device does.\<close>

lemma round_done_keep:
  "gc_done s i \<noteq> None \<Longrightarrow> gc_done (flusher_round xxh io ok s) i \<noteq> None"
  by (auto simp: flusher_round_def Let_def flush_batch_done split: prod.splits option.splits)

lemma round_completes:
  assumes "gc_inv xxh s" "\<not> gc_returned s" "i < length (gc_requests s)"
    and "\<forall>m \<in> set (gc_sending s). msg_slot m \<noteq> Some i"
    and "MShutdown \<notin> set (gc_queue s)" "\<forall>w j. MRotate w j \<notin> set (butlast (gc_queue s))"
  shows "gc_done (flusher_round xxh io ok s) i \<noteq> None"
proof (cases "gc_done s i = None")
  case True
  then obtain m where m: "m \<in> set (gc_queue s)" "msg_slot m = Some i"
    using gc_invD(4) [OF assms(1,3)] assms(2,4) by auto
  obtain batch rotate shutdown rest where d: "drain_queue (gc_queue s) [] = (batch, rotate, shutdown, rest)"
    by (metis prod_cases4)
  from drain_queue_spec [of "gc_queue s"] obtain taken where t: "list_all is_append taken"
    "batch = concat (map msg_batch taken)"
    "gc_queue s = taken \<or> (\<exists>w j. gc_queue s = taken @ MRotate w j # rest \<and> rotate = Some (w, j))"
    unfolding d using assms(5) by (auto simp: in_set_conv_decomp)
  have done_batch: "gc_done (flusher_round xxh io ok s) i \<noteq> None" if "i \<in> snd ` set batch"
    using that by (simp add: flusher_round_def d Let_def flush_batch_done split: option.splits prod.splits)
  show ?thesis
  proof (cases "m \<in> set taken")
    case True
    then have "is_append m" using t(1) by (simp add: list_all_iff)
    from msg_batch_slot [OF m(2) this] True have "i \<in> snd ` set batch" by (force simp: t(2))
    then show ?thesis by (rule done_batch)
  next
    case False
    then obtain w j where q: "gc_queue s = taken @ MRotate w j # rest" "rotate = Some (w, j)"
      using t(3) m(1) by auto
    have "rest = []" using assms(6) q(1) by (cases rest) (auto simp: butlast_append)
    then have "m = MRotate w j" using m(1) False by (simp add: q(1))
    then show ?thesis using m(2) q(2) by (simp add: flusher_round_def d Let_def)
  qed
qed (rule round_done_keep)

text \<open>
  Once the flusher has returned, nothing completes a slot any more: a message that was sent
  behind the shutdown message leaves its sender parked for good.
\<close>

lemma gc_step_returned:
  assumes "gc_step xxh s s'" "gc_returned s"
  shows "gc_returned s' \<and> gc_done s' = gc_done s"
  using assms
  by (induction rule: gc_step.induct)
    (auto simp: gc_check_def gc_send_def gc_shutdown_def Let_def split: if_splits)

lemma gc_reach_returned:
  "gc_reach xxh s s' \<Longrightarrow> gc_returned s \<Longrightarrow> gc_returned s' \<and> gc_done s' = gc_done s"
  by (induction rule: gc_reach.induct) (auto dest: gc_step_returned)

lemma gc_reach_trans: "gc_reach xxh s1 s2 \<Longrightarrow> gc_reach xxh s0 s1 \<Longrightarrow> gc_reach xxh s0 s2"
  by (induction rule: gc_reach.induct) (auto intro: gc_reach.step)

section \<open>One caller at a time\<close>

text \<open>
  \<open>submit\<close> and \<open>submit_batch\<close> when no other client is active: check, send, one flusher round,
  and the result of the slot; \<open>None\<close> is a caller that stays parked.
\<close>

definition gc_submit ::
  "(bytes \<Rightarrow> u64) \<Rightarrow> nat option \<Rightarrow> bool \<Rightarrow> gc_request \<Rightarrow> group_commit \<Rightarrow>
   group_commit \<times> unit result option"
where
  "gc_submit xxh io hook_ok req s =
     (case gc_check req s of
        (s1, Inl err) \<Rightarrow> (s1, Some (Inl err))
      | (s1, Inr None) \<Rightarrow> (s1, Some (Inr ()))
      | (s1, Inr (Some i)) \<Rightarrow>
          (case gc_send (request_msg req i) s1 of
             Inl err \<Rightarrow> (s1, Some (Inl err))
           | Inr s2 \<Rightarrow> let s3 = flusher_round xxh io hook_ok s2 in (s3, gc_done s3 i)))"

definition gc_idle :: "group_commit \<Rightarrow> bool" where
  "gc_idle s \<longleftrightarrow> gc_queue s = [] \<and> gc_sending s = [] \<and> \<not> gc_returned s \<and> \<not> gc_closed s"

lemma gc_submit_ok:
  assumes "gc_idle s" "req = ReqSubmit e \<or> req = ReqBatch es" "request_entries req \<noteq> []"
  obtains s' where "gc_submit xxh None True req s = (s', Some (Inr ()))" "gc_idle s'"
    "gc_wal s' = wal_append_batch_sync xxh (gc_wal s) (request_entries req)"
    "gc_hook_calls s' = gc_hook_calls s @ [request_entries req]"
proof -
  have ne: "req \<noteq> ReqBatch []" using assms(3) by auto
  let ?i = "length (gc_requests s)"
  let ?m = "request_msg req ?i"
  let ?s2 = "s\<lparr>gc_requests := gc_requests s @ [req], gc_queue := [?m], gc_sending := []\<rparr>"
  let ?s3 = "flusher_round xxh None True ?s2"
  have app: "is_append ?m" using assms(2) by (auto simp: is_append_def)
  have d: "drain_queue [?m] [] = (msg_batch ?m, None, False, [])"
    using assms(2,3) by (auto simp: msg_batch_def)
  have fst: "map fst (msg_batch ?m) = request_entries req" using map_fst_msg_batch [OF app] by simp
  then have nb: "msg_batch ?m \<noteq> []" using assms(3) by auto
  have "?i \<in> snd ` set (msg_batch ?m)" by (rule msg_batch_slot [OF _ app]) (simp add: ne)
  then have done_i: "gc_done ?s3 ?i = Some (Inr ())"
    by (simp add: flusher_round_def d flush_batch_done Let_def)
  have "gc_submit xxh None True req s = (?s3, Some (Inr ()))"
    using assms(1) ne done_i by (simp add: gc_submit_def gc_check_def gc_send_def gc_idle_def Let_def)
  moreover have "gc_idle ?s3"
    using assms(1) by (simp add: gc_idle_def flusher_round_def d Let_def flush_batch_def)
  moreover have "gc_wal ?s3 = wal_append_batch_sync xxh (gc_wal s) (request_entries req)"
    "gc_hook_calls ?s3 = gc_hook_calls s @ [request_entries req]"
    using nb fst by (simp_all add: flusher_round_def d Let_def flush_batch_def)
  ultimately show ?thesis by (rule that)
qed

text \<open>
  What a batch submitted on a running flusher does to the segment, as the owners of a
  \<open>GroupCommitWal\<close> see it.
\<close>

definition wal_submit :: "(bytes \<Rightarrow> u64) \<Rightarrow> nat option \<Rightarrow> entry list \<Rightarrow> disk_file \<Rightarrow> disk_file \<times> unit result" where
  "wal_submit xxh io es w =
     (if es = [] then (w, Inr ())
      else case io of
             None \<Rightarrow> (wal_append_batch_sync xxh w es, Inr ())
           | Some n \<Rightarrow> (file_append (take n (wal_bytes xxh es)) w, Inl (Engine ''group-commit WAL flush failed'')))"

lemma gc_submit_is_wal_submit:
  assumes "gc_idle s"
  shows "gc_submit xxh io True (ReqBatch es) s =
    (fst (gc_submit xxh io True (ReqBatch es) s), Some (snd (wal_submit xxh io es (gc_wal s)))) \<and>
    gc_wal (fst (gc_submit xxh io True (ReqBatch es) s)) = fst (wal_submit xxh io es (gc_wal s)) \<and>
    gc_idle (fst (gc_submit xxh io True (ReqBatch es) s))"
proof (cases "es = []")
  case True
  then show ?thesis using assms by (simp add: gc_submit_def gc_check_def wal_submit_def)
next
  case False
  let ?i = "length (gc_requests s)"
  let ?s2 = "s\<lparr>gc_requests := gc_requests s @ [ReqBatch es], gc_queue := [MAppendBatch es ?i], gc_sending := []\<rparr>"
  let ?s3 = "flusher_round xxh io True ?s2" and ?batch = "map (\<lambda>e. (e, ?i)) es"
  have round: "?s3 = flush_batch xxh io True ?batch (?s2\<lparr>gc_queue := []\<rparr>)"
    by (simp add: flusher_round_def Let_def)
  have "?i \<in> snd ` set ?batch" using False by (auto simp: image_image image_constant_conv)
  then have "gc_done ?s3 ?i = Some (snd (wal_submit xxh io es (gc_wal s)))"
    unfolding round flush_batch_done using False by (auto simp: wal_submit_def split: option.splits)
  moreover have "gc_submit xxh io True (ReqBatch es) s = (?s3, gc_done ?s3 ?i)"
    using assms False by (simp add: gc_submit_def gc_check_def gc_send_def gc_idle_def Let_def)
  moreover have "gc_wal ?s3 = fst (wal_submit xxh io es (gc_wal s))" "gc_idle ?s3"
    unfolding round using False assms
    by (simp_all add: flush_batch_def Let_def comp_def wal_submit_def gc_idle_def split: option.splits)
  ultimately show ?thesis by simp
qed

section \<open>Properties\<close>

text \<open>
  C15. Acknowledged means durable and published. In every interleaving of clients, flusher
  rounds, device failures, rotations and shutdown, a request whose slot holds \<open>Ok\<close> has all its
  records, in order, in the synced part of the current or of a retired segment, and its entries
  were passed to the apply hook in one call.
\<close>

theorem group_commit_ack_is_durable:
  assumes "gc_reach xxh (gc_start w) s" "gc_done s i = Some (Inr ())"
  shows "i < length (gc_requests s) \<and>
    (let es = request_entries (gc_requests s ! i) in gc_durable xxh s es \<and> gc_published s es)"
  using gc_invD(2,3) [OF gc_reach_inv [OF assms(1) gc_inv_start] assms(2)] by simp

lemma group_commit_ack_is_durable_witness:
  "\<forall>(xxh :: bytes \<Rightarrow> u64) (w :: disk_file). \<exists>s. gc_reach xxh (gc_start w) s \<and> gc_done s 0 = Some (Inr ()) \<and>
    gc_durable xxh s [entry_put [1] [2] 1]"
    (is "\<forall>xxh w. ?P xxh w")
proof (intro allI)
  fix xxh :: "bytes \<Rightarrow> u64" and w :: disk_file
  let ?e = "entry_put [1] [2] 1"
  let ?s1 = "fst (gc_check (ReqSubmit ?e) (gc_start w))"
  let ?s2 = "?s1\<lparr>gc_queue := gc_queue ?s1 @ [MAppend ?e 0], gc_sending := remove1 (MAppend ?e 0) (gc_sending ?s1)\<rparr>"
  let ?s3 = "flusher_round xxh None True ?s2"
  have "gc_step xxh (gc_start w) ?s1" by (rule gc_step.check [where r = "Inr (Some 0)" and req = "ReqSubmit ?e"])
      (simp add: gc_check_def gc_start_def Let_def)
  moreover have "gc_step xxh ?s1 ?s2"
    by (rule gc_step.send [where msg = "MAppend ?e 0"]) (simp_all add: gc_check_def gc_start_def gc_send_def Let_def)
  moreover have "gc_step xxh ?s2 ?s3"
    by (rule gc_step.flush) (simp_all add: gc_check_def gc_start_def Let_def)
  ultimately have reach: "gc_reach xxh (gc_start w) ?s3" by (blast intro: gc_reach.intros)
  have d: "gc_done ?s3 0 = Some (Inr ())" "gc_requests ?s3 = [ReqSubmit ?e]"
    by (simp_all add: gc_check_def gc_start_def flusher_round_def flush_batch_done Let_def)
  from group_commit_ack_is_durable [OF reach d(1)] have "gc_durable xxh ?s3 [?e]"
    by (simp add: d(2) Let_def)
  with reach d(1) show "?P xxh w" by blast
qed

text \<open>
  A flusher round completes, with success or with an error, every request that is queued
  when no shutdown is pending and no rotation is queued ahead of others: no waiter is forgotten,
  whatever the device and the hook do.
\<close>

theorem group_commit_round_completes:
  assumes "gc_reach xxh (gc_start w) s" "\<not> gc_returned s" "i < length (gc_requests s)"
    and "\<forall>m \<in> set (gc_sending s). msg_slot m \<noteq> Some i"
    and "MShutdown \<notin> set (gc_queue s)" "\<forall>w j. MRotate w j \<notin> set (butlast (gc_queue s))"
  shows "gc_done (flusher_round xxh io hook_ok s) i \<noteq> None"
  by (rule round_completes [OF gc_reach_inv [OF assms(1) gc_inv_start] assms(2-6)])

lemma group_commit_round_completes_witness:
  "\<forall>(xxh :: bytes \<Rightarrow> u64) (w :: disk_file). \<exists>s. gc_reach xxh (gc_start w) s \<and> gc_queue s = [MAppend (entry_put [1] [2] 1) 0] \<and>
    gc_done (flusher_round xxh (Some 3) True s) 0 \<noteq> None"
    (is "\<forall>xxh w. ?P xxh w")
proof (intro allI)
  fix xxh :: "bytes \<Rightarrow> u64" and w :: disk_file
  let ?e = "entry_put [1] [2] 1"
  let ?s1 = "fst (gc_check (ReqSubmit ?e) (gc_start w))"
  let ?s2 = "?s1\<lparr>gc_queue := gc_queue ?s1 @ [MAppend ?e 0], gc_sending := remove1 (MAppend ?e 0) (gc_sending ?s1)\<rparr>"
  have "gc_step xxh (gc_start w) ?s1" by (rule gc_step.check [where r = "Inr (Some 0)" and req = "ReqSubmit ?e"])
      (simp add: gc_check_def gc_start_def Let_def)
  moreover have "gc_step xxh ?s1 ?s2"
    by (rule gc_step.send [where msg = "MAppend ?e 0"]) (simp_all add: gc_check_def gc_start_def gc_send_def Let_def)
  ultimately have reach: "gc_reach xxh (gc_start w) ?s2" by (blast intro: gc_reach.intros)
  have q: "gc_queue ?s2 = [MAppend ?e 0]" "gc_sending ?s2 = []" "\<not> gc_returned ?s2" "gc_requests ?s2 = [ReqSubmit ?e]"
    by (simp_all add: gc_check_def gc_start_def Let_def)
  from group_commit_round_completes [OF reach q(3), of 0 "Some 3" True]
  have "gc_done (flusher_round xxh (Some 3) True ?s2) 0 \<noteq> None" by (simp only: q) simp
  with reach q(1) show "?P xxh w" by blast
qed

text \<open>
  C19. A submit that races with \<open>shutdown\<close> can park for ever: the closed flag is read before the
  send, so its message can land behind the shutdown message, the flusher returns, and in no
  continuation is the slot ever completed.
\<close>

theorem group_commit_shutdown_strands_waiter:
  "\<exists>s. gc_reach xxh (gc_start w) s \<and> gc_requests s = [ReqSubmit e] \<and> gc_sending s = [] \<and>
     {s'. gc_reach xxh s s'} \<subseteq> {s'. gc_done s' 0 = None}"
proof -
  let ?s1 = "fst (gc_check (ReqSubmit e) (gc_start w))"
  let ?s2 = "gc_shutdown ?s1"
  let ?s3 = "?s2\<lparr>gc_queue := gc_queue ?s2 @ [MAppend e 0], gc_sending := remove1 (MAppend e 0) (gc_sending ?s2)\<rparr>"
  let ?s4 = "flusher_round xxh None True ?s3"
  have 1: "gc_step xxh (gc_start w) ?s1" by (rule gc_step.check [where r = "Inr (Some 0)" and req = "ReqSubmit e"])
      (simp add: gc_check_def gc_start_def Let_def)
  have 2: "gc_step xxh ?s1 ?s2" by (rule gc_step.shutdown)
  have 3: "gc_step xxh ?s2 ?s3"
    by (rule gc_step.send [where msg = "MAppend e 0"])
      (simp_all add: gc_check_def gc_start_def gc_send_def gc_shutdown_def Let_def)
  have 4: "gc_step xxh ?s3 ?s4"
    by (rule gc_step.flush) (simp_all add: gc_check_def gc_start_def gc_shutdown_def Let_def)
  have reach: "gc_reach xxh (gc_start w) ?s4"
    by (rule gc_reach.step [OF gc_reach.step [OF gc_reach.step [OF gc_reach.step [OF gc_reach.init 1] 2] 3] 4])
  have d: "gc_returned ?s4" "gc_done ?s4 0 = None" "gc_requests ?s4 = [ReqSubmit e]" "gc_sending ?s4 = []"
    by (simp_all add: gc_check_def gc_start_def gc_shutdown_def flusher_round_def flush_batch_def Let_def)
  have "{s'. gc_reach xxh ?s4 s'} \<subseteq> {s'. gc_done s' 0 = None}" using gc_reach_returned d(1,2) by fastforce
  then show ?thesis using reach d(3,4) by blast
qed

end
