(* ===== verification/Raft_Command.thy ===== *)
theory Raft_Command
  imports Takyonic_Types
begin

text \<open>
  The replicated command of \<open>raft.rs\<close> and its wire format. Decoding inverts encoding on every
  command whose strings are UTF-8, and encoding fails only on a payload of \<open>2 ^ 32\<close> bytes
  or more.
\<close>

section \<open>Commands\<close>

text \<open>An operation of a write set: \<open>Some v\<close> puts, \<open>None\<close> deletes.\<close>

type_synonym write_op = "key \<times> val option"

datatype raft_command =
    CmdPut key val
  | CmdDelete key
  | CmdAddNode u64 rust_string
  | CmdRemoveNode u64
  | CmdNoop
  | CmdTxnBatch "write_op list"
  | CmdTxnPrepare u64 u64 "write_op list"
  | CmdTxnCommit u64 u64 "write_op list"
  | CmdTxnAbort u64
  | CmdCatalogUpsert rust_string bytes
  | CmdCatalogDrop rust_string
  | CmdAuthReplace bytes
  | CmdStatsReplace bytes
  | CmdCommentsReplace bytes

definition COMMAND_VERSION :: byte where
  "COMMAND_VERSION = 1"

definition COMMAND_PUT :: byte where
  "COMMAND_PUT = 1"

definition COMMAND_DELETE :: byte where
  "COMMAND_DELETE = 2"

definition COMMAND_ADD_NODE :: byte where
  "COMMAND_ADD_NODE = 3"

definition COMMAND_REMOVE_NODE :: byte where
  "COMMAND_REMOVE_NODE = 4"

definition COMMAND_NOOP :: byte where
  "COMMAND_NOOP = 5"

definition COMMAND_TXN_BATCH :: byte where
  "COMMAND_TXN_BATCH = 6"

definition COMMAND_TXN_PREPARE :: byte where
  "COMMAND_TXN_PREPARE = 7"

definition COMMAND_TXN_COMMIT :: byte where
  "COMMAND_TXN_COMMIT = 8"

definition COMMAND_TXN_ABORT :: byte where
  "COMMAND_TXN_ABORT = 9"

definition COMMAND_CATALOG_UPSERT :: byte where
  "COMMAND_CATALOG_UPSERT = 10"

definition COMMAND_CATALOG_DROP :: byte where
  "COMMAND_CATALOG_DROP = 11"

definition COMMAND_AUTH_REPLACE :: byte where
  "COMMAND_AUTH_REPLACE = 12"

definition COMMAND_STATS_REPLACE :: byte where
  "COMMAND_STATS_REPLACE = 13"

definition COMMAND_COMMENTS_REPLACE :: byte where
  "COMMAND_COMMENTS_REPLACE = 14"

lemmas command_codes = COMMAND_VERSION_def COMMAND_PUT_def COMMAND_DELETE_def COMMAND_ADD_NODE_def COMMAND_REMOVE_NODE_def COMMAND_NOOP_def COMMAND_TXN_BATCH_def COMMAND_TXN_PREPARE_def COMMAND_TXN_COMMIT_def COMMAND_TXN_ABORT_def COMMAND_CATALOG_UPSERT_def COMMAND_CATALOG_DROP_def COMMAND_AUTH_REPLACE_def COMMAND_STATS_REPLACE_def COMMAND_COMMENTS_REPLACE_def

fun is_config_change :: "raft_command \<Rightarrow> bool" where
  "is_config_change (CmdAddNode _ _) = True"
| "is_config_change (CmdRemoveNode _) = True"
| "is_config_change _ = False"

fun is_meta :: "raft_command \<Rightarrow> bool" where
  "is_meta CmdNoop = True"
| "is_meta (CmdTxnPrepare _ _ _) = True"
| "is_meta (CmdTxnAbort _) = True"
| "is_meta (CmdCatalogUpsert _ _) = True"
| "is_meta (CmdCatalogDrop _) = True"
| "is_meta (CmdAuthReplace _) = True"
| "is_meta (CmdStatsReplace _) = True"
| "is_meta (CmdCommentsReplace _) = True"
| "is_meta c = is_config_change c"

definition op_entry :: "commit_ts \<Rightarrow> write_op \<Rightarrow> entry" where
  "op_entry ts op = (case snd op of Some v \<Rightarrow> entry_put (fst op) v ts | None \<Rightarrow> entry_delete (fst op) ts)"

text \<open>\<open>to_entries\<close>: a 2PC commit carries its own timestamp, every other write takes the log index.\<close>

fun to_entries :: "raft_command \<Rightarrow> u64 \<Rightarrow> entry list result" where
  "to_entries (CmdPut k v) ts = Inr [entry_put k v ts]"
| "to_entries (CmdDelete k) ts = Inr [entry_delete k ts]"
| "to_entries (CmdTxnBatch ops) ts = Inr (map (op_entry ts) ops)"
| "to_entries (CmdTxnCommit _ cts ops) ts = Inr (map (op_entry cts) ops)"
| "to_entries _ ts = Inl (Raft ''meta command cannot become LSM entries'')"

fun to_entry :: "raft_command \<Rightarrow> u64 \<Rightarrow> entry result" where
  "to_entry (CmdPut k v) ts = Inr (entry_put k v ts)"
| "to_entry (CmdDelete k) ts = Inr (entry_delete k ts)"
| "to_entry _ ts = Inl (Raft ''command cannot become a single LSM entry; use to_entries'')"

section \<open>Wire format\<close>

definition encode_op :: "write_op \<Rightarrow> bytes" where
  "encode_op op =
     (case snd op of
        Some v \<Rightarrow> 1 # u32_le (len32 (fst op)) @ u32_le (len32 v) @ fst op @ v
      | None \<Rightarrow> 2 # u32_le (len32 (fst op)) @ u32_le 0 @ fst op)"

definition encode_ops_body :: "write_op list \<Rightarrow> bytes" where
  "encode_ops_body ops = u32_le (word_of_nat (length ops)) @ concat (map encode_op ops)"

primrec decode_ops :: "nat \<Rightarrow> bytes \<Rightarrow> write_op list \<Rightarrow> write_op list result" where
  "decode_ops 0 body ops = Inr ops"
| "decode_ops (Suc n) body ops =
     (case body of
        [] \<Rightarrow> Inl (Raft ''ops body op truncated'')
      | kind # body \<Rightarrow>
          if length body < 8 then Inl (Raft ''ops body lengths truncated'')
          else
            let klen = unat (u32_of_le (take 4 body));
                vlen = unat (u32_of_le (take 4 (drop 4 body)));
                body = drop 8 body
            in if length body < klen + vlen then Inl (Raft ''ops body payload truncated'')
               else
                 let k = take klen body; v = take vlen (drop klen body); rest = drop (klen + vlen) body
                 in if kind = 1 then decode_ops n rest (ops @ [(k, Some v)])
                    else if kind = 2 \<and> vlen = 0 then decode_ops n rest (ops @ [(k, None)])
                    else Inl (Raft ''unknown op kind''))"

definition decode_ops_body :: "bytes \<Rightarrow> write_op list result" where
  "decode_ops_body body =
     (if length body < 4 then Inl (Raft ''ops body truncated'')
      else decode_ops (unat (u32_of_le (take 4 body))) (drop 4 body) [])"

definition encode_kv :: "byte \<Rightarrow> bytes \<Rightarrow> bytes \<Rightarrow> bytes result" where
  "encode_kv opcode k v =
     (if 2 ^ 32 \<le> length k then Inl (Raft ''Raft command key exceeds u32'')
      else if 2 ^ 32 \<le> length v then Inl (Raft ''Raft command value exceeds u32'')
      else Inr (COMMAND_VERSION # opcode # u32_le (len32 k) @ u32_le (len32 v) @ k @ v))"

fun encode_cmd :: "raft_command \<Rightarrow> bytes result" where
  "encode_cmd (CmdPut k v) = encode_kv COMMAND_PUT k v"
| "encode_cmd (CmdDelete k) = encode_kv COMMAND_DELETE k []"
| "encode_cmd (CmdAddNode i addr) = encode_kv COMMAND_ADD_NODE addr (u64_le i)"
| "encode_cmd (CmdRemoveNode i) = encode_kv COMMAND_REMOVE_NODE [] (u64_le i)"
| "encode_cmd CmdNoop = encode_kv COMMAND_NOOP [] []"
| "encode_cmd (CmdTxnBatch ops) = encode_kv COMMAND_TXN_BATCH [] (encode_ops_body ops)"
| "encode_cmd (CmdTxnPrepare txn ts ops) =
     encode_kv COMMAND_TXN_PREPARE (u64_le txn @ u64_le ts) (encode_ops_body ops)"
| "encode_cmd (CmdTxnCommit txn ts ops) =
     encode_kv COMMAND_TXN_COMMIT (u64_le txn @ u64_le ts) (encode_ops_body ops)"
| "encode_cmd (CmdTxnAbort txn) = encode_kv COMMAND_TXN_ABORT (u64_le txn) []"
| "encode_cmd (CmdCatalogUpsert table schema) = encode_kv COMMAND_CATALOG_UPSERT table schema"
| "encode_cmd (CmdCatalogDrop table) = encode_kv COMMAND_CATALOG_DROP table []"
| "encode_cmd (CmdAuthReplace blob) = encode_kv COMMAND_AUTH_REPLACE (lit ''AUTH'') blob"
| "encode_cmd (CmdStatsReplace blob) = encode_kv COMMAND_STATS_REPLACE (lit ''STATS'') blob"
| "encode_cmd (CmdCommentsReplace blob) = encode_kv COMMAND_COMMENTS_REPLACE (lit ''COMMENTS'') blob"

text \<open>The body of \<open>decode\<close> after the frame is checked: the match on the opcode.\<close>

definition decode_payload :: "byte \<Rightarrow> bytes \<Rightarrow> bytes \<Rightarrow> raft_command result" where
  "decode_payload opcode k v =
     (if opcode = COMMAND_PUT then Inr (CmdPut k v)
      else if opcode = COMMAND_DELETE then
        (if v = [] then Inr (CmdDelete k) else Inl (Raft ''Raft delete command contains a value''))
      else if opcode = COMMAND_ADD_NODE then
        (if length v \<noteq> 8 then Inl (Raft ''AddNode command requires 8-byte node id'')
         else rbind (string_from_utf8 (Raft ''AddNode address utf8'') k)
                (\<lambda>addr. Inr (CmdAddNode (u64_of_le v) addr)))
      else if opcode = COMMAND_REMOVE_NODE then
        (if k \<noteq> [] \<or> length v \<noteq> 8 then Inl (Raft ''RemoveNode command requires empty key and 8-byte id'')
         else Inr (CmdRemoveNode (u64_of_le v)))
      else if opcode = COMMAND_NOOP then
        (if k = [] \<and> v = [] then Inr CmdNoop else Inl (Raft ''Noop command must have empty key and value''))
      else if opcode = COMMAND_TXN_BATCH then
        (if k = [] then rbind (decode_ops_body v) (\<lambda>ops. Inr (CmdTxnBatch ops))
         else Inl (Raft ''TxnBatch must have empty key framing''))
      else if opcode = COMMAND_TXN_PREPARE then
        (if length k = 16
         then rbind (decode_ops_body v)
                (\<lambda>ops. Inr (CmdTxnPrepare (u64_of_le (take 8 k)) (u64_of_le (drop 8 k)) ops))
         else Inl (Raft ''TxnPrepare requires 16-byte txn_id+read_ts key''))
      else if opcode = COMMAND_TXN_COMMIT then
        (if length k = 16
         then rbind (decode_ops_body v)
                (\<lambda>ops. Inr (CmdTxnCommit (u64_of_le (take 8 k)) (u64_of_le (drop 8 k)) ops))
         else Inl (Raft ''TxnCommit requires 16-byte txn_id+commit_ts key''))
      else if opcode = COMMAND_TXN_ABORT then
        (if length k = 8 \<and> v = [] then Inr (CmdTxnAbort (u64_of_le k))
         else Inl (Raft ''TxnAbort requires 8-byte txn_id and empty value''))
      else if opcode = COMMAND_CATALOG_UPSERT then
        rbind (string_from_utf8 (Raft ''CatalogUpsert table utf8'') k) (\<lambda>table. Inr (CmdCatalogUpsert table v))
      else if opcode = COMMAND_CATALOG_DROP then
        (if v = [] then rbind (string_from_utf8 (Raft ''CatalogDrop table utf8'') k) (\<lambda>table. Inr (CmdCatalogDrop table))
         else Inl (Raft ''CatalogDrop must have empty value''))
      else if opcode = COMMAND_AUTH_REPLACE then Inr (CmdAuthReplace v)
      else if opcode = COMMAND_STATS_REPLACE then Inr (CmdStatsReplace v)
      else if opcode = COMMAND_COMMENTS_REPLACE then Inr (CmdCommentsReplace v)
      else Inl (Raft ''unknown Raft command opcode''))"

definition decode_cmd :: "bytes \<Rightarrow> raft_command result" where
  "decode_cmd encoded =
     (if length encoded < 10 then Inl (Raft ''Raft command is truncated'')
      else if encoded ! 0 \<noteq> COMMAND_VERSION then Inl (Raft ''unsupported Raft command version'')
      else
        let opcode = encoded ! 1;
            key_len = unat (u32_of_le (take 4 (drop 2 encoded)));
            value_len = unat (u32_of_le (take 4 (drop 6 encoded)))
        in if length encoded \<noteq> 10 + key_len + value_len
           then Inl (Raft ''Raft command payload length mismatch'')
           else decode_payload opcode (take key_len (drop 10 encoded)) (drop (10 + key_len) encoded))"

section \<open>Round trip\<close>

text \<open>The \<open>String\<close> fields of a command hold valid UTF-8, which their Rust type guarantees.\<close>

fun cmd_utf8 :: "raft_command \<Rightarrow> bool" where
  "cmd_utf8 (CmdAddNode _ addr) = utf8_valid addr"
| "cmd_utf8 (CmdCatalogUpsert table _) = utf8_valid table"
| "cmd_utf8 (CmdCatalogDrop table) = utf8_valid table"
| "cmd_utf8 _ = True"

lemma length_encode_op: "length (encode_op op) = 9 + length (fst op) + (case snd op of None \<Rightarrow> 0 | Some v \<Rightarrow> length v)"
  by (auto simp: encode_op_def split: option.splits)

lemma decode_ops_step:
  assumes "length (encode_op op) < 2 ^ 32"
  shows "decode_ops (Suc n) (encode_op op @ rest) acc = decode_ops n rest (acc @ [op])"
proof (cases "snd op")
  case None
  then have "op = (fst op, None)" by (simp add: prod_eq_iff)
  then show ?thesis using None assms by (simp add: encode_op_def Let_def)
next
  case (Some v)
  then have "op = (fst op, Some v)" by (simp add: prod_eq_iff)
  then show ?thesis using Some assms by (simp add: encode_op_def Let_def drop_append_len)
qed

lemma decode_ops_concat:
  "\<forall>op \<in> set ops. length (encode_op op) < 2 ^ 32 \<Longrightarrow>
   decode_ops (length ops) (concat (map encode_op ops) @ rest) acc = Inr (acc @ ops)"
proof (induction ops arbitrary: acc)
  case (Cons op ops)
  then show ?case
    using decode_ops_step [of op "length ops" "concat (map encode_op ops) @ rest" acc] by simp
qed simp

lemma length_encode_ops_body: "length (encode_ops_body ops) = 4 + (\<Sum>op\<leftarrow>ops. length (encode_op op))"
  by (simp add: encode_ops_body_def length_concat comp_def)

lemma ops_bound:
  assumes "(\<Sum>op\<leftarrow>ops. length (encode_op op)) < n"
  shows "length ops < n" "\<forall>op \<in> set ops. length (encode_op op) < n"
proof -
  have "length ops \<le> (\<Sum>op\<leftarrow>ops. length (encode_op op))"
    by (induction ops) (auto simp: length_encode_op)
  then show "length ops < n" using assms by simp
  show "\<forall>op \<in> set ops. length (encode_op op) < n"
    using assms by (induction ops) auto
qed

lemma decode_encode_ops_body:
  assumes "length (encode_ops_body ops) < 2 ^ 32"
  shows "decode_ops_body (encode_ops_body ops) = Inr ops"
proof -
  have *: "(\<Sum>op\<leftarrow>ops. length (encode_op op)) < 2 ^ 32" using assms by (simp add: length_encode_ops_body)
  have "unat (word_of_nat (length ops) :: u32) = length ops"
    using ops_bound(1) [OF *] by (intro unat_of_nat_eq) simp
  then show ?thesis
    using decode_ops_concat [OF ops_bound(2) [OF *], of "[]" "[]"]
    by (simp add: decode_ops_body_def encode_ops_body_def)
qed

lemma decode_encode_kv:
  assumes "encode_kv opcode k v = Inr bs"
  shows "length k < 2 ^ 32" "length v < 2 ^ 32" "decode_cmd bs = decode_payload opcode k v"
proof -
  show b: "length k < 2 ^ 32" "length v < 2 ^ 32"
    using assms by (auto simp: encode_kv_def split: if_splits)
  then have bs: "bs = COMMAND_VERSION # opcode # u32_le (len32 k) @ u32_le (len32 v) @ k @ v"
    using assms by (simp add: encode_kv_def)
  have fields: "bs ! 0 = COMMAND_VERSION" "bs ! 1 = opcode" "take 4 (drop 2 bs) = u32_le (len32 k)"
    "take 4 (drop 6 bs) = u32_le (len32 v)" "drop 10 bs = k @ v" "length bs = 10 + length k + length v"
    by (simp_all add: bs drop_append_len)
  have "drop (10 + length k) bs = drop (length k) (drop 10 bs)" by (simp add: add.commute)
  then have v: "drop (10 + length k) bs = v" by (simp add: fields)
  have lens: "unat (u32_of_le (u32_le (len32 k))) = length k" "unat (u32_of_le (u32_le (len32 v))) = length v"
    using b by simp_all
  show "decode_cmd bs = decode_payload opcode k v"
    unfolding decode_cmd_def Let_def fields lens v by simp
qed

lemma decode_encode_kvD:
  "encode_kv opcode k v = Inr bs \<Longrightarrow> decode_cmd bs = decode_payload opcode k v \<and> length v < 2 ^ 32"
  using decode_encode_kv(2,3) by blast

lemma decode_encode_cmd:
  assumes "cmd_utf8 c" "encode_cmd c = Inr bs"
  shows "decode_cmd bs = Inr c"
  using assms
  by (cases c)
    (auto simp: decode_payload_def command_codes string_from_utf8_def decode_encode_ops_body
      dest!: decode_encode_kvD)

lemma encode_cmd_fails:
  "encode_cmd c = Inl err \<Longrightarrow> err = Raft ''Raft command key exceeds u32'' \<or> err = Raft ''Raft command value exceeds u32''"
  by (cases c) (auto simp: encode_kv_def split: if_splits)

section \<open>Entries of a command\<close>

lemma op_entry_sel [simp]:
  "e_key (op_entry ts op) = fst op" "e_seq (op_entry ts op) = ts" "e_value (op_entry ts op) = snd op"
  "e_tombstone (op_entry ts op) \<longleftrightarrow> snd op = None"
  by (auto simp: op_entry_def split: option.splits)

lemma wf_op_entry [simp]: "wf_entry (op_entry ts op)"
  by (auto simp: op_entry_def split: option.splits)

lemma to_entries_meta: "to_entries c ts = Inl err \<Longrightarrow> is_meta c"
  by (cases c) auto

lemma to_entries_not_meta: "\<not> is_meta c \<Longrightarrow> \<exists>es. to_entries c ts = Inr es"
  by (cases c) auto

lemma to_entries_wf: "to_entries c ts = Inr es \<Longrightarrow> \<forall>e \<in> set es. wf_entry e"
  by (cases c) auto

lemma config_is_meta: "is_config_change c \<Longrightarrow> is_meta c"
  by (cases c) auto

section \<open>Properties\<close>

text \<open>C18. Decoding the encoding of a command gives the command back, for all fourteen kinds.\<close>

theorem raft_command_roundtrip:
  assumes "cmd_utf8 c" "encode_cmd c = Inr bs"
  shows "decode_cmd bs = Inr c"
  using assms by (rule decode_encode_cmd)

lemma raft_command_roundtrip_witness:
  "\<exists>bs. encode_cmd (CmdTxnCommit 7 9 [([1], Some [2]), ([3], None)]) = Inr bs \<and>
     decode_cmd bs = Inr (CmdTxnCommit 7 9 [([1], Some [2]), ([3], None)])"
proof -
  let ?c = "CmdTxnCommit 7 9 [([1], Some [2]), ([3], None)]"
  obtain bs where "encode_cmd ?c = Inr bs"
    by (simp add: encode_kv_def length_encode_ops_body length_encode_op)
  with raft_command_roundtrip [of ?c bs] show ?thesis by simp
qed

text \<open>
  The decoder is not strict on write sets: any bytes after the counted operations are
  ignored, so distinct encodings decode to the same command.
\<close>

theorem raft_command_trailing_bytes_ignored:
  assumes "length (encode_ops_body ops @ extra) < 2 ^ 32"
  shows "\<exists>bs. encode_kv COMMAND_TXN_BATCH [] (encode_ops_body ops @ extra) = Inr bs \<and>
    decode_cmd bs = Inr (CmdTxnBatch ops) \<and> (extra \<noteq> [] \<longrightarrow> encode_cmd (CmdTxnBatch ops) \<noteq> Inr bs)"
proof -
  have *: "(\<Sum>op\<leftarrow>ops. length (encode_op op)) < 2 ^ 32"
    using assms by (simp add: length_encode_ops_body)
  have "unat (word_of_nat (length ops) :: u32) = length ops"
    using ops_bound(1) [OF *] by (intro unat_of_nat_eq) simp
  then have body: "decode_ops_body (encode_ops_body ops @ extra) = Inr ops"
    using decode_ops_concat [OF ops_bound(2) [OF *], of extra "[]"]
    by (simp add: decode_ops_body_def encode_ops_body_def)
  let ?bs = "COMMAND_VERSION # COMMAND_TXN_BATCH # u32_le (len32 []) @
    u32_le (len32 (encode_ops_body ops @ extra)) @ [] @ encode_ops_body ops @ extra"
  have enc: "encode_kv COMMAND_TXN_BATCH [] (encode_ops_body ops @ extra) = Inr ?bs"
    using assms by (simp add: encode_kv_def)
  have "length ?bs \<noteq> length bs'" if "encode_cmd (CmdTxnBatch ops) = Inr bs'" "extra \<noteq> []" for bs'
    using that assms by (auto simp: encode_kv_def split: if_splits)
  then show ?thesis
    using decode_encode_kvD [OF enc] enc body by (intro exI [of _ ?bs]) (auto simp: decode_payload_def command_codes)
qed

lemma raft_command_trailing_bytes_ignored_witness:
  "\<exists>bs. decode_cmd bs = Inr (CmdTxnBatch [([1], None)]) \<and> encode_cmd (CmdTxnBatch [([1], None)]) \<noteq> Inr bs"
  using raft_command_trailing_bytes_ignored [of "[([1], None)]" "[0]"]
  by (auto simp: length_encode_ops_body length_encode_op)

end
