(* ===== verification/Raft_Sm.thy ===== *)
theory Raft_Sm
  imports Wal Raft_Command
begin

text \<open>
  The WAL-backed state machine \<open>RaftStateMachine\<close> of \<open>raft.rs\<close>: applying committed batches in
  index order, and recovery from the WAL. The admission controller, which only gates client
  proposals, is not part of the state.
\<close>

section \<open>State and operations\<close>

record committed_entry =
  ce_index :: u64
  ce_command :: raft_command

datatype apply_status = Applied | AlreadyApplied

record batch_apply_result =
  br_applied :: nat
  br_last_applied :: u64

record raft_snapshot =
  sn_last_included_index :: u64
  sn_data :: bytes

record raft_sm =
  sm_wal :: disk_file
  sm_memtable :: memtable
  sm_last_applied :: u64

text \<open>
  The loop of \<open>apply_committed\<close>: skip what is already applied, refuse a gap, and collect the
  entries of the rest with the highest index seen.
\<close>

primrec collect_committed ::
  "committed_entry list \<Rightarrow> u64 \<Rightarrow> u64 \<Rightarrow> entry list \<Rightarrow> u64 \<Rightarrow> (entry list \<times> u64) result"
where
  "collect_committed [] current expected pending highest = Inr (pending, highest)"
| "collect_committed (c # cs) current expected pending highest =
     (if ce_index c \<le> current then collect_committed cs current expected pending highest
      else if ce_index c \<noteq> expected then Inl (Raft ''committed index gap'')
      else if \<not> is_meta (ce_command c) then
        rbind (to_entries (ce_command c) (ce_index c))
          (\<lambda>es. collect_committed cs current (sat_add expected 1) (pending @ es) (ce_index c))
      else collect_committed cs current (sat_add expected 1) pending (ce_index c))"

definition sm_apply_committed ::
  "(bytes \<Rightarrow> u64) \<Rightarrow> raft_sm \<Rightarrow> committed_entry list \<Rightarrow> raft_sm \<times> batch_apply_result result"
where
  "sm_apply_committed xxh s entries =
     (if \<not> successively (\<lambda>a b. ce_index a < ce_index b) entries then
        (s, Inl (Raft ''committed batch indices must be strictly increasing''))
      else
        let current = sm_last_applied s in
        case checked_add current 1 of
          None \<Rightarrow> (s, Inl (Raft ''last_applied cannot advance beyond u64::MAX''))
        | Some expected \<Rightarrow>
            (case collect_committed entries current expected [] current of
               Inl err \<Rightarrow> (s, Inl err)
             | Inr (pending, highest) \<Rightarrow>
                 if highest = current then (s, Inr \<lparr>br_applied = 0, br_last_applied = current\<rparr>)
                 else
                   let wal = wal_append_batch xxh (sm_wal s) pending;
                       s1 = s\<lparr>sm_wal := wal\<rparr>;
                       s2 = (if pending \<noteq> []
                             then s1\<lparr>sm_wal := wal_sync wal,
                                     sm_memtable := foldl mt_apply (sm_memtable s) pending\<rparr>
                             else s1)
                   in (s2\<lparr>sm_last_applied := highest\<rparr>,
                       Inr \<lparr>br_applied = unat (highest - current), br_last_applied = highest\<rparr>)))"

definition sm_apply ::
  "(bytes \<Rightarrow> u64) \<Rightarrow> raft_sm \<Rightarrow> committed_entry \<Rightarrow> raft_sm \<times> apply_status result"
where
  "sm_apply xxh s c =
     (if ce_index c \<le> sm_last_applied s then (s, Inr AlreadyApplied)
      else case sm_apply_committed xxh s [c] of
             (s', Inl err) \<Rightarrow> (s', Inl err)
           | (s', Inr r) \<Rightarrow> (s', Inr (if br_applied r = 0 then AlreadyApplied else Applied)))"

definition sm_get :: "raft_sm \<Rightarrow> key \<Rightarrow> val option" where
  "sm_get s k = mt_get (sm_memtable s) k"

definition sm_snapshot :: "raft_sm \<Rightarrow> raft_snapshot" where
  "sm_snapshot s =
     \<lparr>sn_last_included_index = sm_last_applied s, sn_data = u64_le (sm_last_applied s)\<rparr>"

definition sm_apply_snapshot :: "raft_sm \<Rightarrow> raft_snapshot \<Rightarrow> raft_sm" where
  "sm_apply_snapshot s snap =
     (if sn_last_included_index snap < sm_last_applied s then s
      else s\<lparr>sm_last_applied := sn_last_included_index snap\<rparr>)"

text \<open>\<open>recover\<close>: replay the WAL into a fresh memtable, cut a torn tail, reopen for append.\<close>

definition replay_into :: "u64 \<times> memtable \<Rightarrow> entry \<Rightarrow> u64 \<times> memtable" where
  "replay_into st e = (max (fst st) (e_seq e), mt_apply (snd st) e)"

definition file_set_len :: "nat \<Rightarrow> disk_file \<Rightarrow> disk_file" where
  "file_set_len n f = f\<lparr>df_bytes := take n (df_bytes f)\<rparr>"

definition sm_recover :: "(bytes \<Rightarrow> u64) \<Rightarrow> disk_file option \<Rightarrow> raft_sm result" where
  "sm_recover xxh existing =
     (case existing of
        None \<Rightarrow> rbind (wal_create None)
          (\<lambda>wal. Inr \<lparr>sm_wal = wal, sm_memtable = mt_new, sm_last_applied = 0\<rparr>)
      | Some f \<Rightarrow>
          rbind (wal_open (Some (df_bytes f))) (\<lambda>r.
            case wal_replay xxh replay_into r (0, mt_new) 0 of
              (_, _, Inl err) \<Rightarrow> Inl err
            | (r', (last_applied, m), Inr _) \<Rightarrow>
                let f' = (if wr_torn_tail r'
                          then file_sync (file_set_len (unat (wr_last_valid_offset r')) f) else f)
                in rbind (wal_open_append (Some f'))
                     (\<lambda>wal. Inr \<lparr>sm_wal = wal, sm_memtable = m, sm_last_applied = last_applied\<rparr>)))"

section \<open>Applying committed entries\<close>

text \<open>The entries a list of commands writes, in log order.\<close>

definition cmd_entries :: "committed_entry \<Rightarrow> entry list" where
  "cmd_entries c =
     (if is_meta (ce_command c) then []
      else case to_entries (ce_command c) (ce_index c) of Inl _ \<Rightarrow> [] | Inr es \<Rightarrow> es)"

lemma to_entries_cmd_entries:
  "\<not> is_meta (ce_command c) \<Longrightarrow> to_entries (ce_command c) (ce_index c) = Inr (cmd_entries c)"
  using to_entries_not_meta [of "ce_command c" "ce_index c"] by (auto simp: cmd_entries_def)

lemma cmd_entries_meta [simp]: "is_meta (ce_command c) \<Longrightarrow> cmd_entries c = []"
  by (simp add: cmd_entries_def)

text \<open>\<open>follows n cs\<close>: the indices of \<open>cs\<close> are \<open>n + 1, n + 2, \<dots>\<close>.\<close>

primrec follows :: "u64 \<Rightarrow> committed_entry list \<Rightarrow> bool" where
  "follows n [] \<longleftrightarrow> True"
| "follows n (c # cs) \<longleftrightarrow> n \<noteq> u64_max \<and> ce_index c = n + 1 \<and> follows (ce_index c) cs"

definition last_index_of :: "u64 \<Rightarrow> committed_entry list \<Rightarrow> u64" where
  "last_index_of n cs = (if cs = [] then n else ce_index (last cs))"

lemma last_index_of_simps [simp]:
  "last_index_of n [] = n" "last_index_of n (c # cs) = last_index_of (ce_index c) cs"
  by (auto simp: last_index_of_def)

lemma sat_add_succ: "n \<noteq> u64_max \<Longrightarrow> sat_add n 1 = n + 1"
proof -
  assume "n \<noteq> u64_max"
  then have "n < u64_max" using u64_le_max [of n] by (simp add: order_less_le)
  then have "unat (n + 1) = unat n + 1" by (rule unat_u64_plus1)
  with \<open>n \<noteq> u64_max\<close> show ?thesis using sat_add_1 [of n] by (metis word_unat_eq_iff)
qed

lemma u64_less_succ: "n \<noteq> u64_max \<Longrightarrow> n < n + (1 :: u64)"
  using sat_add_1 [of n] sat_add_succ [of n] by (simp add: word_less_nat_alt)

lemma checked_add_succ: "checked_add n 1 = (if n = u64_max then None else Some (n + 1))"
proof -
  have "unat n + 1 < 2 ^ 64 \<longleftrightarrow> n \<noteq> u64_max"
    using unat_lt2p [of n] by (auto simp: word_unat_eq_iff)
  then show ?thesis by (simp add: checked_add_unat)
qed

lemma follows_above: "follows n cs \<Longrightarrow> c \<in> set cs \<Longrightarrow> n < ce_index c"
proof (induction cs arbitrary: n)
  case (Cons d cs)
  then have "n < ce_index d" using u64_less_succ [of n] by simp
  with Cons show ?case by (auto intro: less_trans)
qed simp

lemma collect_skip:
  "\<forall>c \<in> set old. ce_index c \<le> current \<Longrightarrow>
   collect_committed (old @ cs) current expected pending highest =
   collect_committed cs current expected pending highest"
  by (induction old) auto

lemma collect_follows:
  assumes "follows n cs" "current \<le> n" "n \<noteq> u64_max \<longrightarrow> expected = n + 1"
  shows "collect_committed cs current expected pending n =
    Inr (pending @ concat (map cmd_entries cs), last_index_of n cs)"
  using assms
proof (induction cs arbitrary: n expected pending)
  case (Cons c cs)
  have n: "n \<noteq> u64_max" "ce_index c = n + 1" "expected = n + 1" "follows (ce_index c) cs"
    using Cons.prems by auto
  then have lt: "current < ce_index c" using Cons.prems(2) u64_less_succ [OF n(1)] by simp
  have next_exp: "ce_index c \<noteq> u64_max \<longrightarrow> sat_add expected 1 = ce_index c + 1"
    using n sat_add_succ [of "ce_index c"] by simp
  have IH: "collect_committed cs current (sat_add expected 1) p (ce_index c) =
      Inr (p @ concat (map cmd_entries cs), last_index_of (ce_index c) cs)" for p
    by (rule Cons.IH [OF n(4) _ next_exp]) (use lt in simp)
  have ent: "to_entries (ce_command c) (n + 1) = Inr (cmd_entries c)" if "\<not> is_meta (ce_command c)"
    using to_entries_cmd_entries [OF that] n(2) by simp
  show ?case
    using lt n IH by (cases "is_meta (ce_command c)") (simp_all add: ent not_le [symmetric])
qed simp

text \<open>The entries of a batch above an index; in a contiguous batch they follow it.\<close>

lemma collect_Inr_follows:
  assumes "collect_committed cs current expected pending n = Inr (es, highest)"
    and "successively (\<lambda>a b. ce_index a < ce_index b) cs" "current \<le> n" "n \<noteq> u64_max \<longrightarrow> expected = n + 1"
    and "n = u64_max \<longrightarrow> expected = u64_max" "\<forall>c \<in> set cs. n < ce_index c \<or> ce_index c \<le> current"
  shows "follows n (filter (\<lambda>c. current < ce_index c) cs)"
  using assms
proof (induction cs arbitrary: n expected pending)
  case (Cons c cs)
  have succ: "successively (\<lambda>a b. ce_index a < ce_index b) cs"
    using Cons.prems(2) by (cases cs) auto
  show ?case
  proof (cases "ce_index c \<le> current")
    case True
    then show ?thesis using Cons.prems Cons.IH [OF _ succ] by (auto simp: not_le)
  next
    case False
    then have "n < ce_index c" using Cons.prems(6) by auto
    then have n: "n \<noteq> u64_max" "ce_index c = expected"
      using Cons.prems(1) False u64_le_max [of "ce_index c"] by (auto simp del: u64_le_max split: if_splits)
    have sorted: "sorted_wrt (\<lambda>a b. ce_index a < ce_index b) (c # cs)"
      using Cons.prems(2) by (subst (asm) successively_conv_sorted_wrt) (auto simp: transp_def)
    obtain p where p: "collect_committed cs current (sat_add expected 1) p (ce_index c) = Inr (es, highest)"
      using Cons.prems(1) False n by (auto simp: rbind_eq_Inr split: if_splits)
    have "follows (ce_index c) (filter (\<lambda>c. current < ce_index c) cs)"
    proof (rule Cons.IH [OF p succ])
      show "ce_index c \<noteq> u64_max \<longrightarrow> sat_add expected 1 = ce_index c + 1"
        using n sat_add_succ [of "ce_index c"] by simp
      show "ce_index c = u64_max \<longrightarrow> sat_add expected 1 = u64_max"
        using n by (simp add: sat_add_nat)
    qed (use False sorted in auto)
    then show ?thesis using False n Cons.prems(4) by (simp add: not_le)
  qed
qed simp

lemma collect_filter:
  "collect_committed cs current expected pending highest =
   collect_committed (filter (\<lambda>c. current < ce_index c) cs) current expected pending highest"
proof (induction cs arbitrary: expected pending highest)
  case (Cons c cs)
  then show ?case by (cases "current < ce_index c") (simp_all add: not_less [symmetric] flip: Cons.IH)
qed simp

lemma follows_length:
  "follows n cs \<Longrightarrow> unat (last_index_of n cs) = unat n + length cs"
proof (induction cs arbitrary: n)
  case (Cons c cs)
  then have "unat (ce_index c) = unat n + 1"
    using sat_add_1 [of n] sat_add_succ [of n] by simp
  moreover have "unat (last_index_of (ce_index c) cs) = unat (ce_index c) + length cs"
    by (rule Cons.IH) (use Cons.prems in auto)
  ultimately show ?case by simp
qed simp

text \<open>The batch above \<open>last_applied\<close> and the entries it writes.\<close>

definition new_of :: "raft_sm \<Rightarrow> committed_entry list \<Rightarrow> committed_entry list" where
  "new_of s cs = filter (\<lambda>c. sm_last_applied s < ce_index c) cs"

definition sm_advance :: "(bytes \<Rightarrow> u64) \<Rightarrow> raft_sm \<Rightarrow> committed_entry list \<Rightarrow> raft_sm" where
  "sm_advance xxh s new =
     (let es = concat (map cmd_entries new)
      in s\<lparr>sm_wal := (if es = [] then sm_wal s else wal_append_batch_sync xxh (sm_wal s) es),
           sm_memtable := foldl mt_apply (sm_memtable s) es,
           sm_last_applied := last_index_of (sm_last_applied s) new\<rparr>)"

lemma sm_apply_committed_ok:
  assumes "successively (\<lambda>a b. ce_index a < ce_index b) cs" "sm_last_applied s \<noteq> u64_max"
    and "follows (sm_last_applied s) (new_of s cs)"
  shows "sm_apply_committed xxh s cs =
    (sm_advance xxh s (new_of s cs),
     Inr \<lparr>br_applied = length (new_of s cs), br_last_applied = last_index_of (sm_last_applied s) (new_of s cs)\<rparr>)"
proof -
  let ?n = "sm_last_applied s" and ?new = "new_of s cs"
  let ?h = "last_index_of ?n ?new"
  define es where "es = concat (map cmd_entries ?new)"
  have c: "collect_committed cs ?n (?n + 1) [] ?n = Inr (es, ?h)"
    using collect_follows [OF assms(3), of ?n "?n + 1" "[]"]
    by (subst collect_filter) (simp add: new_of_def es_def)
  have h: "unat ?h = unat ?n + length ?new" by (rule follows_length [OF assms(3)])
  then have "?n \<le> ?h" by (simp add: word_le_nat_alt)
  then have diff: "unat (?h - ?n) = length ?new" using h by (simp add: unat_sub)
  have empty: "?h = ?n \<longleftrightarrow> ?new = []" using h by (auto simp: word_unat_eq_iff)
  show ?thesis
  proof (cases "?new = []")
    case True
    then show ?thesis using assms(1,2) c
      by (simp add: sm_apply_committed_def checked_add_succ sm_advance_def Let_def)
  next
    case False
    then show ?thesis using assms(1,2) c empty diff
      by (simp add: sm_apply_committed_def checked_add_succ sm_advance_def wal_append_batch_sync_def
          Let_def wal_append_batch_def es_def [symmetric])
  qed
qed

lemma sm_apply_committed_Inr:
  assumes "sm_apply_committed xxh s cs = (s', Inr r)"
  shows "successively (\<lambda>a b. ce_index a < ce_index b) cs" "sm_last_applied s \<noteq> u64_max"
    "follows (sm_last_applied s) (new_of s cs)"
proof -
  let ?n = "sm_last_applied s"
  show 1: "successively (\<lambda>a b. ce_index a < ce_index b) cs" and 2: "?n \<noteq> u64_max"
    using assms by (auto simp: sm_apply_committed_def checked_add_succ split: if_splits)
  obtain es h where "collect_committed cs ?n (?n + 1) [] ?n = Inr (es, h)"
    using assms 1 2 by (auto simp: sm_apply_committed_def checked_add_succ Let_def split: sum.splits)
  moreover have "\<forall>c \<in> set cs. ?n < ce_index c \<or> ce_index c \<le> ?n" by (meson leI)
  ultimately show "follows ?n (new_of s cs)"
    using 1 2 unfolding new_of_def by (intro collect_Inr_follows) auto
qed

lemma sm_apply_committed_Inl: "sm_apply_committed xxh s cs = (s', Inl err) \<Longrightarrow> s' = s"
  by (auto simp: sm_apply_committed_def Let_def split: if_splits option.splits sum.splits)

section \<open>Recovery\<close>

text \<open>
  Between calls the WAL holds, durably, exactly the entries that built the memtable.
\<close>

definition sm_inv :: "(bytes \<Rightarrow> u64) \<Rightarrow> entry list \<Rightarrow> raft_sm \<Rightarrow> bool" where
  "sm_inv xxh es s \<longleftrightarrow>
     df_bytes (sm_wal s) = wal_header @ wal_bytes xxh es \<and>
     df_synced (sm_wal s) = length (df_bytes (sm_wal s)) \<and>
     sm_memtable s = foldl mt_apply mt_new es"

lemma sm_inv_create: "sm_recover xxh None = Inr s \<Longrightarrow> sm_inv xxh [] s"
  by (auto simp: sm_recover_def rbind_eq_Inr sm_inv_def wal_created)

lemma sm_inv_advance:
  "sm_inv xxh es s \<Longrightarrow> sm_inv xxh (es @ concat (map cmd_entries new)) (sm_advance xxh s new)"
  by (auto simp: sm_inv_def sm_advance_def Let_def wal_append_batch_sync_def wal_sync_def
      file_sync_def wal_batch_bytes)

lemma replay_into_foldl:
  "foldl replay_into (n, m) es = (foldl (\<lambda>a e. max a (e_seq e)) n es, foldl mt_apply m es)"
  by (induction es arbitrary: n m) (auto simp: replay_into_def)

lemma sm_recover_inv:
  assumes "sm_inv xxh es s" "\<forall>e \<in> set es. wal_ok e" "length (wal_bytes xxh es) < 2 ^ 64 - 5"
  shows "\<exists>s'. sm_recover xxh (Some (sm_wal s)) = Inr s' \<and> sm_memtable s' = sm_memtable s \<and>
    sm_last_applied s' = foldl (\<lambda>a e. max a (e_seq e)) 0 es"
proof -
  obtain r where r: "wal_open (Some (wal_header @ wal_bytes xxh es)) = Inr r" "rd_ok r" "wr_rest r = wal_bytes xxh es"
    by (rule wal_open_header [OF assms(3)])
  have fit: "fitting (wal_size xxh) (length (wal_bytes xxh es)) es = es"
    by (rule fitting_all) (simp add: length_concat comp_def)
  obtain r' c where "wal_replay xxh replay_into r (0, mt_new) 0 = (r', foldl replay_into (0, mt_new) es, Inr c)"
    using wal_replay_cut [OF r(2) assms(2), of "length (wal_bytes xxh es)" xxh replay_into "(0, mt_new)" 0] r(3)
    unfolding fit by auto
  then show ?thesis using assms(1) r(1)
    by (simp add: sm_recover_def sm_inv_def replay_into_foldl wal_open_append_def)
qed

text \<open>
  Reopening a segment that was cut at \<open>n\<close>: replay delivers the records that fit, and cutting a
  torn tail leaves exactly those.
\<close>

lemma wal_reopen_cut:
  assumes "\<forall>e \<in> set es. wal_ok e" "length (wal_bytes xxh es) < 2 ^ 64 - 5" "5 \<le> n"
    and "df_bytes f = take n (wal_header @ wal_bytes xxh es)"
  defines "fit \<equiv> fitting (wal_size xxh) (n - 5) es"
  shows "\<exists>r r' c. wal_open (Some (df_bytes f)) = Inr r \<and> wal_replay xxh g r s 0 = (r', foldl g s fit, Inr c) \<and>
    df_bytes (if wr_torn_tail r' then file_sync (file_set_len (unat (wr_last_valid_offset r')) f) else f) =
      wal_header @ wal_bytes xxh fit"
proof -
  have cut: "df_bytes f = wal_header @ take (n - 5) (wal_bytes xxh es)" using assms(3,4) by simp
  obtain r where r: "wal_open (Some (df_bytes f)) = Inr r" "rd_ok r" "wr_rest r = take (n - 5) (wal_bytes xxh es)"
    "wr_last_valid_offset r = 5" "\<not> wr_torn_tail r"
    unfolding cut by (rule wal_open_header [of "take (n - 5) (wal_bytes xxh es)"]) (use assms(2) in auto)
  obtain r' c where r': "wal_replay xxh g r s 0 = (r', foldl g s fit, Inr c)"
    "unat (wr_last_valid_offset r') = 5 + length (wal_bytes xxh fit)"
    "wr_torn_tail r' \<longleftrightarrow> take (n - 5) (wal_bytes xxh es) \<noteq> wal_bytes xxh fit"
    using wal_replay_cut [OF r(2) assms(1) r(3), of g s 0] r(4,5) unfolding fit_def by auto
  obtain zs where zs: "es = fit @ zs" using prefix_fitting unfolding fit_def prefix_def by metis
  have "length (wal_bytes xxh fit) \<le> n - 5"
    using fitting_size [of "wal_size xxh" "n - 5" es] by (simp add: fit_def length_concat comp_def)
  then have "take (length (wal_bytes xxh fit)) (take (n - 5) (wal_bytes xxh es)) = wal_bytes xxh fit"
    by (simp add: zs min_def)
  then show ?thesis using r(1) r' cut by (auto simp: file_sync_def file_set_len_def)
qed

section \<open>Properties\<close>

text \<open>
  \<open>apply_committed\<close> accepts a batch exactly when its indices increase and those above
  \<open>last_applied\<close> continue it without a gap. It then appends the entries of the new commands to
  the WAL with one sync, publishes them to the memtable in log order and advances
  \<open>last_applied\<close> to the last index; a refused batch changes nothing.
\<close>

theorem sm_apply_committed_spec:
  "case sm_apply_committed xxh s cs of
     (s', Inr r) \<Rightarrow>
       successively (\<lambda>a b. ce_index a < ce_index b) cs \<and> follows (sm_last_applied s) (new_of s cs) \<and>
       s' = sm_advance xxh s (new_of s cs) \<and> br_applied r = length (new_of s cs) \<and>
       br_last_applied r = sm_last_applied s'
   | (s', Inl err) \<Rightarrow>
       s' = s \<and> \<not> (successively (\<lambda>a b. ce_index a < ce_index b) cs \<and> sm_last_applied s \<noteq> u64_max \<and>
                   follows (sm_last_applied s) (new_of s cs))"
proof (cases "sm_apply_committed xxh s cs")
  case (Pair s' res)
  show ?thesis
  proof (cases res)
    case (Inl err)
    then show ?thesis
      using Pair sm_apply_committed_Inl [of xxh s cs s' err] sm_apply_committed_ok [of cs s xxh] by auto
  next
    case (Inr r)
    note I = sm_apply_committed_Inr [OF Pair [unfolded Inr]]
    show ?thesis
      using sm_apply_committed_ok [OF I, of xxh] Pair Inr I by (auto simp: sm_advance_def Let_def)
  qed
qed

text \<open>Delivering a committed batch again has no effect and reports that nothing was applied.\<close>

theorem sm_apply_committed_idempotent:
  assumes "sm_apply_committed xxh s cs = (s', Inr r)" "sm_last_applied s' \<noteq> u64_max"
  shows "sm_apply_committed xxh s' cs = (s', Inr \<lparr>br_applied = 0, br_last_applied = sm_last_applied s'\<rparr>)"
proof -
  note I = sm_apply_committed_Inr [OF assms(1)]
  let ?new = "new_of s cs"
  have s': "s' = sm_advance xxh s ?new" using sm_apply_committed_ok [OF I, of xxh] assms(1) by simp
  then have la: "sm_last_applied s' = last_index_of (sm_last_applied s) ?new"
    by (simp add: sm_advance_def Let_def)
  have sorted: "sorted_wrt (\<lambda>a b. ce_index a < ce_index b) cs"
    using I(1) by (subst (asm) successively_conv_sorted_wrt) (auto simp: transp_def)
  have "ce_index c \<le> sm_last_applied s'" if c: "c \<in> set cs" for c
  proof (cases "c \<in> set ?new")
    case True
    have "sorted_wrt (\<lambda>a b. ce_index a < ce_index b) ?new"
      unfolding new_of_def using sorted by (rule sorted_wrt_filter)
    then have "ce_index c \<le> ce_index (last ?new)"
      using True by (cases ?new rule: rev_cases) (auto simp: sorted_wrt_append)
    then show ?thesis using True by (auto simp: la last_index_of_def)
  next
    case False
    then have "ce_index c \<le> sm_last_applied s" using c by (simp add: new_of_def not_less)
    moreover have "unat (last_index_of (sm_last_applied s) ?new) = unat (sm_last_applied s) + length ?new"
      by (rule follows_length [OF I(3)])
    ultimately show ?thesis by (simp add: la word_le_nat_alt)
  qed
  then have "new_of s' cs = []" by (auto simp: new_of_def filter_empty_conv not_less)
  then show ?thesis using sm_apply_committed_ok [OF I(1) assms(2)] by (simp add: sm_advance_def)
qed

lemma sm_apply_committed_idempotent_witness:
  "\<forall>(xxh :: bytes \<Rightarrow> u64). \<exists>s s' r. sm_recover xxh None = Inr s \<and>
    sm_apply_committed xxh s [\<lparr>ce_index = 1, ce_command = CmdPut [1] [2]\<rparr>] = (s', Inr r) \<and> br_applied r = 1 \<and>
    sm_apply_committed xxh s' [\<lparr>ce_index = 1, ce_command = CmdPut [1] [2]\<rparr>] =
      (s', Inr \<lparr>br_applied = 0, br_last_applied = 1\<rparr>)"
    (is "\<forall>xxh. ?P xxh")
proof (intro allI)
  fix xxh :: "bytes \<Rightarrow> u64"
  let ?cs = "[\<lparr>ce_index = 1, ce_command = CmdPut [1] [2]\<rparr>]"
  obtain s where s: "sm_recover xxh None = Inr s" "sm_last_applied s = 0"
    by (simp add: sm_recover_def wal_create_def)
  have new: "new_of s ?cs = ?cs" by (simp add: new_of_def s)
  then have "sm_apply_committed xxh s ?cs = (sm_advance xxh s ?cs, Inr \<lparr>br_applied = 1, br_last_applied = 1\<rparr>)"
    using sm_apply_committed_ok [of ?cs s xxh] by (simp add: s)
  moreover have "sm_last_applied (sm_advance xxh s ?cs) = 1" by (simp add: sm_advance_def Let_def)
  ultimately show "?P xxh" using sm_apply_committed_idempotent s by fastforce
qed

text \<open>The state after a sequence of calls of \<open>apply_committed\<close>, accepted or not.\<close>

definition sm_run :: "(bytes \<Rightarrow> u64) \<Rightarrow> raft_sm \<Rightarrow> committed_entry list list \<Rightarrow> raft_sm" where
  "sm_run xxh s batches = foldl (\<lambda>s cs. fst (sm_apply_committed xxh s cs)) s batches"

lemma sm_run_inv:
  "sm_inv xxh es s \<Longrightarrow>
   \<exists>es'. sm_inv xxh (es @ es') (sm_run xxh s batches) \<and>
     set es' \<subseteq> (\<Union>cs \<in> set batches. \<Union>c \<in> set cs. set (cmd_entries c))"
proof (induction batches arbitrary: es s)
  case Nil
  then show ?case by (intro exI [of _ "[]"]) (simp add: sm_run_def)
next
  case (Cons cs batches)
  obtain s' res where r: "sm_apply_committed xxh s cs = (s', res)" by fastforce
  obtain new where s': "sm_inv xxh (es @ concat (map cmd_entries new)) s'" "set new \<subseteq> set cs"
  proof (cases res)
    case (Inl err)
    then have "s' = s" using r sm_apply_committed_Inl by blast
    then show ?thesis using that [of "[]"] Cons.prems by simp
  next
    case (Inr b)
    note I = sm_apply_committed_Inr [OF r [unfolded Inr]]
    have "s' = sm_advance xxh s (new_of s cs)" using sm_apply_committed_ok [OF I, of xxh] r by simp
    then show ?thesis using that [of "new_of s cs"] sm_inv_advance [OF Cons.prems] by (auto simp: new_of_def)
  qed
  from Cons.IH [OF s'(1)] obtain es' where
    "sm_inv xxh (es @ concat (map cmd_entries new) @ es') (sm_run xxh s' batches)"
    "set es' \<subseteq> (\<Union>cs \<in> set batches. \<Union>c \<in> set cs. set (cmd_entries c))" by auto
  with s'(2) show ?case
    by (intro exI [of _ "concat (map cmd_entries new) @ es'"]) (auto simp: sm_run_def r)
qed

text \<open>
  Restart. After any sequence of \<open>apply_committed\<close> calls on a fresh state machine, recovery
  from its WAL file succeeds and rebuilds the very same memtable, so every read answers as before.
\<close>

theorem sm_restart_preserves_memtable:
  assumes "sm_recover xxh None = Inr s0" "s = sm_run xxh s0 batches"
    and "\<forall>cs \<in> set batches. \<forall>c \<in> set cs. \<forall>e \<in> set (cmd_entries c). wal_ok e"
    and "length (df_bytes (sm_wal s)) < 2 ^ 64"
  shows "\<exists>s'. sm_recover xxh (Some (sm_wal s)) = Inr s' \<and> sm_memtable s' = sm_memtable s"
proof -
  obtain es where es: "sm_inv xxh es s" "set es \<subseteq> (\<Union>cs \<in> set batches. \<Union>c \<in> set cs. set (cmd_entries c))"
    using sm_run_inv [OF sm_inv_create [OF assms(1)], of batches] assms(2) by auto
  have ok: "\<forall>e \<in> set es. wal_ok e" using es(2) assms(3) by fastforce
  have "length (wal_bytes xxh es) < 2 ^ 64 - 5" using assms(4) es(1) by (simp add: sm_inv_def)
  from sm_recover_inv [OF es(1) ok this] show ?thesis by blast
qed

lemma sm_restart_preserves_memtable_witness:
  "\<forall>(xxh :: bytes \<Rightarrow> u64). \<exists>s0 s'. sm_recover xxh None = Inr s0 \<and>
    sm_recover xxh (Some (sm_wal (sm_run xxh s0 [[\<lparr>ce_index = 1, ce_command = CmdPut [1] [2]\<rparr>]]))) = Inr s' \<and>
    sm_memtable s' = sm_memtable (sm_run xxh s0 [[\<lparr>ce_index = 1, ce_command = CmdPut [1] [2]\<rparr>]])"
    (is "\<forall>xxh. ?P xxh")
proof (intro allI)
  fix xxh :: "bytes \<Rightarrow> u64"
  let ?c = "\<lparr>ce_index = 1, ce_command = CmdPut [1] [2]\<rparr>"
  obtain s0 where s0: "sm_recover xxh None = Inr s0" "sm_last_applied s0 = 0" "df_bytes (sm_wal s0) = wal_header"
    by (simp add: sm_recover_def wal_create_def file_sync_def file_append_def wal_header_def WAL_MAGIC_def)
  have new: "new_of s0 [?c] = [?c]" by (simp add: new_of_def s0)
  have run: "sm_run xxh s0 [[?c]] = sm_advance xxh s0 [?c]"
    using sm_apply_committed_ok [of "[?c]" s0 xxh] by (simp add: s0 sm_run_def new)
  have e: "cmd_entries ?c = [entry_put [1] [2] 1]" by (simp add: cmd_entries_def)
  have len: "length (encode_body (entry_put [1] [2] 1)) = 19" by (simp add: length_encode_body opt_len_def)
  have "length (df_bytes (sm_wal (sm_run xxh s0 [[?c]]))) < 2 ^ 64"
    by (simp add: run sm_advance_def e wal_append_batch_sync_def wal_sync_def file_sync_def
        wal_batch_bytes s0 len)
  with sm_restart_preserves_memtable [OF s0(1) refl, of "[[?c]]"] s0(1) show "?P xxh"
    by (simp add: e wal_ok_def len MAX_WAL_RECORD_def)
qed

text \<open>
  \<open>last_applied\<close> does not survive a restart when the last applied command writes no entry: a
  state machine that has applied a no-op at index 1 recovers with \<open>last_applied = 0\<close>.
\<close>

theorem sm_restart_forgets_meta_commands:
  "case sm_recover xxh None of
     Inr s0 \<Rightarrow>
       let s = fst (sm_apply_committed xxh s0 [\<lparr>ce_index = 1, ce_command = CmdNoop\<rparr>])
       in sm_last_applied s = 1 \<and> map_sum id sm_last_applied (sm_recover xxh (Some (sm_wal s))) = Inr 0
   | Inl _ \<Rightarrow> False"
proof -
  let ?c = "\<lparr>ce_index = 1, ce_command = CmdNoop\<rparr>"
  obtain s0 where s0: "sm_recover xxh None = Inr s0" "sm_last_applied s0 = 0"
    by (simp add: sm_recover_def wal_create_def)
  have ok: "sm_apply_committed xxh s0 [?c] =
      (sm_advance xxh s0 [?c], Inr \<lparr>br_applied = 1, br_last_applied = 1\<rparr>)"
    using sm_apply_committed_ok [of "[?c]" s0 xxh] by (simp add: s0 new_of_def)
  have inv: "sm_inv xxh ([] @ concat (map cmd_entries [?c])) (sm_advance xxh s0 [?c])"
    by (rule sm_inv_advance [OF sm_inv_create [OF s0(1)]])
  have "sm_last_applied (sm_advance xxh s0 [?c]) = 1" by (simp add: sm_advance_def Let_def)
  with sm_recover_inv [OF inv] s0 ok show ?thesis by auto
qed

end
