(* ===== verification/Membership.thy ===== *)
theory Membership
  imports Takyonic_Prelude
begin

text \<open>
  The replicated voter set of \<open>membership.rs\<close>: the members, their endpoints, the quorum size and
  the blob format. A \<open>BTreeSet\<close> is a strictly sorted list. The locale \<open>quorum_change\<close> states
  what leader election and commitment need of a membership change, and is interpreted on the
  model's own quorum.
\<close>

section \<open>State and operations\<close>

record membership =
  cm_members :: "u64 list"
  cm_endpoints :: "(u64 \<times> rust_string) list"

definition cm_empty :: membership where
  "cm_empty = \<lparr>cm_members = [], cm_endpoints = []\<rparr>"

definition cm_from_endpoints :: "(u64 \<times> rust_string) list \<Rightarrow> membership" where
  "cm_from_endpoints eps =
     (let endpoints = foldl (\<lambda>m p. bt_insert (fst p) (snd p) m) [] eps
      in \<lparr>cm_members = map fst endpoints, cm_endpoints = endpoints\<rparr>)"

definition cm_len :: "membership \<Rightarrow> nat" where
  "cm_len m = length (cm_members m)"

definition cm_is_empty :: "membership \<Rightarrow> bool" where
  "cm_is_empty m \<longleftrightarrow> cm_members m = []"

definition cm_contains :: "membership \<Rightarrow> u64 \<Rightarrow> bool" where
  "cm_contains m i \<longleftrightarrow> i \<in> set (cm_members m)"

text \<open>\<open>usize::MAX\<close> makes the quorum of an empty membership unreachable.\<close>

definition usize_max :: nat where
  "usize_max = 18446744073709551615"

definition cm_quorum :: "membership \<Rightarrow> nat" where
  "cm_quorum m = (if cm_members m = [] then usize_max else length (cm_members m) div 2 + 1)"

definition cm_peers_except :: "membership \<Rightarrow> u64 \<Rightarrow> u64 list" where
  "cm_peers_except m self_id = filter (\<lambda>p. p \<noteq> self_id) (cm_members m)"

definition cm_address :: "membership \<Rightarrow> u64 \<Rightarrow> rust_string option" where
  "cm_address m i = map_of (cm_endpoints m) i"

definition cm_add_node :: "membership \<Rightarrow> u64 \<Rightarrow> rust_string \<Rightarrow> membership" where
  "cm_add_node m i address =
     m\<lparr>cm_members := insort_insert i (cm_members m), cm_endpoints := bt_insert i address (cm_endpoints m)\<rparr>"

definition cm_remove_node :: "membership \<Rightarrow> u64 \<Rightarrow> membership" where
  "cm_remove_node m i = m\<lparr>cm_members := filter (\<lambda>p. p \<noteq> i) (cm_members m)\<rparr>"

definition MEMBERSHIP_MAGIC :: bytes where
  "MEMBERSHIP_MAGIC = lit ''TKYM''"

definition MEMBERSHIP_VERSION :: u32 where
  "MEMBERSHIP_VERSION = 1"

definition encode_endpoint :: "u64 \<times> rust_string \<Rightarrow> bytes" where
  "encode_endpoint p = u64_le (fst p) @ u32_le (len32 (snd p)) @ snd p"

definition cm_encode :: "membership \<Rightarrow> bytes" where
  "cm_encode m =
     (let addr = (\<lambda>i. case map_of (cm_endpoints m) i of Some a \<Rightarrow> a | None \<Rightarrow> []);
          extras = filter (\<lambda>p. fst p \<notin> set (cm_members m)) (cm_endpoints m)
      in MEMBERSHIP_MAGIC @ u32_le MEMBERSHIP_VERSION @ u32_le (word_of_nat (length (cm_members m))) @
         concat (map (\<lambda>i. encode_endpoint (i, addr i)) (cm_members m)) @
         u32_le (word_of_nat (length extras)) @ concat (map encode_endpoint extras))"

primrec decode_members ::
  "nat \<Rightarrow> bytes \<Rightarrow> u64 list \<Rightarrow> (u64 \<times> rust_string) list \<Rightarrow>
   (bytes \<times> u64 list \<times> (u64 \<times> rust_string) list) result"
where
  "decode_members 0 data members endpoints = Inr (data, members, endpoints)"
| "decode_members (Suc n) data members endpoints =
     (if length data < 8 + 4 then Inl (Raft ''membership member truncated'')
      else
        let i = u64_of_le (take 8 data);
            len = unat (u32_of_le (take 4 (drop 8 data)));
            rest = drop 12 data
        in if length rest < len then Inl (Raft ''membership address truncated'')
           else rbind (string_from_utf8 (Raft ''membership address utf8'') (take len rest))
                  (\<lambda>addr. decode_members n (drop len rest) (insort_insert i members) (bt_insert i addr endpoints)))"

text \<open>The endpoint hints at the end of a blob; a truncated one ends the loop silently.\<close>

primrec decode_extras :: "nat \<Rightarrow> bytes \<Rightarrow> (u64 \<times> rust_string) list \<Rightarrow> (u64 \<times> rust_string) list" where
  "decode_extras 0 data endpoints = endpoints"
| "decode_extras (Suc n) data endpoints =
     (if length data < 8 + 4 then endpoints
      else
        let i = u64_of_le (take 8 data);
            len = unat (u32_of_le (take 4 (drop 8 data)));
            rest = drop 12 data
        in if length rest < len then endpoints
           else
             let addr = (if utf8_valid (take len rest) then take len rest else [])
             in decode_extras n (drop len rest)
                  (if map_of endpoints i = None then bt_insert i addr endpoints else endpoints))"

definition cm_decode :: "bytes \<Rightarrow> membership result" where
  "cm_decode data =
     (if length data < 4 + 4 + 4 then Inl (Raft ''membership blob truncated'')
      else if take 4 data \<noteq> MEMBERSHIP_MAGIC then Inl (Raft ''bad membership magic'')
      else if u32_of_le (take 4 (drop 4 data)) \<noteq> MEMBERSHIP_VERSION then
        Inl (Raft ''unsupported membership version'')
      else
        rbind (decode_members (unat (u32_of_le (take 4 (drop 8 data)))) (drop 12 data) [] [])
          (\<lambda>(rest, members, endpoints).
             Inr \<lparr>cm_members = members,
                  cm_endpoints = (if 4 \<le> length rest
                                  then decode_extras (unat (u32_of_le (take 4 rest))) (drop 4 rest) endpoints
                                  else endpoints)\<rparr>))"

text \<open>\<open>MEMBERSHIP.meta\<close> is replaced atomically by a rename; the file is its bytes or absent.\<close>

definition cm_read_from_dir :: "bytes option \<Rightarrow> membership option result" where
  "cm_read_from_dir file =
     (case file of None \<Rightarrow> Inr None | Some bs \<Rightarrow> rbind (cm_decode bs) (\<lambda>m. Inr (Some m)))"

definition cm_write_to_dir :: "membership \<Rightarrow> bytes option \<Rightarrow> bytes option" where
  "cm_write_to_dir m file = Some (cm_encode m)"

section \<open>Invariant\<close>

text \<open>Sorted sets and maps, and an endpoint for every member.\<close>

definition cm_inv :: "membership \<Rightarrow> bool" where
  "cm_inv m \<longleftrightarrow> sorted_wrt (<) (cm_members m) \<and> bt_sorted (cm_endpoints m) \<and>
     (\<forall>i \<in> set (cm_members m). map_of (cm_endpoints m) i \<noteq> None)"

lemma cm_inv_empty: "cm_inv cm_empty"
  by (simp add: cm_inv_def cm_empty_def)

lemma bt_sorted_foldl_insert:
  "bt_sorted m \<Longrightarrow> bt_sorted (foldl (\<lambda>m p. bt_insert (fst p) (snd p) m) m ps)"
  by (induction ps arbitrary: m) (auto simp: bt_sorted_insert)

lemma cm_inv_from_endpoints: "cm_inv (cm_from_endpoints eps)"
  using bt_sorted_foldl_insert [of "[]" eps]
  by (auto simp: cm_inv_def cm_from_endpoints_def Let_def bt_sorted_def map_of_eq_None_iff)

lemma sorted_insort_insert:
  "sorted_wrt (<) xs \<Longrightarrow> sorted_wrt (<) (insort_insert (x :: 'a :: linorder) xs)"
  by (auto simp: strict_sorted_iff insort_insert_key_def sorted_insort distinct_insort)

lemma set_insort_insert [simp]: "set (insort_insert x xs) = insert (x :: 'a :: linorder) (set xs)"
  by (auto simp: insort_insert_key_def set_insort_key)

lemma cm_inv_add: "cm_inv m \<Longrightarrow> cm_inv (cm_add_node m i a)"
  by (auto simp: cm_inv_def cm_add_node_def sorted_insort_insert bt_sorted_insert)

lemma cm_inv_remove: "cm_inv m \<Longrightarrow> cm_inv (cm_remove_node m i)"
  by (auto simp: cm_inv_def cm_remove_node_def sorted_wrt_filter)

section \<open>Quorums\<close>

text \<open>A set of members that reaches the quorum size of a membership.\<close>

definition is_quorum :: "membership \<Rightarrow> u64 set \<Rightarrow> bool" where
  "is_quorum m Q \<longleftrightarrow> Q \<subseteq> set (cm_members m) \<and> cm_quorum m \<le> card Q"

text \<open>Two memberships at most one server apart.\<close>

definition one_apart :: "membership \<Rightarrow> membership \<Rightarrow> bool" where
  "one_apart m m' \<longleftrightarrow> card ((set (cm_members m) - set (cm_members m')) \<union> (set (cm_members m') - set (cm_members m))) \<le> 1"

text \<open>What election and commitment rely on when the configuration changes.\<close>

locale quorum_change =
  fixes quorum :: "'m \<Rightarrow> 'n set \<Rightarrow> bool"
    and adjacent :: "'m \<Rightarrow> 'm \<Rightarrow> bool"
  assumes adjacent_refl: "adjacent m m"
    and quorums_meet: "adjacent m m' \<Longrightarrow> quorum m Q \<Longrightarrow> quorum m' Q' \<Longrightarrow> Q \<inter> Q' \<noteq> {}"
begin

lemma quorum_nonempty: "quorum m Q \<Longrightarrow> Q \<noteq> {}"
  using quorums_meet [OF adjacent_refl] by blast

text \<open>
  Votes are functions: if every node votes for at most one candidate, two candidates with
  quorums of adjacent memberships are the same.
\<close>

lemma one_winner:
  assumes "adjacent m m'" "quorum m {n. vote n = Some c}" "quorum m' {n. vote n = Some c'}"
  shows "c = c'"
  using quorums_meet [OF assms] by auto

end

lemma card_one_apart:
  assumes "finite A" "finite B" "card ((A - B) \<union> (B - A)) \<le> 1"
  shows "card (A \<union> B) = max (card A) (card B)" "card A \<le> card B + 1" "card B \<le> card A + 1"
proof -
  have "card (A - B) + card (B - A) \<le> 1"
    using assms by (subst (asm) card_Un_disjoint) auto
  moreover have "card (A \<union> B) = card A + card (B - A)" "card (A \<union> B) = card B + card (A - B)"
    using assms(1,2) by (simp_all add: card_Un_disjoint [symmetric] Un_commute)
  ultimately show "card (A \<union> B) = max (card A) (card B)" "card A \<le> card B + 1" "card B \<le> card A + 1"
    by linarith+
qed

lemma quorums_intersect:
  assumes "one_apart m m'" "sorted_wrt (<) (cm_members m)" "sorted_wrt (<) (cm_members m')"
    and "length (cm_members m) < usize_max" "length (cm_members m') < usize_max"
    and "is_quorum m Q" "is_quorum m' Q'"
  shows "Q \<inter> Q' \<noteq> {}"
proof
  assume disj: "Q \<inter> Q' = {}"
  let ?A = "set (cm_members m)" and ?B = "set (cm_members m')"
  have card: "card ?A = length (cm_members m)" "card ?B = length (cm_members m')"
    using assms(2,3) by (simp_all add: strict_sorted_iff distinct_card)
  have Q: "Q \<subseteq> ?A" "Q' \<subseteq> ?B" "cm_quorum m \<le> card Q" "cm_quorum m' \<le> card Q'"
    using assms(6,7) by (simp_all add: is_quorum_def)
  have le: "card Q \<le> card ?A" "card Q' \<le> card ?B" using Q(1,2) by (simp_all add: card_mono)
  have q: "card ?A div 2 + 1 \<le> card Q" "card ?B div 2 + 1 \<le> card Q'"
    using Q(3,4) le assms(4,5) card by (auto simp: cm_quorum_def split: if_splits)
  have "card Q + card Q' = card (Q \<union> Q')"
    using disj Q(1,2) by (metis List.finite_set card_Un_disjoint finite_subset)
  also have "\<dots> \<le> card (?A \<union> ?B)" using Q(1,2) by (intro card_mono) auto
  finally have sum: "card Q + card Q' \<le> card (?A \<union> ?B)" .
  have "card ((?A - ?B) \<union> (?B - ?A)) \<le> 1" using assms(1) by (simp add: one_apart_def)
  note one = card_one_apart [OF List.finite_set List.finite_set this]
  define a b where "a = card ?A" and "b = card ?B"
  have "a div 2 + 1 + (b div 2 + 1) \<le> max a b" "a \<le> b + 1" "b \<le> a + 1"
    using q sum one unfolding a_def b_def by linarith+
  then show False by presburger
qed

text \<open>The memberships of the interface: well-formed and of a size that fits in memory.\<close>

definition cm_adjacent :: "membership \<Rightarrow> membership \<Rightarrow> bool" where
  "cm_adjacent m m' \<longleftrightarrow> m = m' \<or> one_apart m m'"

definition cm_ok_quorum :: "membership \<Rightarrow> u64 set \<Rightarrow> bool" where
  "cm_ok_quorum m Q \<longleftrightarrow> cm_inv m \<and> cm_len m < usize_max \<and> is_quorum m Q"

interpretation voters: quorum_change cm_ok_quorum cm_adjacent
proof
  show "cm_adjacent m m" for m by (simp add: cm_adjacent_def)
  fix m m' Q Q' assume *: "cm_adjacent m m'" "cm_ok_quorum m Q" "cm_ok_quorum m' Q'"
  have "one_apart m m" for m by (simp add: one_apart_def)
  with * have "one_apart m m'" by (auto simp: cm_adjacent_def)
  then show "Q \<inter> Q' \<noteq> {}"
    using * by (intro quorums_intersect) (auto simp: cm_ok_quorum_def cm_inv_def cm_len_def)
qed

lemma card_le_single: "A \<subseteq> {i} \<Longrightarrow> card A \<le> 1"
  using card_mono [of "{i}" A] by simp

lemma one_apart_add: "one_apart m (cm_add_node m i a)"
proof -
  have "(set (cm_members m) - set (cm_members (cm_add_node m i a))) \<union>
      (set (cm_members (cm_add_node m i a)) - set (cm_members m)) \<subseteq> {i}"
    by (auto simp: cm_add_node_def)
  then show ?thesis unfolding one_apart_def by (rule card_le_single)
qed

lemma one_apart_remove: "one_apart m (cm_remove_node m i)"
proof -
  have "(set (cm_members m) - set (cm_members (cm_remove_node m i))) \<union>
      (set (cm_members (cm_remove_node m i)) - set (cm_members m)) \<subseteq> {i}"
    by (auto simp: cm_remove_node_def)
  then show ?thesis unfolding one_apart_def by (rule card_le_single)
qed

section \<open>The blob format\<close>

text \<open>Addresses and counts that fit their 32-bit length fields.\<close>

definition cm_fits :: "membership \<Rightarrow> bool" where
  "cm_fits m \<longleftrightarrow> length (cm_members m) < 2 ^ 32 \<and> length (cm_endpoints m) < 2 ^ 32 \<and>
     (\<forall>p \<in> set (cm_endpoints m). length (snd p) < 2 ^ 32 \<and> utf8_valid (snd p))"

lemma decode_members_concat:
  assumes "\<forall>i \<in> set ids. length (addr i) < 2 ^ 32 \<and> utf8_valid (addr i)"
  shows "decode_members (length ids) (concat (map (\<lambda>i. encode_endpoint (i, addr i)) ids) @ rest) ms eps =
    Inr (rest, foldl (\<lambda>ms i. insort_insert i ms) ms ids, foldl (\<lambda>m i. bt_insert i (addr i) m) eps ids)"
  using assms
proof (induction ids arbitrary: ms eps)
  case (Cons i ids)
  let ?rest = "concat (map (\<lambda>i. encode_endpoint (i, addr i)) ids) @ rest"
  have "drop 12 (encode_endpoint (i, addr i) @ ?rest) = addr i @ ?rest"
    by (simp add: encode_endpoint_def)
  then show ?case using Cons by (simp add: encode_endpoint_def string_from_utf8_def Let_def)
qed simp

lemma decode_extras_concat:
  assumes "\<forall>p \<in> set ps. length (snd p) < 2 ^ 32 \<and> utf8_valid (snd p)" "distinct (map fst ps)"
    "\<forall>p \<in> set ps. map_of eps (fst p) = None"
  shows "decode_extras (length ps) (concat (map encode_endpoint ps) @ rest) eps =
    foldl (\<lambda>m p. bt_insert (fst p) (snd p) m) eps ps"
  using assms
proof (induction ps arbitrary: eps)
  case (Cons p ps)
  have "\<forall>q \<in> set ps. map_of (bt_insert (fst p) (snd p) eps) (fst q) = None"
    using Cons.prems by (auto simp: rev_image_eqI)
  with Cons show ?case by (simp add: encode_endpoint_def Let_def)
qed simp

lemma map_of_foldl_bt_insert:
  "map_of (foldl (\<lambda>m i. bt_insert i (f i) m) eps ids) k = (if k \<in> set ids then Some (f k) else map_of eps k)"
  by (induction ids arbitrary: eps) auto

lemma map_of_foldl_bt_insert_pairs:
  "distinct (map fst ps) \<Longrightarrow>
   map_of (foldl (\<lambda>m p. bt_insert (fst p) (snd p) m) eps ps) k = (case map_of ps k of Some v \<Rightarrow> Some v | None \<Rightarrow> map_of eps k)"
proof (induction ps arbitrary: eps)
  case (Cons p ps)
  then have "map_of ps (fst p) = None" by (simp add: map_of_eq_None_iff)
  with Cons show ?case by (cases "k = fst p") (auto split: option.splits)
qed simp

lemma bt_sorted_foldl_bt_insert:
  "bt_sorted eps \<Longrightarrow> bt_sorted (foldl (\<lambda>m i. bt_insert i (f i) m) eps ids)"
  by (induction ids arbitrary: eps) (auto simp: bt_sorted_insert)

lemma foldl_insort_insert:
  assumes "sorted_wrt (<) ids"
  shows "foldl (\<lambda>ms i. insort_insert i ms) [] ids = (ids :: u64 list)"
proof -
  have "sorted_wrt (<) (foldl (\<lambda>ms i. insort_insert i ms) xs ids) \<and>
      set (foldl (\<lambda>ms i. insort_insert i ms) xs ids) = set xs \<union> set ids"
    if "sorted_wrt (<) xs" for xs :: "u64 list"
    using that by (induction ids arbitrary: xs) (auto simp: sorted_insort_insert)
  from this [of "[]"] assms show ?thesis by (simp add: strict_sorted_equal)
qed

lemma bt_sorted_map_of_eqI:
  assumes "bt_sorted m" "bt_sorted m'" "\<And>k. map_of m k = map_of m' k"
  shows "m = m'"
proof (rule bt_sorted_eqI [OF assms(1,2)])
  show "set m = set m'"
    using map_of_Some_in [OF assms(1)] map_of_Some_in [OF assms(2)] assms(3) by (metis subrelI subset_antisym)
qed

lemma map_of_filter_key: "map_of (filter (\<lambda>p. P (fst p)) ps) k = (if P k then map_of ps k else None)"
  by (induction ps) auto

lemma cm_decode_encode:
  assumes "cm_inv m" "cm_fits m"
  shows "cm_decode (cm_encode m) = Inr m"
proof -
  let ?E = "cm_endpoints m" and ?M = "cm_members m"
  define addr where "addr = (\<lambda>i. case map_of ?E i of Some a \<Rightarrow> a | None \<Rightarrow> [])"
  define extras where "extras = filter (\<lambda>p. fst p \<notin> set ?M) ?E"
  let ?tail = "u32_le (word_of_nat (length extras)) @ concat (map encode_endpoint extras)"
  let ?mem = "concat (map (\<lambda>i. encode_endpoint (i, addr i)) ?M)"
  have E: "bt_sorted ?E" "distinct (map fst ?E)" using assms(1) by (auto simp: cm_inv_def bt_sorted_distinct)
  have enc: "cm_encode m = MEMBERSHIP_MAGIC @ u32_le MEMBERSHIP_VERSION @ u32_le (word_of_nat (length ?M)) @ ?mem @ ?tail"
    by (simp add: cm_encode_def Let_def addr_def extras_def)
  have addr_ok: "\<forall>i \<in> set ?M. length (addr i) < 2 ^ 32 \<and> utf8_valid (addr i)"
    using assms by (auto simp: addr_def cm_fits_def cm_inv_def dest!: map_of_SomeD split: option.splits)
  have ext_ok: "\<forall>p \<in> set extras. length (snd p) < 2 ^ 32 \<and> utf8_valid (snd p)" "distinct (map fst extras)"
    using assms(2) E(2) by (auto simp: extras_def cm_fits_def distinct_map_filter)
  have "length extras \<le> length ?E" by (simp add: extras_def)
  then have lens: "unat (word_of_nat (length ?M) :: u32) = length ?M" "unat (word_of_nat (length extras) :: u32) = length extras"
    using assms(2) by (auto simp: cm_fits_def intro!: unat_of_nat_eq)
  define eps where "eps = foldl (\<lambda>m i. bt_insert i (addr i) m) [] ?M"
  have mem: "decode_members (length ?M) (?mem @ ?tail) [] [] = Inr (?tail, ?M, eps)"
    using decode_members_concat [OF addr_ok, of ?tail "[]" "[]"] assms(1)
    by (simp add: foldl_insort_insert cm_inv_def eps_def)
  have none: "\<forall>p \<in> set extras. map_of eps (fst p) = None"
    by (auto simp: eps_def map_of_foldl_bt_insert extras_def)
  have ext: "decode_extras (length extras) (concat (map encode_endpoint extras)) eps =
      foldl (\<lambda>m p. bt_insert (fst p) (snd p) m) eps extras" (is "_ = ?final")
    using decode_extras_concat [OF ext_ok none, of "[]"] by simp
  have "?final = ?E"
  proof (rule bt_sorted_map_of_eqI)
    show "bt_sorted ?final" by (intro bt_sorted_foldl_insert) (simp add: eps_def bt_sorted_foldl_bt_insert)
    show "bt_sorted ?E" by (rule E)
    have "map_of extras k = (if k \<in> set ?M then None else map_of ?E k)" for k
      using map_of_filter_key [of "\<lambda>i. i \<notin> set ?M" ?E k] by (simp add: extras_def)
    then show "map_of ?final k = map_of ?E k" for k
      using assms(1) by (auto simp: map_of_foldl_bt_insert_pairs ext_ok eps_def map_of_foldl_bt_insert
          addr_def cm_inv_def split: option.splits)
  qed
  then show ?thesis
    using mem ext lens by (simp add: enc cm_decode_def MEMBERSHIP_MAGIC_def)
qed

section \<open>Properties\<close>

text \<open>The configuration changes of a membership.\<close>

datatype cm_change = AddNode u64 rust_string | RemoveNode u64

fun cm_apply_change :: "membership \<Rightarrow> cm_change \<Rightarrow> membership" where
  "cm_apply_change m (AddNode i a) = cm_add_node m i a"
| "cm_apply_change m (RemoveNode i) = cm_remove_node m i"

lemma cm_inv_changes: "cm_inv m \<Longrightarrow> cm_inv (foldl cm_apply_change m cs)"
proof (induction cs arbitrary: m)
  case (Cons c cs)
  have "cm_inv (cm_apply_change m c)" using Cons.prems by (cases c) (simp_all add: cm_inv_add cm_inv_remove)
  then show ?case using Cons.IH by simp
qed simp

text \<open>
  C20. Across one single-server change, in either direction, any two quorums share a member; in
  particular two quorums of the same membership do.
\<close>

theorem single_server_change_quorums_meet:
  assumes "cm_inv m" "cm_len m < usize_max" "cm_len (cm_apply_change m c) < usize_max"
    and "is_quorum m Q" "is_quorum m' Q'" "m' = m \<or> m' = cm_apply_change m c"
  shows "Q \<inter> Q' \<noteq> {}"
proof -
  have inv: "cm_inv (cm_apply_change m c)" using assms(1) by (cases c) (auto simp: cm_inv_add cm_inv_remove)
  have "cm_adjacent m m'" using assms(6) by (cases c) (auto simp: cm_adjacent_def one_apart_add one_apart_remove)
  then show ?thesis
    using assms inv by (intro voters.quorums_meet [of m m']) (auto simp: cm_ok_quorum_def)
qed

text \<open>Three voters, one added: \<open>{1, 2}\<close> and \<open>{2, 3, 4}\<close> are quorums before and after.\<close>

lemma single_server_change_quorums_meet_witness:
  "is_quorum (cm_from_endpoints [(1, []), (2, []), (3, [])]) {1, 2} \<and>
   is_quorum (cm_apply_change (cm_from_endpoints [(1, []), (2, []), (3, [])]) (AddNode 4 [])) {2, 3, 4} \<and>
   {1, 2} \<inter> {2, 3, 4 :: u64} \<noteq> {}"
proof -
  let ?m = "cm_from_endpoints [(1, []), (2, []), (3, [])]"
  have m: "cm_members ?m = [1, 2, 3]" "cm_members (cm_apply_change ?m (AddNode 4 [])) = [1, 2, 3, 4]"
    by code_simp+
  then have q: "is_quorum ?m {1, 2}" "is_quorum (cm_apply_change ?m (AddNode 4 [])) {2, 3, 4}"
    by (simp_all add: is_quorum_def cm_quorum_def)
  have "cm_len ?m < usize_max" "cm_len (cm_apply_change ?m (AddNode 4 [])) < usize_max"
    unfolding cm_len_def m by (simp_all add: usize_max_def)
  with single_server_change_quorums_meet [OF cm_inv_from_endpoints _ _ q] q show ?thesis by blast
qed

text \<open>
  The membership blob round-trips for every membership that bootstrapping and configuration
  changes can build, including the endpoints kept for removed members.
\<close>

theorem membership_roundtrip:
  assumes "m = foldl cm_apply_change (cm_from_endpoints eps) cs" "cm_fits m"
  shows "cm_decode (cm_encode m) = Inr m"
  by (rule cm_decode_encode [OF _ assms(2)]) (simp add: assms(1) cm_inv_changes cm_inv_from_endpoints)

lemma membership_roundtrip_witness:
  "cm_decode (cm_encode (foldl cm_apply_change (cm_from_endpoints [(1, [65]), (2, [66])]) [RemoveNode 1])) =
   Inr \<lparr>cm_members = [2], cm_endpoints = [(1, [65]), (2, [66])]\<rparr>"
proof -
  let ?m = "foldl cm_apply_change (cm_from_endpoints [(1, [65]), (2, [66])]) [RemoveNode 1]"
  have m: "?m = \<lparr>cm_members = [2], cm_endpoints = [(1, [65]), (2, [66])]\<rparr>" by code_simp
  have "cm_fits ?m" unfolding m by (simp add: cm_fits_def)
  from membership_roundtrip [OF refl this] m show ?thesis by simp
qed

end
