(* ===== verification/Snapshot_Codec.thy ===== *)
theory Snapshot_Codec
  imports Membership Takyonic_Types
begin

text \<open>
  The snapshot formats of \<open>snapshot.rs\<close>: the metadata record beside the Raft log and the payload
  that \<open>InstallSnapshot\<close> carries, with its membership and its packaged SST files.
\<close>

section \<open>Metadata\<close>

record snapshot_meta =
  sm_index :: u64
  sm_term :: u64

definition meta_encode :: "snapshot_meta \<Rightarrow> bytes" where
  "meta_encode m = u64_le (sm_index m) @ u64_le (sm_term m)"

definition meta_decode :: "bytes \<Rightarrow> snapshot_meta result" where
  "meta_decode bs =
     (if length bs < 16 then Inl (Raft ''SNAPSHOT.meta truncated'')
      else Inr \<lparr>sm_index = u64_of_le (take 8 bs), sm_term = u64_of_le (take 8 (drop 8 bs))\<rparr>)"

text \<open>\<open>SNAPSHOT.meta\<close> is written to a temporary file and renamed, so it is replaced as a whole.\<close>

definition meta_write_to_dir :: "snapshot_meta \<Rightarrow> bytes option \<Rightarrow> bytes option" where
  "meta_write_to_dir m file = Some (meta_encode m)"

definition meta_read_from_dir :: "bytes option \<Rightarrow> snapshot_meta option result" where
  "meta_read_from_dir file =
     (case file of None \<Rightarrow> Inr None | Some bs \<Rightarrow> rbind (meta_decode bs) (\<lambda>m. Inr (Some m)))"

section \<open>Payload\<close>

record snapshot_sst =
  ss_level :: nat
  ss_id :: u64
  ss_smallest :: key
  ss_largest :: key
  ss_data :: bytes

record snapshot_payload =
  sp_last_included_index :: u64
  sp_last_included_term :: u64
  sp_membership :: membership
  sp_files :: "snapshot_sst list"

definition SNAPSHOT_MAGIC :: bytes where
  "SNAPSHOT_MAGIC = lit ''TKYS''"

definition SNAPSHOT_VERSION :: u32 where
  "SNAPSHOT_VERSION = 2"

definition SNAPSHOT_VERSION_V1 :: u32 where
  "SNAPSHOT_VERSION_V1 = 1"

definition encode_sst_file :: "snapshot_sst \<Rightarrow> bytes" where
  "encode_sst_file f =
     u32_le (word_of_nat (ss_level f)) @ u64_le (ss_id f) @
     u32_le (len32 (ss_smallest f)) @ ss_smallest f @ u32_le (len32 (ss_largest f)) @ ss_largest f @
     u64_le (word_of_nat (length (ss_data f))) @ ss_data f"

definition payload_encode :: "snapshot_payload \<Rightarrow> bytes" where
  "payload_encode p =
     (let mem = cm_encode (sp_membership p)
      in SNAPSHOT_MAGIC @ u32_le SNAPSHOT_VERSION @ u64_le (sp_last_included_index p) @
         u64_le (sp_last_included_term p) @ u32_le (len32 mem) @ mem @
         u32_le (word_of_nat (length (sp_files p))) @ concat (map encode_sst_file (sp_files p)))"

text \<open>The membership section of \<open>decode\<close>: present in version 2, empty in version 1.\<close>

definition decode_membership_section :: "u32 \<Rightarrow> bytes \<Rightarrow> (membership \<times> bytes) result" where
  "decode_membership_section version data =
     (if version = SNAPSHOT_VERSION then
        (if length data < 4 then Inl (Raft ''snapshot membership length truncated'')
         else
           let mem_len = unat (u32_of_le (take 4 data)); data = drop 4 data
           in if length data < mem_len then Inl (Raft ''snapshot membership truncated'')
              else rbind (cm_decode (take mem_len data)) (\<lambda>m. Inr (m, drop mem_len data)))
      else if version = SNAPSHOT_VERSION_V1 then Inr (cm_empty, data)
      else Inl (Raft ''unsupported snapshot version''))"

primrec decode_files :: "nat \<Rightarrow> bytes \<Rightarrow> snapshot_sst list \<Rightarrow> snapshot_sst list result" where
  "decode_files 0 data files = Inr files"
| "decode_files (Suc n) data files =
     (if length data < 4 + 8 + 4 then Inl (Raft ''snapshot file header truncated'')
      else
        let level = unat (u32_of_le (take 4 data));
            i = u64_of_le (take 8 (drop 4 data));
            sk_len = unat (u32_of_le (take 4 (drop 12 data)));
            data = drop 16 data
        in if length data < sk_len + 4 then Inl (Raft ''snapshot smallest key truncated'')
           else
             let smallest = take sk_len data;
                 data = drop sk_len data;
                 lk_len = unat (u32_of_le (take 4 data));
                 data = drop 4 data
             in if length data < lk_len + 8 then Inl (Raft ''snapshot largest key truncated'')
                else
                  let largest = take lk_len data;
                      data = drop lk_len data;
                      data_len = unat (u64_of_le (take 8 data));
                      data = drop 8 data
                  in if length data < data_len then Inl (Raft ''snapshot SST body truncated'')
                     else decode_files n (drop data_len data)
                            (files @ [\<lparr>ss_level = level, ss_id = i, ss_smallest = smallest,
                                       ss_largest = largest, ss_data = take data_len data\<rparr>]))"

definition payload_decode :: "bytes \<Rightarrow> snapshot_payload result" where
  "payload_decode data =
     (if length data < 4 + 4 + 8 + 8 + 4 then Inl (Raft ''snapshot payload truncated'')
      else if take 4 data \<noteq> SNAPSHOT_MAGIC then Inl (Raft ''bad snapshot magic'')
      else
        let version = u32_of_le (take 4 (drop 4 data));
            index = u64_of_le (take 8 (drop 8 data));
            term' = u64_of_le (take 8 (drop 16 data))
        in rbind (decode_membership_section version (drop 24 data)) (\<lambda>(m, data).
             if length data < 4 then Inl (Raft ''snapshot file count truncated'')
             else rbind (decode_files (unat (u32_of_le (take 4 data))) (drop 4 data) [])
                    (\<lambda>files. Inr \<lparr>sp_last_included_index = index, sp_last_included_term = term',
                                  sp_membership = m, sp_files = files\<rparr>)))"

section \<open>Round trips\<close>

lemma meta_decode_encode: "meta_decode (meta_encode m) = Inr m"
  by (simp add: meta_decode_def meta_encode_def)

text \<open>Payloads whose lengths fit their fields.\<close>

definition sst_file_fits :: "snapshot_sst \<Rightarrow> bool" where
  "sst_file_fits f \<longleftrightarrow> ss_level f < 2 ^ 32 \<and> length (ss_smallest f) < 2 ^ 32 \<and>
     length (ss_largest f) < 2 ^ 32 \<and> length (ss_data f) < 2 ^ 64"

definition payload_fits :: "snapshot_payload \<Rightarrow> bool" where
  "payload_fits p \<longleftrightarrow> cm_inv (sp_membership p) \<and> cm_fits (sp_membership p) \<and>
     length (cm_encode (sp_membership p)) < 2 ^ 32 \<and> length (sp_files p) < 2 ^ 32 \<and>
     (\<forall>f \<in> set (sp_files p). sst_file_fits f)"

lemma drop_lens: "length a = n \<Longrightarrow> drop (n + k) (a @ b) = drop k b"
  by simp

lemma decode_files_step:
  assumes "sst_file_fits f"
  shows "decode_files (Suc n) (encode_sst_file f @ rest) acc = decode_files n rest (acc @ [f])"
proof (cases f)
  case (fields level i sk lk dat)
  have "unat (word_of_nat level :: u32) = level" "unat (word_of_nat (length dat) :: u64) = length dat"
    "length sk < 2 ^ 32" "length lk < 2 ^ 32"
    using assms by (auto simp: sst_file_fits_def fields intro!: unat_of_nat_eq)
  then show ?thesis by (simp add: encode_sst_file_def fields Let_def)
qed

lemma decode_files_concat:
  "\<forall>f \<in> set fs. sst_file_fits f \<Longrightarrow>
   decode_files (length fs) (concat (map encode_sst_file fs)) acc = Inr (acc @ fs)"
proof (induction fs arbitrary: acc)
  case (Cons f fs)
  then show ?case
    using decode_files_step [of f "length fs" "concat (map encode_sst_file fs)" acc] by simp
qed simp

lemma payload_decode_encode:
  assumes "payload_fits p"
  shows "payload_decode (payload_encode p) = Inr p"
proof -
  let ?mem = "cm_encode (sp_membership p)"
  let ?files = "u32_le (word_of_nat (length (sp_files p))) @ concat (map encode_sst_file (sp_files p))"
  have enc: "payload_encode p = SNAPSHOT_MAGIC @ u32_le SNAPSHOT_VERSION @ u64_le (sp_last_included_index p) @
      u64_le (sp_last_included_term p) @ u32_le (len32 ?mem) @ ?mem @ ?files"
    by (simp add: payload_encode_def Let_def)
  have mem: "decode_membership_section SNAPSHOT_VERSION (u32_le (len32 ?mem) @ ?mem @ ?files) =
      Inr (sp_membership p, ?files)"
    using assms cm_decode_encode [of "sp_membership p"]
    by (simp add: decode_membership_section_def payload_fits_def Let_def)
  have n: "unat (word_of_nat (length (sp_files p)) :: u32) = length (sp_files p)"
    using assms by (auto simp: payload_fits_def intro!: unat_of_nat_eq)
  have files: "decode_files (length (sp_files p)) (concat (map encode_sst_file (sp_files p))) [] = Inr (sp_files p)"
    using decode_files_concat [of "sp_files p" "[]"] assms by (simp add: payload_fits_def)
  have "drop 24 (payload_encode p) = u32_le (len32 ?mem) @ ?mem @ ?files"
    by (simp add: enc SNAPSHOT_MAGIC_def)
  moreover have "take 4 (payload_encode p) = SNAPSHOT_MAGIC" "take 4 (drop 4 (payload_encode p)) = u32_le SNAPSHOT_VERSION"
    "take 8 (drop 8 (payload_encode p)) = u64_le (sp_last_included_index p)"
    "take 8 (drop 16 (payload_encode p)) = u64_le (sp_last_included_term p)"
    "\<not> length (payload_encode p) < 28"
    by (simp_all add: enc SNAPSHOT_MAGIC_def)
  ultimately show ?thesis using mem n files by (simp add: payload_decode_def)
qed

section \<open>Properties\<close>

text \<open>
  The snapshot payload round-trips: indices, membership and every packaged SST file come back
  as they were encoded.
\<close>

theorem snapshot_payload_roundtrip:
  assumes "payload_fits p"
  shows "payload_decode (payload_encode p) = Inr p"
  using assms by (rule payload_decode_encode)

lemma snapshot_payload_roundtrip_witness:
  "payload_decode (payload_encode \<lparr>sp_last_included_index = 9, sp_last_included_term = 2,
     sp_membership = cm_from_endpoints [(1, [65])],
     sp_files = [\<lparr>ss_level = 1, ss_id = 4, ss_smallest = [1], ss_largest = [2], ss_data = [7, 7]\<rparr>]\<rparr>) =
   Inr \<lparr>sp_last_included_index = 9, sp_last_included_term = 2, sp_membership = cm_from_endpoints [(1, [65])],
     sp_files = [\<lparr>ss_level = 1, ss_id = 4, ss_smallest = [1], ss_largest = [2], ss_data = [7, 7]\<rparr>]\<rparr>"
  by (rule snapshot_payload_roundtrip)
    (simp add: payload_fits_def cm_inv_def bt_sorted_def sst_file_fits_def cm_fits_def cm_from_endpoints_def
      cm_encode_def encode_endpoint_def MEMBERSHIP_MAGIC_def Let_def)

end
