(* ===== verification/Raft_Log.thy ===== *)
theory Raft_Log
  imports Group_Commit Raft_Sm Snapshot_Codec
begin

text \<open>
  The replicated log of \<open>raft_log.rs\<close>: the entries in memory, the group-committed segment
  \<open>raft.log\<close> that shadows them, and the compaction boundary in \<open>SNAPSHOT.meta\<close>. The log is shown
  to refine an uncompacted list of entries, and reopening it after a crash at any stage of an
  append or a compaction is shown to give the log before or after that operation.
\<close>

section \<open>Entries\<close>

record log_entry =
  le_term :: u64
  le_index :: u64
  le_command :: bytes

definition to_wal_entry :: "log_entry \<Rightarrow> entry" where
  "to_wal_entry e =
     entry_put (u64_be (le_index e)) (u64_le (le_term e) @ le_command e) (le_index e)"

definition from_wal_entry :: "entry \<Rightarrow> log_entry result" where
  "from_wal_entry e =
     (case e_value e of
        None \<Rightarrow> Inl (Raft ''raft log entry missing value'')
      | Some v \<Rightarrow>
          if length v < 8 then Inl (Raft ''raft log value truncated'')
          else Inr \<lparr>le_term = u64_of_le (take 8 v), le_index = e_seq e, le_command = drop 8 v\<rparr>)"

section \<open>State\<close>

text \<open>What the directory of a log holds, and an open log: its memory and its files.\<close>

record raft_dir =
  rd_log :: "disk_file option"
  rd_tmp :: "disk_file option"
  rd_meta :: "bytes option"

record raft_log =
  rl_entries :: "log_entry list"
  rl_snapshot :: snapshot_meta
  rl_wal :: disk_file
  rl_tmp :: "disk_file option"
  rl_meta :: "bytes option"

definition rl_disk :: "raft_log \<Rightarrow> raft_dir" where
  "rl_disk l = \<lparr>rd_log = Some (rl_wal l), rd_tmp = rl_tmp l, rd_meta = rl_meta l\<rparr>"

definition no_snapshot :: snapshot_meta where
  "no_snapshot = \<lparr>sm_index = 0, sm_term = 0\<rparr>"

text \<open>The replay callback of \<open>open\<close>: undecodable and compacted entries are skipped.\<close>

definition recover_entry :: "u64 \<Rightarrow> log_entry list \<Rightarrow> entry \<Rightarrow> log_entry list" where
  "recover_entry snap recovered e =
     (case from_wal_entry e of
        Inl _ \<Rightarrow> recovered
      | Inr le \<Rightarrow> if snap < le_index le then recovered @ [le] else recovered)"

definition recovered_log :: "u64 \<Rightarrow> log_entry list \<Rightarrow> log_entry list" where
  "recovered_log snap recovered = filter (\<lambda>e. snap < le_index e) (sort_key le_index recovered)"

definition rl_open :: "(bytes \<Rightarrow> u64) \<Rightarrow> raft_dir \<Rightarrow> raft_log result" where
  "rl_open xxh d =
     rbind (meta_read_from_dir (rd_meta d)) (\<lambda>m.
       let snap = (case m of None \<Rightarrow> no_snapshot | Some s \<Rightarrow> s);
           opened = (\<lambda>recovered w. Inr \<lparr>rl_entries = recovered_log (sm_index snap) recovered,
             rl_snapshot = snap, rl_wal = w, rl_tmp = rd_tmp d, rl_meta = rd_meta d\<rparr>)
       in case rd_log d of
            None \<Rightarrow> rbind (wal_create None) (opened [])
          | Some f \<Rightarrow>
              rbind (wal_open (Some (df_bytes f))) (\<lambda>r.
                case wal_replay xxh (recover_entry (sm_index snap)) r [] 0 of
                  (_, _, Inl err) \<Rightarrow> Inl err
                | (r', recovered, Inr _) \<Rightarrow>
                    rbind (wal_open_append (Some
                        (if wr_torn_tail r'
                         then file_sync (file_set_len (unat (wr_last_valid_offset r')) f) else f)))
                      (opened recovered)))"

section \<open>Reads\<close>

definition rl_first_index :: "raft_log \<Rightarrow> u64" where
  "rl_first_index l =
     (case rl_entries l of [] \<Rightarrow> sm_index (rl_snapshot l) + 1 | e # _ \<Rightarrow> le_index e)"

definition rl_last_index :: "raft_log \<Rightarrow> u64" where
  "rl_last_index l =
     (if rl_entries l = [] then sm_index (rl_snapshot l) else le_index (last (rl_entries l)))"

definition rl_last_term :: "raft_log \<Rightarrow> u64" where
  "rl_last_term l =
     (if rl_entries l = [] then sm_term (rl_snapshot l) else le_term (last (rl_entries l)))"

definition rl_len :: "raft_log \<Rightarrow> nat" where
  "rl_len l = length (rl_entries l)"

definition rl_is_empty :: "raft_log \<Rightarrow> bool" where
  "rl_is_empty l \<longleftrightarrow> rl_entries l = []"

definition rl_entry :: "raft_log \<Rightarrow> u64 \<Rightarrow> log_entry option" where
  "rl_entry l index = find (\<lambda>e. le_index e = index) (rl_entries l)"

definition rl_term_at :: "raft_log \<Rightarrow> u64 \<Rightarrow> u64 option" where
  "rl_term_at l index =
     (if index = 0 then Some 0
      else
        let snap = rl_snapshot l in
        if index = sm_index snap \<and> 0 < sm_index snap then Some (sm_term snap)
        else if index \<le> sm_index snap then None
        else map_option le_term (find (\<lambda>e. le_index e = index) (rl_entries l)))"

definition rl_entries_from :: "raft_log \<Rightarrow> u64 \<Rightarrow> log_entry list" where
  "rl_entries_from l start = filter (\<lambda>e. start \<le> le_index e) (rl_entries l)"

definition rl_is_up_to_date :: "raft_log \<Rightarrow> u64 \<Rightarrow> u64 \<Rightarrow> bool" where
  "rl_is_up_to_date l last_index last_term \<longleftrightarrow>
     rl_last_term l < last_term \<or> last_term = rl_last_term l \<and> rl_last_index l \<le> last_index"

section \<open>Appending and truncating\<close>

text \<open>
  The outcome of the group commit is an input: \<open>None\<close> when the write and the sync succeed,
  \<open>Some n\<close> when they fail after \<open>n\<close> bytes.
\<close>

primrec check_indices :: "u64 \<Rightarrow> log_entry list \<Rightarrow> unit result" where
  "check_indices expected [] = Inr ()"
| "check_indices expected (e # es) =
     (if le_index e \<noteq> expected then Inl (Raft ''raft log append gap'')
      else check_indices (expected + 1) es)"

definition rl_store ::
  "(bytes \<Rightarrow> u64) \<Rightarrow> nat option \<Rightarrow> raft_log \<Rightarrow> log_entry list \<Rightarrow> raft_log \<times> unit result"
where
  "rl_store xxh io l es =
     (case wal_submit xxh io (map to_wal_entry es) (rl_wal l) of
        (w, Inl err) \<Rightarrow> (l\<lparr>rl_wal := w\<rparr>, Inl err)
      | (w, Inr _) \<Rightarrow> (l\<lparr>rl_wal := w, rl_entries := rl_entries l @ es\<rparr>, Inr ()))"

definition rl_append_batch ::
  "(bytes \<Rightarrow> u64) \<Rightarrow> nat option \<Rightarrow> raft_log \<Rightarrow> log_entry list \<Rightarrow> raft_log \<times> unit result"
where
  "rl_append_batch xxh io l es =
     (if es = [] then (l, Inr ())
      else case check_indices (rl_last_index l + 1) es of
             Inl err \<Rightarrow> (l, Inl err)
           | Inr _ \<Rightarrow> rl_store xxh io l es)"

definition rl_append :: "(bytes \<Rightarrow> u64) \<Rightarrow> nat option \<Rightarrow> raft_log \<Rightarrow> log_entry \<Rightarrow> raft_log \<times> unit result" where
  "rl_append xxh io l e = rl_append_batch xxh io l [e]"

definition command_entries :: "u64 \<Rightarrow> u64 \<Rightarrow> bytes list \<Rightarrow> log_entry list" where
  "command_entries trm start commands =
     map (\<lambda>(i, cmd). \<lparr>le_term = trm, le_index = start + word_of_nat i, le_command = cmd\<rparr>)
       (enumerate 0 commands)"

definition rl_append_commands ::
  "(bytes \<Rightarrow> u64) \<Rightarrow> nat option \<Rightarrow> raft_log \<Rightarrow> u64 \<Rightarrow> bytes list \<Rightarrow> raft_log \<times> u64 result"
where
  "rl_append_commands xxh io l trm commands =
     (if commands = [] then (l, Inr (rl_last_index l))
      else
        let start = rl_last_index l + 1 in
        case rl_store xxh io l (command_entries trm start commands) of
          (l', Inl err) \<Rightarrow> (l', Inl err)
        | (l', Inr _) \<Rightarrow> (l', Inr start))"

definition rl_truncate_after :: "raft_log \<Rightarrow> u64 \<Rightarrow> raft_log" where
  "rl_truncate_after l index = l\<lparr>rl_entries := filter (\<lambda>e. le_index e \<le> index) (rl_entries l)\<rparr>"

section \<open>Compaction\<close>

text \<open>
  The tail that \<open>compact_through\<close> and \<open>install_snapshot\<close> share: write the boundary, write the
  remaining entries to \<open>raft.log.tmp\<close>, which must not exist yet, and rename it over \<open>raft.log\<close>.
\<close>

definition segment_of :: "(bytes \<Rightarrow> u64) \<Rightarrow> disk_file \<Rightarrow> log_entry list \<Rightarrow> disk_file" where
  "segment_of xxh w remaining =
     (if remaining \<noteq> [] then wal_append_batch_sync xxh w (map to_wal_entry remaining) else wal_sync w)"

definition rl_rewrite ::
  "(bytes \<Rightarrow> u64) \<Rightarrow> snapshot_meta \<Rightarrow> log_entry list \<Rightarrow> raft_log \<Rightarrow> raft_log \<times> unit result"
where
  "rl_rewrite xxh meta remaining l =
     (let l1 = l\<lparr>rl_meta := meta_write_to_dir meta (rl_meta l)\<rparr> in
      case wal_create (rl_tmp l1) of
        Inl err \<Rightarrow> (l1, Inl err)
      | Inr w \<Rightarrow> (l1\<lparr>rl_wal := segment_of xxh w remaining, rl_snapshot := meta, rl_entries := remaining\<rparr>,
                 Inr ()))"

definition rl_compact_through ::
  "(bytes \<Rightarrow> u64) \<Rightarrow> raft_log \<Rightarrow> u64 \<Rightarrow> u64 \<Rightarrow> raft_log \<times> unit result"
where
  "rl_compact_through xxh l index trm =
     (if index = 0 then (l, Inr ())
      else if index \<le> sm_index (rl_snapshot l) then (l, Inr ())
      else if map_option le_term (find (\<lambda>e. le_index e = index) (rl_entries l)) \<noteq> Some trm then
        (l, Inl (Raft ''compact term mismatch''))
      else rl_rewrite xxh \<lparr>sm_index = index, sm_term = trm\<rparr>
             (filter (\<lambda>e. index < le_index e) (rl_entries l)) l)"

definition rl_install_snapshot ::
  "(bytes \<Rightarrow> u64) \<Rightarrow> raft_log \<Rightarrow> u64 \<Rightarrow> u64 \<Rightarrow> raft_log \<times> unit result"
where
  "rl_install_snapshot xxh l index trm = rl_rewrite xxh \<lparr>sm_index = index, sm_term = trm\<rparr> [] l"

section \<open>The log as an uncompacted list\<close>

text \<open>
  The specification: all entries ever appended and not truncated, from index 1 on, and how many
  of them the snapshot covers.
\<close>

type_synonym abs_log = "log_entry list \<times> nat"

abbreviation idx :: "log_entry \<Rightarrow> nat" where
  "idx \<equiv> \<lambda>e. unat (le_index e)"

definition rl_refines :: "abs_log \<Rightarrow> raft_log \<Rightarrow> bool" where
  "rl_refines A l \<longleftrightarrow>
     (let (G, s) = A in
      length G < 2 ^ 64 \<and> s \<le> length G \<and> consec idx (Suc 0) G \<and> unat (sm_index (rl_snapshot l)) = s \<and>
      rl_entries l = drop s G \<and> sm_term (rl_snapshot l) = (if s = 0 then 0 else le_term (G ! (s - 1))))"

definition al_last_term :: "abs_log \<Rightarrow> u64" where
  "al_last_term A = (if fst A = [] then 0 else le_term (last (fst A)))"

definition al_term_at :: "abs_log \<Rightarrow> nat \<Rightarrow> u64 option" where
  "al_term_at A i =
     (if i = 0 then Some 0
      else if snd A \<le> i \<and> i \<le> length (fst A) then Some (le_term (fst A ! (i - 1))) else None)"

definition al_entry :: "abs_log \<Rightarrow> nat \<Rightarrow> log_entry option" where
  "al_entry A i = (if snd A < i \<and> i \<le> length (fst A) then Some (fst A ! (i - 1)) else None)"

datatype rl_op =
    OpAppend "nat option" "log_entry list"
  | OpCommands "nat option" u64 "bytes list"
  | OpTruncate u64
  | OpCompact u64 u64
  | OpInstall u64 u64

fun rl_step :: "(bytes \<Rightarrow> u64) \<Rightarrow> raft_log \<Rightarrow> rl_op \<Rightarrow> raft_log" where
  "rl_step xxh l (OpAppend io es) = fst (rl_append_batch xxh io l es)"
| "rl_step xxh l (OpCommands io trm cmds) = fst (rl_append_commands xxh io l trm cmds)"
| "rl_step xxh l (OpTruncate i) = rl_truncate_after l i"
| "rl_step xxh l (OpCompact i trm) = fst (rl_compact_through xxh l i trm)"
| "rl_step xxh l (OpInstall i trm) = fst (rl_install_snapshot xxh l i trm)"

text \<open>
  The entries an installed snapshot covers are not known locally; only the term of the last one
  is, and they are never read.
\<close>

definition covered :: "u64 \<Rightarrow> u64 \<Rightarrow> log_entry list" where
  "covered i trm =
     map (\<lambda>k. \<lparr>le_term = trm, le_index = word_of_nat k, le_command = []\<rparr>) [1 ..< Suc (unat i)]"

fun al_step :: "bool \<Rightarrow> abs_log \<Rightarrow> rl_op \<Rightarrow> abs_log" where
  "al_step tmp_free (G, s) (OpAppend io es) =
     (if io = None \<and> consec idx (Suc (length G)) es then (G @ es, s) else (G, s))"
| "al_step tmp_free (G, s) (OpCommands io trm cmds) =
     (if io = None then (G @ command_entries trm (word_of_nat (Suc (length G))) cmds, s) else (G, s))"
| "al_step tmp_free (G, s) (OpTruncate i) = (take (max s (unat i)) G, s)"
| "al_step tmp_free (G, s) (OpCompact i trm) =
     (if tmp_free \<and> s < unat i \<and> al_term_at (G, s) (unat i) = Some trm then (G, unat i) else (G, s))"
| "al_step tmp_free (G, s) (OpInstall i trm) = (if tmp_free then (covered i trm, unat i) else (G, s))"

text \<open>What an operation must satisfy: indices stay below \<open>2 ^ 64\<close>.\<close>

fun op_fits :: "abs_log \<Rightarrow> rl_op \<Rightarrow> bool" where
  "op_fits A (OpAppend io es) \<longleftrightarrow> length (fst A) + length es < 2 ^ 64"
| "op_fits A (OpCommands io trm cmds) \<longleftrightarrow> length (fst A) + length cmds < 2 ^ 64"
| "op_fits A (OpInstall i trm) \<longleftrightarrow> i \<noteq> 0"
| "op_fits A _ \<longleftrightarrow> True"

lemma rl_refinesD:
  assumes "rl_refines (G, s) l"
  shows "length G < 2 ^ 64" "s \<le> length G" "consec idx (Suc 0) G" "unat (sm_index (rl_snapshot l)) = s"
    "rl_entries l = drop s G" "sm_term (rl_snapshot l) = (if s = 0 then 0 else le_term (G ! (s - 1)))"
  using assms by (auto simp: rl_refines_def)

lemma consec_drop_idx: "rl_refines (G, s) l \<Longrightarrow> consec idx (Suc s) (drop s G)"
  using consec_drop [of idx "Suc 0" G s] by (auto dest: rl_refinesD)

lemma rl_last_index_refines:
  assumes "rl_refines (G, s) l"
  shows "unat (rl_last_index l) = length G"
proof (cases "s = length G")
  case False
  note D = rl_refinesD [OF assms]
  have "G \<noteq> []" "\<not> length G \<le> s" using False D(2) by auto
  then show ?thesis using D(3,5) consec_last [of idx "Suc 0" G] by (simp add: rl_last_index_def)
qed (use rl_refinesD [OF assms] in \<open>simp add: rl_last_index_def\<close>)

lemma rl_last_index_word:
  "rl_refines (G, s) l \<Longrightarrow> rl_last_index l + 1 = word_of_nat (Suc (length G))"
  using rl_last_index_refines [of G s l] word_arith_nat_add [of "rl_last_index l" 1] by simp

lemma rl_last_term_refines:
  assumes "rl_refines (G, s) l"
  shows "rl_last_term l = al_last_term (G, s)"
  using rl_refinesD [OF assms]
  by (cases "s = length G") (auto simp: rl_last_term_def al_last_term_def last_conv_nth)

lemma idx_eq: "(\<lambda>e. le_index e = i) = (\<lambda>e. idx e = unat i)"
  by (auto simp: word_unat_eq_iff)

lemma rl_find_refines:
  assumes "rl_refines (G, s) l"
  shows "find (\<lambda>e. le_index e = i) (rl_entries l) = al_entry (G, s) (unat i)"
  using rl_refinesD [OF assms] consec_find [OF consec_drop_idx [OF assms], of "unat i"]
  by (auto simp: idx_eq al_entry_def)

lemma rl_entry_refines: "rl_refines (G, s) l \<Longrightarrow> rl_entry l i = al_entry (G, s) (unat i)"
  by (simp add: rl_entry_def rl_find_refines)

lemma rl_term_at_refines:
  assumes "rl_refines (G, s) l"
  shows "rl_term_at l i = al_term_at (G, s) (unat i)"
proof -
  note D = rl_refinesD [OF assms]
  have "i = sm_index (rl_snapshot l) \<longleftrightarrow> unat i = s" "i \<le> sm_index (rl_snapshot l) \<longleftrightarrow> unat i \<le> s"
    "0 < sm_index (rl_snapshot l) \<longleftrightarrow> 0 < s" "i = 0 \<longleftrightarrow> unat i = 0"
    using D(4) by (auto simp: word_le_nat_alt word_less_nat_alt word_unat_eq_iff)
  then show ?thesis
    using D(2,6) by (auto simp: rl_term_at_def al_term_at_def rl_find_refines [OF assms] al_entry_def Let_def)
qed

lemma rl_entries_from_refines:
  assumes "rl_refines (G, s) l"
  shows "rl_entries_from l i = drop (max s (unat i - 1)) G"
proof -
  have "rl_entries_from l i = filter (\<lambda>e. unat i \<le> idx e) (drop s G)"
    by (simp add: rl_entries_from_def rl_refinesD(5) [OF assms] word_le_nat_alt)
  also have "\<dots> = drop (unat i - Suc s) (drop s G)"
    by (rule consec_filter_ge [OF consec_drop_idx [OF assms]])
  also have "unat i - Suc s + s = max s (unat i - 1)" by simp
  then have "drop (unat i - Suc s) (drop s G) = drop (max s (unat i - 1)) G" by simp
  finally show ?thesis .
qed

text \<open>Each operation refines its abstract counterpart.\<close>

lemma check_indices_consec:
  assumes "n + length es < 2 ^ 64"
  shows "check_indices (word_of_nat (Suc n)) es = (if consec idx (Suc n) es then Inr () else Inl (Raft ''raft log append gap''))"
  using assms
proof (induction es arbitrary: n)
  case (Cons e es)
  have "le_index e = word_of_nat (Suc n) \<longleftrightarrow> idx e = Suc n"
    using Cons.prems by (simp add: word_unat_eq_iff unat_of_nat_eq del: of_nat_Suc)
  moreover have "(word_of_nat (Suc n) :: u64) + 1 = word_of_nat (Suc (Suc n))" by simp
  ultimately show ?case using Cons by (simp del: of_nat_Suc)
qed simp

lemma rl_store_ok:
  "snd (rl_store xxh None l es) = Inr ()" "rl_entries (fst (rl_store xxh None l es)) = rl_entries l @ es"
  "rl_snapshot (fst (rl_store xxh io l es)) = rl_snapshot l" "rl_tmp (fst (rl_store xxh io l es)) = rl_tmp l"
  "rl_meta (fst (rl_store xxh io l es)) = rl_meta l"
  "es \<noteq> [] \<Longrightarrow> rl_entries (fst (rl_store xxh (Some n) l es)) = rl_entries l"
  by (auto simp: rl_store_def wal_submit_def split: option.splits)

lemma rl_refines_append:
  assumes "rl_refines (G, s) l" "length G + length es < 2 ^ 64" "consec idx (Suc (length G)) es"
    and "rl_entries l' = rl_entries l @ es" "rl_snapshot l' = rl_snapshot l"
  shows "rl_refines (G @ es, s) l'"
  using rl_refinesD [OF assms(1)] assms(2-) by (auto simp: rl_refines_def nth_append)

lemma rl_refines_same:
  "rl_refines A l \<Longrightarrow> rl_entries l' = rl_entries l \<Longrightarrow> rl_snapshot l' = rl_snapshot l \<Longrightarrow> rl_refines A l'"
  by (simp add: rl_refines_def)

lemma length_command_entries [simp]: "length (command_entries trm start cmds) = length cmds"
  by (simp add: command_entries_def)

lemma consec_command_entries:
  assumes "n + length cmds < 2 ^ 64"
  shows "consec idx (Suc n) (command_entries trm (word_of_nat (Suc n)) cmds)"
proof -
  have "consec idx (Suc n + k) (map (\<lambda>(i, cmd). \<lparr>le_term = trm, le_index = word_of_nat (Suc n) + word_of_nat i, le_command = cmd\<rparr>)
      (enumerate k cmds))" if "n + k + length cmds < 2 ^ 64" for k
    using that
  proof (induction cmds arbitrary: k)
    case (Cons c cmds)
    have "(word_of_nat (Suc n) :: u64) + word_of_nat k = word_of_nat (Suc n + k)" by simp
    moreover have "unat (word_of_nat (Suc n + k) :: u64) = Suc n + k"
      using Cons.prems by (intro unat_of_nat_eq) simp
    ultimately show ?case using Cons.IH [of "Suc k"] Cons.prems by (simp del: of_nat_Suc of_nat_add)
  qed simp
  from this [of 0] assms show ?thesis by (simp add: command_entries_def)
qed

lemma consec_covered: "consec idx (Suc 0) (covered i trm)"
proof -
  have "consec idx a (map (\<lambda>k. \<lparr>le_term = trm, le_index = word_of_nat k, le_command = []\<rparr>) [a ..< b])"
    if "b \<le> 2 ^ 64" for a b
    using that
  proof (induction "b - a" arbitrary: a)
    case (Suc n)
    then have "unat (word_of_nat a :: u64) = a" by (intro unat_of_nat_eq) simp
    with Suc show ?case by (simp add: upt_conv_Cons)
  qed simp
  moreover have "Suc (unat i) \<le> 2 ^ 64" using unat_lt2p [of i] by simp
  ultimately show ?thesis by (simp add: covered_def)
qed

lemma rl_refines_truncate:
  assumes "rl_refines (G, s) l"
  shows "rl_refines (take (max s (unat i)) G, s) (rl_truncate_after l i)"
proof -
  note D = rl_refinesD [OF assms]
  have "rl_entries (rl_truncate_after l i) = filter (\<lambda>e. idx e < Suc (unat i)) (drop s G)"
    by (simp add: rl_truncate_after_def D(5) word_le_nat_alt less_Suc_eq_le)
  also have "\<dots> = take (Suc (unat i) - Suc s) (drop s G)"
    by (rule consec_filter_less [OF consec_drop_idx [OF assms]])
  also have "\<dots> = drop s (take (max s (unat i)) G)"
    by (simp add: drop_take max_def)
  finally have e: "rl_entries (rl_truncate_after l i) = drop s (take (max s (unat i)) G)" .
  have "s \<noteq> 0 \<Longrightarrow> take (max s (unat i)) G ! (s - 1) = G ! (s - 1)" by (intro nth_take) linarith
  then show ?thesis using D e by (auto simp: rl_refines_def rl_truncate_after_def consec_take)
qed

lemma wal_create_None: "wal_create None = Inr \<lparr>df_bytes = wal_header, df_synced = 5\<rparr>"
  by (simp add: wal_create_def file_append_def file_sync_def wal_header_def WAL_MAGIC_def)

lemma rl_rewrite_cases:
  "rl_rewrite xxh meta remaining l =
     (if rl_tmp l = None
      then (l\<lparr>rl_meta := Some (meta_encode meta), rl_wal := segment_of xxh
               \<lparr>df_bytes = wal_header, df_synced = 5\<rparr> remaining, rl_snapshot := meta, rl_entries := remaining\<rparr>, Inr ())
      else (l\<lparr>rl_meta := Some (meta_encode meta)\<rparr>, Inl (Io AlreadyExists)))"
proof (cases "rl_tmp l")
  case None
  then show ?thesis by (simp add: rl_rewrite_def meta_write_to_dir_def wal_create_None Let_def)
qed (simp add: rl_rewrite_def meta_write_to_dir_def wal_create_def Let_def)

lemma rl_compact_cases:
  assumes "rl_refines (G, s) l"
  shows "rl_compact_through xxh l i trm =
    (if unat i \<le> s then (l, Inr ())
     else if al_term_at (G, s) (unat i) = Some trm
     then rl_rewrite xxh \<lparr>sm_index = i, sm_term = trm\<rparr> (drop (unat i) G) l
     else (l, Inl (Raft ''compact term mismatch'')))"
proof -
  note D = rl_refinesD [OF assms]
  have "filter (\<lambda>e. i < le_index e) (rl_entries l) = filter (\<lambda>e. Suc (unat i) \<le> idx e) (drop s G)"
    by (simp add: D(5) word_less_nat_alt Suc_le_eq)
  also have "\<dots> = drop (unat i - s) (drop s G)"
    using consec_filter_ge [OF consec_drop_idx [OF assms], of "Suc (unat i)"] by simp
  finally have f: "unat i > s \<Longrightarrow> filter (\<lambda>e. i < le_index e) (rl_entries l) = drop (unat i) G" by simp
  have "i \<le> sm_index (rl_snapshot l) \<longleftrightarrow> unat i \<le> s" "i = 0 \<longleftrightarrow> unat i = 0"
    using D(4) by (auto simp: word_le_nat_alt word_unat_eq_iff)
  then show ?thesis
    using f by (auto simp: rl_compact_through_def rl_find_refines [OF assms] al_entry_def al_term_at_def)
qed

lemma rl_refines_compact:
  assumes "rl_refines (G, s) l"
  shows "rl_refines (al_step (rl_tmp l = None) (G, s) (OpCompact i trm)) (fst (rl_compact_through xxh l i trm))"
  using rl_refinesD [OF assms] assms
  by (auto simp: rl_compact_cases [OF assms] rl_rewrite_cases al_term_at_def rl_refines_def split: if_splits)

lemma rl_refines_install:
  assumes "rl_refines A l" "i \<noteq> 0"
  shows "rl_refines (al_step (rl_tmp l = None) A (OpInstall i trm)) (fst (rl_install_snapshot xxh l i trm))"
proof -
  have "unat i \<noteq> 0" using assms(2) by (simp add: word_unat_eq_iff)
  then have "length (covered i trm) = unat i" "le_term (covered i trm ! (unat i - 1)) = trm"
    by (auto simp: covered_def nth_append)
  then show ?thesis
    using assms consec_covered [of i trm] unat_lt2p [of i] \<open>unat i \<noteq> 0\<close>
    by (cases A) (auto simp: rl_install_snapshot_def rl_rewrite_cases rl_refines_def)
qed

lemma rl_append_batch_cases:
  assumes "rl_refines (G, s) l" "length G + length es < 2 ^ 64"
  shows "rl_append_batch xxh io l es =
    (if es = [] then (l, Inr ())
     else if consec idx (Suc (length G)) es then rl_store xxh io l es
     else (l, Inl (Raft ''raft log append gap'')))"
  using check_indices_consec [OF assms(2)] rl_last_index_word [OF assms(1)]
  by (simp add: rl_append_batch_def del: of_nat_Suc)

lemma rl_step_refines:
  assumes "rl_refines A l" "op_fits A op"
  shows "rl_refines (al_step (rl_tmp l = None) A op) (rl_step xxh l op)"
proof (cases A)
  case (Pair G s)
  with assms have A: "rl_refines (G, s) l" by simp
  show ?thesis
  proof (cases op)
    case (OpAppend io es)
    then have "length G + length es < 2 ^ 64" using assms(2) Pair by simp
    then show ?thesis
      using A OpAppend Pair rl_refines_append [OF A, of es "fst (rl_store xxh io l es)"]
        rl_refines_same [OF A, of "fst (rl_store xxh io l es)"]
      by (cases io) (auto simp: rl_append_batch_cases rl_store_ok)
  next
    case (OpCommands io trm cmds)
    let ?es = "command_entries trm (word_of_nat (Suc (length G))) cmds"
    have fits: "length G + length cmds < 2 ^ 64" using assms(2) OpCommands Pair by simp
    have "rl_refines (if io = None then (G @ ?es, s) else (G, s)) (fst (rl_store xxh io l ?es))" if "cmds \<noteq> []"
    proof (cases io)
      case None
      then show ?thesis
        using rl_refines_append [OF A _ consec_command_entries [OF fits]] fits by (simp add: rl_store_ok del: of_nat_Suc)
    next
      case (Some n)
      moreover have "?es \<noteq> []" using that by (metis length_0_conv length_command_entries)
      ultimately show ?thesis using rl_refines_same [OF A] by (simp add: rl_store_ok del: of_nat_Suc)
    qed
    then show ?thesis
      using A OpCommands Pair rl_last_index_word [OF A]
      by (auto simp: rl_append_commands_def command_entries_def Let_def split: prod.splits sum.splits
          simp del: of_nat_Suc)
  next
    case (OpTruncate i)
    then show ?thesis using rl_refines_truncate [OF A] Pair by simp
  next
    case (OpCompact i trm)
    then show ?thesis using rl_refines_compact [OF A] Pair by simp
  next
    case (OpInstall i trm)
    then show ?thesis using rl_refines_install [OF A] assms(2) Pair by simp
  qed
qed

section \<open>Crash safety\<close>

text \<open>Entries whose record the reader accepts.\<close>

definition log_ok :: "log_entry \<Rightarrow> bool" where
  "log_ok e \<longleftrightarrow> length (le_command e) + 33 \<le> MAX_WAL_RECORD"

abbreviation log_bytes :: "(bytes \<Rightarrow> u64) \<Rightarrow> log_entry list \<Rightarrow> bytes" where
  "log_bytes xxh es \<equiv> wal_bytes xxh (map to_wal_entry es)"

text \<open>The files of a log hold its boundary and, synced, its entries; older entries may precede them.\<close>

definition meta_ok :: "snapshot_meta \<Rightarrow> bytes option \<Rightarrow> bool" where
  "meta_ok snap meta \<longleftrightarrow> meta = Some (meta_encode snap) \<or> meta = None \<and> snap = no_snapshot"

definition holds :: "(bytes \<Rightarrow> u64) \<Rightarrow> log_entry list \<Rightarrow> raft_log \<Rightarrow> bool" where
  "holds xxh ws l \<longleftrightarrow>
     df_bytes (rl_wal l) = wal_header @ log_bytes xxh ws \<and> df_synced (rl_wal l) = length (df_bytes (rl_wal l)) \<and>
     (\<forall>e \<in> set ws. log_ok e) \<and> length (log_bytes xxh ws) < 2 ^ 64 - 5 \<and>
     filter (\<lambda>e. sm_index (rl_snapshot l) < le_index e) ws = rl_entries l \<and>
     consec idx (Suc (unat (sm_index (rl_snapshot l)))) (rl_entries l) \<and> meta_ok (rl_snapshot l) (rl_meta l)"

lemma from_to_wal_entry [simp]: "from_wal_entry (to_wal_entry e) = Inr e"
  by (simp add: from_wal_entry_def to_wal_entry_def entry_put_def)

lemma wal_ok_to_wal_entry: "log_ok e \<Longrightarrow> wal_ok (to_wal_entry e)"
  by (simp add: wal_ok_def log_ok_def length_encode_body to_wal_entry_def entry_put_def wf_entry_def opt_len_def)

lemma recover_entries:
  "foldl (recover_entry snap) acc (map to_wal_entry ws) = acc @ filter (\<lambda>e. snap < le_index e) ws"
  by (induction ws arbitrary: acc) (auto simp: recover_entry_def)

lemma consec_sorted: "consec idx a xs \<Longrightarrow> sorted (map le_index xs)"
proof (induction xs arbitrary: a)
  case (Cons x xs)
  have "le_index x \<le> le_index y" if "y \<in> set xs" for y
    using consec_set [of idx "Suc a" xs y] that Cons.prems by (simp add: word_le_nat_alt)
  with Cons show ?case by auto
qed simp

lemma recovered_log_consec:
  assumes "consec idx (Suc (unat snap)) es"
  shows "recovered_log snap es = es"
proof -
  have "\<forall>e \<in> set es. snap < le_index e"
    using consec_set [OF assms] by (auto simp: word_less_nat_alt Suc_le_eq)
  then show ?thesis using consec_sorted [OF assms] by (simp add: recovered_log_def sort_key_id_if_sorted)
qed

lemma fitting_map: "fitting sz n (map f xs) = map f (fitting (\<lambda>x. sz (f x)) n xs)"
  by (induction xs arbitrary: n) auto

text \<open>Opening a segment cut at \<open>n\<close> with boundary \<open>snap\<close>.\<close>

lemma rl_open_reads:
  assumes "\<forall>e \<in> set ws. log_ok e" "length (log_bytes xxh ws) < 2 ^ 64 - 5" "5 \<le> n"
    and "rd_log d = Some f" "df_bytes f = take n (wal_header @ log_bytes xxh ws)" "df_synced f = length (df_bytes f)"
    and "meta_ok snap (rd_meta d)"
  defines "fit \<equiv> fitting (\<lambda>e. wal_size xxh (to_wal_entry e)) (n - 5) ws"
  shows "\<exists>l. rl_open xxh d = Inr l \<and> rl_snapshot l = snap \<and> rl_meta l = rd_meta d \<and>
    rl_entries l = recovered_log (sm_index snap) (filter (\<lambda>e. sm_index snap < le_index e) fit) \<and>
    df_bytes (rl_wal l) = wal_header @ log_bytes xxh fit \<and> df_synced (rl_wal l) = length (df_bytes (rl_wal l))"
proof -
  let ?es = "filter (\<lambda>e. sm_index snap < le_index e) fit"
  obtain m where meta: "meta_read_from_dir (rd_meta d) = Inr m" "(case m of None \<Rightarrow> no_snapshot | Some s \<Rightarrow> s) = snap"
    using assms(7) by (auto simp: meta_ok_def meta_read_from_dir_def meta_decode_encode)
  obtain r r' c where r: "wal_open (Some (df_bytes f)) = Inr r"
    "wal_replay xxh (recover_entry (sm_index snap)) r [] 0 = (r', ?es, Inr c)"
    "df_bytes (if wr_torn_tail r' then file_sync (file_set_len (unat (wr_last_valid_offset r')) f) else f) =
      wal_header @ log_bytes xxh fit"
    using wal_reopen_cut [of "map to_wal_entry ws" xxh n f "recover_entry (sm_index snap)" "[]"] assms(1-3,5)
    unfolding fit_def
    by (auto simp: fitting_map wal_ok_to_wal_entry recover_entries simp del: map_map)
  define w where "w = (if wr_torn_tail r' then file_sync (file_set_len (unat (wr_last_valid_offset r')) f) else f)"
  have "df_synced w = length (df_bytes w)" using assms(6) by (simp add: w_def file_sync_def)
  moreover have "rl_open xxh d = Inr \<lparr>rl_entries = recovered_log (sm_index snap) ?es, rl_snapshot = snap, rl_wal = w,
      rl_tmp = rd_tmp d, rl_meta = rd_meta d\<rparr>"
    using meta r(1,2) assms(4) unfolding w_def by (simp add: rl_open_def Let_def wal_open_append_def)
  ultimately show ?thesis using r(3) unfolding w_def [symmetric] by auto
qed

lemma rl_open_cut:
  assumes "\<forall>e \<in> set ws. log_ok e" "length (log_bytes xxh ws) < 2 ^ 64 - 5" "5 \<le> n"
    and "rd_log d = Some f" "df_bytes f = take n (wal_header @ log_bytes xxh ws)" "df_synced f = length (df_bytes f)"
    and "meta_ok snap (rd_meta d)"
  defines "fit \<equiv> fitting (\<lambda>e. wal_size xxh (to_wal_entry e)) (n - 5) ws"
  assumes "consec idx (Suc (unat (sm_index snap))) (filter (\<lambda>e. sm_index snap < le_index e) fit)"
  shows "\<exists>l. rl_open xxh d = Inr l \<and> holds xxh fit l \<and> rl_snapshot l = snap \<and>
    rl_entries l = filter (\<lambda>e. sm_index snap < le_index e) fit"
proof -
  obtain l where l: "rl_open xxh d = Inr l" "rl_snapshot l = snap" "rl_meta l = rd_meta d"
    "rl_entries l = filter (\<lambda>e. sm_index snap < le_index e) fit"
    "df_bytes (rl_wal l) = wal_header @ log_bytes xxh fit" "df_synced (rl_wal l) = length (df_bytes (rl_wal l))"
    using rl_open_reads [OF assms(1-7)] recovered_log_consec [OF assms(9)] unfolding fit_def by auto
  obtain zs where "ws = fit @ zs" unfolding fit_def using prefix_fitting by (metis prefixE)
  then have "set fit \<subseteq> set ws" "length (log_bytes xxh fit) \<le> length (log_bytes xxh ws)" by auto
  then have "holds xxh fit l" using l assms(1,2,7,9) by (auto simp: holds_def)
  with l show ?thesis by auto
qed

text \<open>
  The directory while an append or a rewrite of the log is in progress, the cut a crash makes,
  and the logs that reopening may give.
\<close>

datatype rl_change = Appending "log_entry list" | Rewriting snapshot_meta "log_entry list"

abbreviation rewritten :: "(bytes \<Rightarrow> u64) \<Rightarrow> log_entry list \<Rightarrow> disk_file" where
  "rewritten xxh \<equiv> segment_of xxh \<lparr>df_bytes = wal_header, df_synced = 5\<rparr>"

inductive rl_stage :: "(bytes \<Rightarrow> u64) \<Rightarrow> raft_log \<Rightarrow> rl_change \<Rightarrow> raft_dir \<Rightarrow> bool" for xxh l where
  idle: "rl_stage xxh l ch (rl_disk l)"
| writing: "rl_stage xxh l (Appending es)
    ((rl_disk l)\<lparr>rd_log := Some (file_append (take n (log_bytes xxh es)) (rl_wal l))\<rparr>)"
| meta_written: "rl_stage xxh l (Rewriting meta remaining) ((rl_disk l)\<lparr>rd_meta := Some (meta_encode meta)\<rparr>)"
| tmp_written: "rl_stage xxh l (Rewriting meta remaining)
    ((rl_disk l)\<lparr>rd_tmp := Some \<lparr>df_bytes = take n (df_bytes (rewritten xxh remaining)), df_synced = k\<rparr>,
                 rd_meta := Some (meta_encode meta)\<rparr>)"
| renamed: "rl_stage xxh l (Rewriting meta remaining)
    \<lparr>rd_log = Some (rewritten xxh remaining), rd_tmp = None, rd_meta = Some (meta_encode meta)\<rparr>"

definition dir_crash :: "raft_dir \<Rightarrow> raft_dir \<Rightarrow> bool" where
  "dir_crash d d' \<longleftrightarrow>
     (\<exists>f n bs. rd_log d = Some f \<and> crash_to f n bs \<and> rd_log d' = Some \<lparr>df_bytes = bs, df_synced = length bs\<rparr>) \<and>
     rd_meta d' = rd_meta d"

fun rl_outcomes :: "raft_log \<Rightarrow> rl_change \<Rightarrow> (log_entry list \<times> snapshot_meta) set" where
  "rl_outcomes l (Appending es) = {(rl_entries l @ take k es, rl_snapshot l) | k. True}"
| "rl_outcomes l (Rewriting meta remaining) =
     {(rl_entries l, rl_snapshot l), (filter (\<lambda>e. sm_index meta < le_index e) (rl_entries l), meta), (remaining, meta)}"

fun rl_change_ok :: "(bytes \<Rightarrow> u64) \<Rightarrow> log_entry list \<Rightarrow> raft_log \<Rightarrow> rl_change \<Rightarrow> bool" where
  "rl_change_ok xxh ws l (Appending es) \<longleftrightarrow>
     consec idx (Suc (unat (sm_index (rl_snapshot l)) + length (rl_entries l))) es \<and>
     (\<forall>e \<in> set es. log_ok e) \<and> length (log_bytes xxh (ws @ es)) < 2 ^ 64 - 5"
| "rl_change_ok xxh ws l (Rewriting meta remaining) \<longleftrightarrow>
     sm_index (rl_snapshot l) \<le> sm_index meta \<and> consec idx (Suc (unat (sm_index meta))) remaining \<and>
     (\<forall>e \<in> set remaining. log_ok e) \<and> length (log_bytes xxh remaining) < 2 ^ 64 - 5"

lemma consec_filter_idx:
  assumes "consec idx (Suc (unat s)) es" "s \<le> m"
  shows "consec idx (Suc (unat m)) (filter (\<lambda>e. m < le_index e) es)"
proof -
  have le: "unat s \<le> unat m" using assms(2) by (simp add: word_le_nat_alt)
  have "filter (\<lambda>e. m < le_index e) es = drop (unat m - unat s) es"
    using consec_filter_ge [OF assms(1), of "Suc (unat m)"] by (simp add: word_less_nat_alt Suc_le_eq)
  then show ?thesis
    using consec_drop [OF assms(1), of "unat m - unat s"] le by (cases "unat m - unat s \<le> length es") auto
qed

lemma consec_above:
  assumes "consec idx (Suc (unat s + n)) es"
  shows "filter (\<lambda>e. s < le_index e) es = es"
proof -
  have "s < le_index e" if "e \<in> set es" for e
    using consec_set [OF assms that] by (simp add: word_less_nat_alt)
  then show ?thesis by (simp add: filter_id_conv)
qed

lemma fitting_whole:
  assumes "length (wal_header @ log_bytes xxh ws) \<le> n"
  shows "fitting (\<lambda>e. wal_size xxh (to_wal_entry e)) (n - 5) ws = ws"
  by (rule fitting_all) (use assms in \<open>simp add: length_concat comp_def\<close>)

text \<open>A synced file loses nothing.\<close>

lemma crash_to_synced: "crash_to f n bs \<Longrightarrow> df_synced f = length (df_bytes f) \<Longrightarrow> bs = df_bytes f"
  by (simp add: crash_to_def)

lemma rl_open_synced:
  assumes "\<forall>e \<in> set ws. log_ok e" "length (log_bytes xxh ws) < 2 ^ 64 - 5"
    and "rd_log d = Some f" "df_bytes f = wal_header @ log_bytes xxh ws" "df_synced f = length (df_bytes f)"
    and "dir_crash d d'" "meta_ok snap (rd_meta d)"
    and "consec idx (Suc (unat (sm_index snap))) (filter (\<lambda>e. sm_index snap < le_index e) ws)"
  shows "\<exists>l. rl_open xxh d' = Inr l \<and> holds xxh ws l \<and> rl_snapshot l = snap \<and>
    rl_entries l = filter (\<lambda>e. sm_index snap < le_index e) ws"
proof -
  let ?n = "length (wal_header @ log_bytes xxh ws)"
  have d': "rd_log d' = Some \<lparr>df_bytes = df_bytes f, df_synced = length (df_bytes f)\<rparr>" "rd_meta d' = rd_meta d"
    using assms(3,5,6) by (auto simp: dir_crash_def dest!: crash_to_synced)
  show ?thesis
    by (rule rl_open_cut [OF assms(1,2), of ?n d', unfolded fitting_whole [OF order_refl], OF _ d'(1)])
      (use assms(4,7,8) d'(2) in simp_all)
qed

lemma crash_writing:
  assumes "holds xxh ws l" "rl_change_ok xxh ws l (Appending es)"
    and "crash_to (file_append (take n (log_bytes xxh es)) (rl_wal l)) m bs" "rd_log d = Some \<lparr>df_bytes = bs, df_synced = length bs\<rparr>"
    and "rd_meta d = rl_meta l"
  shows "\<exists>l' k. rl_open xxh d = Inr l' \<and> holds xxh (ws @ take k es) l' \<and> rl_snapshot l' = rl_snapshot l \<and>
    rl_entries l' = rl_entries l @ take k es"
proof -
  let ?all = "wal_header @ log_bytes xxh (ws @ es)" and ?old = "wal_header @ log_bytes xxh ws"
  let ?snap = "rl_snapshot l" and ?sz = "\<lambda>e. wal_size xxh (to_wal_entry e)"
  note H = assms(1) [unfolded holds_def]
  define c where "c = min m (length ?old + n)"
  have c: "length ?old \<le> c" using assms(3) H by (auto simp: c_def crash_to_def file_append_def)
  have "df_bytes (file_append (take n (log_bytes xxh es)) (rl_wal l)) = take (length ?old + n) ?all"
    using H by (simp add: file_append_def)
  then have bs: "bs = take c ?all"
    using assms(3) by (simp add: crash_to_def c_def take_take del: take_append)
  have "prefix ws (fitting ?sz (c - 5) (ws @ es))"
    by (rule prefix_fittingI) (use c in \<open>simp_all add: length_concat comp_def\<close>)
  then obtain ys where ys: "fitting ?sz (c - 5) (ws @ es) = ws @ ys" by (auto simp: prefix_def)
  moreover have "prefix (ws @ ys) (ws @ es)" unfolding ys [symmetric] by (rule prefix_fitting)
  then have "ys = take (length ys) es" by (auto simp: prefix_def)
  ultimately obtain k where k: "fitting ?sz (c - 5) (ws @ es) = ws @ take k es" by metis
  have es: "consec idx (Suc (unat (sm_index ?snap) + length (rl_entries l))) (take k es)"
    using assms(2) by (simp add: consec_take)
  then have new: "filter (\<lambda>e. sm_index ?snap < le_index e) (ws @ take k es) = rl_entries l @ take k es"
    using H consec_above [OF es] by simp
  have "\<exists>l'. rl_open xxh d = Inr l' \<and> holds xxh (ws @ take k es) l' \<and> rl_snapshot l' = ?snap \<and>
      rl_entries l' = filter (\<lambda>e. sm_index ?snap < le_index e) (ws @ take k es)"
  proof (rule rl_open_cut [of "ws @ es" xxh c d _ ?snap, unfolded k, OF _ _ _ assms(4)])
    show "consec idx (Suc (unat (sm_index ?snap))) (filter (\<lambda>e. sm_index ?snap < le_index e) (ws @ take k es))"
      unfolding new using H es by simp
  qed (use assms(2,5) H c bs in auto)
  then show ?thesis unfolding new by blast
qed

lemma crash_rewriting:
  assumes "holds xxh ws l" "rl_change_ok xxh ws l (Rewriting meta remaining)"
    and "dir_crash d d'" "rd_log d = Some (rl_wal l)" "rd_meta d = Some (meta_encode meta)"
  shows "\<exists>l'. rl_open xxh d' = Inr l' \<and> holds xxh ws l' \<and> rl_snapshot l' = meta \<and>
    rl_entries l' = filter (\<lambda>e. sm_index meta < le_index e) (rl_entries l)"
proof -
  note H = assms(1) [unfolded holds_def]
  have "\<And>e. sm_index meta < le_index e \<Longrightarrow> sm_index (rl_snapshot l) < le_index e"
    using assms(2) by (auto intro: le_less_trans)
  then have "filter (\<lambda>e. sm_index meta < le_index e) (filter (\<lambda>e. sm_index (rl_snapshot l) < le_index e) ws) =
      filter (\<lambda>e. sm_index meta < le_index e) ws"
    unfolding filter_filter by (intro filter_cong) auto
  then have f: "filter (\<lambda>e. sm_index meta < le_index e) ws = filter (\<lambda>e. sm_index meta < le_index e) (rl_entries l)"
    using H by simp
  have "consec idx (Suc (unat (sm_index meta))) (filter (\<lambda>e. sm_index meta < le_index e) (rl_entries l))"
    by (rule consec_filter_idx) (use H assms(2) in auto)
  then show ?thesis
    using rl_open_synced [of ws xxh d "rl_wal l" d' meta] H assms(3-5) f by (auto simp: meta_ok_def)
qed

lemma rewritten_bytes:
  "df_bytes (rewritten xxh es) = wal_header @ log_bytes xxh es"
  "df_synced (rewritten xxh es) = length (df_bytes (rewritten xxh es))"
  by (auto simp: segment_of_def wal_append_batch_sync_def wal_sync_def file_sync_def wal_batch_bytes)

lemma crash_renamed:
  assumes "rl_change_ok xxh ws l (Rewriting meta remaining)"
    and "dir_crash \<lparr>rd_log = Some (rewritten xxh remaining), rd_tmp = None, rd_meta = Some (meta_encode meta)\<rparr> d'"
  shows "\<exists>l'. rl_open xxh d' = Inr l' \<and> holds xxh remaining l' \<and> rl_snapshot l' = meta \<and> rl_entries l' = remaining"
proof -
  have "filter (\<lambda>e. sm_index meta < le_index e) remaining = remaining"
    by (rule consec_above [of _ 0]) (use assms(1) in simp)
  then show ?thesis
    using rl_open_synced [OF _ _ _ _ _ assms(2), of remaining xxh _ meta] assms(1) rewritten_bytes [of xxh remaining]
    by (auto simp: meta_ok_def)
qed

lemma crash_stage:
  assumes "holds xxh ws l" "rl_change_ok xxh ws l ch" "rl_stage xxh l ch d" "dir_crash d d'"
  shows "\<exists>l' ws'. rl_open xxh d' = Inr l' \<and> holds xxh ws' l' \<and> (rl_entries l', rl_snapshot l') \<in> rl_outcomes l ch"
  using assms(3)
proof cases
  case idle
  have "\<exists>l'. rl_open xxh d' = Inr l' \<and> holds xxh ws l' \<and> rl_snapshot l' = rl_snapshot l \<and> rl_entries l' = rl_entries l"
    using rl_open_synced [of ws xxh d "rl_wal l" d' "rl_snapshot l"] assms(1,4) idle
    by (auto simp: holds_def rl_disk_def)
  moreover have "(rl_entries l, rl_snapshot l) \<in> rl_outcomes l ch"
    by (cases ch) (auto intro: exI [of _ 0])
  ultimately show ?thesis by metis
next
  case (writing es n)
  with assms(4) obtain m bs where "crash_to (file_append (take n (log_bytes xxh es)) (rl_wal l)) m bs"
    "rd_log d' = Some \<lparr>df_bytes = bs, df_synced = length bs\<rparr>" "rd_meta d' = rl_meta l"
    by (auto simp: dir_crash_def rl_disk_def)
  from crash_writing [OF assms(1) _ this] assms(2) writing(1) show ?thesis by fastforce
next
  case (meta_written meta remaining)
  then show ?thesis
    using crash_rewriting [OF assms(1) _ assms(4), of meta remaining] assms(2) by (fastforce simp: rl_disk_def)
next
  case (tmp_written meta remaining n k)
  then show ?thesis
    using crash_rewriting [OF assms(1) _ assms(4), of meta remaining] assms(2) by (fastforce simp: rl_disk_def)
next
  case (renamed meta remaining)
  then show ?thesis
    using crash_renamed [of xxh ws l meta remaining d'] assms(2,4) by fastforce
qed

text \<open>The completed operations keep the files in step with the memory.\<close>

lemma holds_append:
  assumes "holds xxh ws l" "rl_change_ok xxh ws l (Appending es)"
  shows "holds xxh (ws @ es) (fst (rl_store xxh None l es))"
proof -
  note H = assms(1) [unfolded holds_def]
  let ?s = "sm_index (rl_snapshot l)"
  have "filter (\<lambda>e. ?s < le_index e) es = es" by (rule consec_above [of _ "length (rl_entries l)"]) (use assms(2) in simp)
  then show ?thesis using H assms(2)
    by (auto simp: holds_def rl_store_ok rl_store_def wal_submit_def wal_append_batch_sync_def wal_sync_def
        file_sync_def wal_batch_bytes)
qed

lemma holds_rewrite:
  assumes "rl_change_ok xxh ws l (Rewriting meta remaining)" "rl_tmp l = None"
  shows "holds xxh remaining (fst (rl_rewrite xxh meta remaining l))"
proof -
  have "filter (\<lambda>e. sm_index meta < le_index e) remaining = remaining"
    by (rule consec_above [of _ 0]) (use assms(1) in simp)
  then show ?thesis
    using assms rewritten_bytes [of xxh remaining] by (simp add: holds_def rl_rewrite_cases meta_ok_def)
qed

text \<open>A fresh directory.\<close>

definition empty_dir :: raft_dir where
  "empty_dir = \<lparr>rd_log = None, rd_tmp = None, rd_meta = None\<rparr>"

definition fresh_log :: raft_log where
  "fresh_log = \<lparr>rl_entries = [], rl_snapshot = no_snapshot, rl_wal = \<lparr>df_bytes = wal_header, df_synced = 5\<rparr>,
     rl_tmp = None, rl_meta = None\<rparr>"

lemma rl_open_empty: "rl_open xxh empty_dir = Inr fresh_log"
  by (simp add: rl_open_def empty_dir_def fresh_log_def meta_read_from_dir_def wal_create_None recovered_log_def)

lemma holds_fresh: "holds xxh [] fresh_log"
  by (simp add: holds_def fresh_log_def meta_ok_def)

lemma refines_fresh: "rl_refines ([], 0) fresh_log"
  by (simp add: rl_refines_def fresh_log_def no_snapshot_def)

primrec ops_fit :: "abs_log \<Rightarrow> rl_op list \<Rightarrow> bool" where
  "ops_fit A [] \<longleftrightarrow> True"
| "ops_fit A (op # ops) \<longleftrightarrow> op_fits A op \<and> ops_fit (al_step True A op) ops"

lemma rl_step_tmp: "rl_tmp (rl_step xxh l op) = rl_tmp l"
  by (cases op) (auto simp: rl_append_batch_def rl_append_commands_def rl_store_ok rl_truncate_after_def
      rl_compact_through_def rl_install_snapshot_def rl_rewrite_cases Let_def split: sum.splits prod.splits
      dest: arg_cong [where f = "\<lambda>p. rl_tmp (fst p)"])

lemma rl_run_refines:
  "rl_refines A l \<Longrightarrow> rl_tmp l = None \<Longrightarrow> ops_fit A ops \<Longrightarrow>
   rl_refines (foldl (al_step True) A ops) (foldl (rl_step xxh) l ops)"
proof (induction ops arbitrary: A l)
  case (Cons op ops)
  then show ?case using rl_step_refines [of A l op xxh] by (simp add: rl_step_tmp)
qed simp

section \<open>Properties\<close>

text \<open>
  C21. Starting from an empty directory, every sequence of appends (succeeding or failing),
  truncations, compactions and snapshot installs leaves a log that reads as the uncompacted list
  of entries it stands for: last index, last term, the entry and the term at every index from the
  boundary on, and the suffix from every index. Compaction never changes that list.
\<close>

theorem raft_log_refines_list:
  assumes "rl_open xxh empty_dir = Inr l0" "ops_fit ([], 0) ops"
  defines "A \<equiv> foldl (al_step True) ([], 0) ops" and "l \<equiv> foldl (rl_step xxh) l0 ops"
  shows "rl_refines A l \<and> unat (rl_last_index l) = length (fst A) \<and> rl_last_term l = al_last_term A \<and>
    rl_term_at l i = al_term_at A (unat i) \<and> rl_entry l i = al_entry A (unat i) \<and>
    rl_entries_from l i = drop (max (snd A) (unat i - 1)) (fst A)"
proof -
  have "l0 = fresh_log" using assms(1) by (simp add: rl_open_empty)
  then have R: "rl_refines A l"
    unfolding A_def l_def using assms(2) refines_fresh rl_run_refines by (simp add: fresh_log_def)
  then show ?thesis
    by (cases A) (simp add: rl_last_index_refines rl_last_term_refines rl_term_at_refines
        rl_entry_refines rl_entries_from_refines)
qed

lemma raft_log_refines_list_witness:
  "\<forall>(xxh :: bytes \<Rightarrow> u64). \<exists>l0. rl_open xxh empty_dir = Inr l0 \<and>
     rl_term_at (foldl (rl_step xxh) l0
       [OpCommands None 1 [[10], [11]], OpCompact 1 1, OpTruncate 1, OpCommands None 2 [[12]]]) 2 = Some 2"
proof
  fix xxh :: "bytes \<Rightarrow> u64"
  let ?ops = "[OpCommands None 1 [[10], [11]], OpCompact 1 1, OpTruncate 1, OpCommands None 2 [[12]]]"
  have "ops_fit ([], 0) ?ops"
    by (simp add: command_entries_def al_term_at_def)
  from raft_log_refines_list [OF rl_open_empty [of xxh] this, of 2]
  have "rl_term_at (foldl (rl_step xxh) fresh_log ?ops) 2 = Some 2"
    by (simp add: command_entries_def al_term_at_def)
  then show "\<exists>l0. rl_open xxh empty_dir = Inr l0 \<and> rl_term_at (foldl (rl_step xxh) l0 ?ops) 2 = Some 2"
    using rl_open_empty by blast
qed



text \<open>
  C23. \<open>truncate_after\<close> does not reach the durable segment. A follower that logs an entry,
  truncates it because of a conflict and logs the leader's entry in its place has acknowledged
  the new entry, but a restart brings the old one back at that index.
\<close>

theorem raft_log_truncation_forgotten:
  "\<exists>l0 l l'. rl_open xxh empty_dir = Inr l0 \<and>
     l = foldl (rl_step xxh) l0 [OpCommands None 1 [[10]], OpTruncate 0, OpCommands None 2 [[20]]] \<and>
     rl_open xxh (rl_disk l) = Inr l' \<and>
     rl_entry l 1 = Some \<lparr>le_term = 2, le_index = 1, le_command = [20]\<rparr> \<and>
     rl_entry l' 1 = Some \<lparr>le_term = 1, le_index = 1, le_command = [10]\<rparr>"
proof -
  let ?a = "\<lparr>le_term = 1, le_index = 1, le_command = [10]\<rparr>" and ?b = "\<lparr>le_term = 2, le_index = 1, le_command = [20]\<rparr>"
  define l where "l = foldl (rl_step xxh) fresh_log [OpCommands None 1 [[10]], OpTruncate 0, OpCommands None 2 [[20]]]"
  have l: "rl_entries l = [?b]" "df_bytes (rl_wal l) = wal_header @ log_bytes xxh [?a, ?b]"
    "df_synced (rl_wal l) = length (df_bytes (rl_wal l))" "rl_meta l = None"
    by (simp_all add: l_def rl_append_commands_def command_entries_def rl_store_def wal_submit_def fresh_log_def
        no_snapshot_def rl_last_index_def rl_truncate_after_def wal_append_batch_sync_def wal_sync_def
        file_sync_def wal_batch_bytes)
  let ?n = "length (wal_header @ log_bytes xxh [?a, ?b])"
  have len: "length (log_bytes xxh [?a, ?b]) = 92"
    by (simp add: to_wal_entry_def length_encode_body entry_put_def opt_len_def)
  obtain l' where "rl_open xxh (rl_disk l) = Inr l'"
    "rl_entries l' = recovered_log (sm_index no_snapshot) (filter (\<lambda>e. sm_index no_snapshot < le_index e) [?a, ?b])"
    using rl_open_reads [of "[?a, ?b]" xxh ?n "rl_disk l" "rl_wal l" no_snapshot,
        unfolded fitting_whole [OF order_refl]] l len
    by (auto simp: log_ok_def MAX_WAL_RECORD_def rl_disk_def meta_ok_def)
  then show ?thesis
    using l(1) rl_open_empty [of xxh] unfolding l_def
    by (auto simp: rl_entry_def recovered_log_def no_snapshot_def)
qed

text \<open>
  A failed group commit leaves the bytes it wrote in the segment, and the next commit appends
  behind them. An append that fails after one byte, followed by the same append succeeding, is
  acknowledged and readable; after a restart the log is empty, because replay takes everything
  from the failed write on for a torn tail.
\<close>

theorem raft_log_write_failure_loses_acknowledged:
  fixes xxh
  defines "e \<equiv> \<lparr>le_term = 1, le_index = 1, le_command = [10]\<rparr>"
  shows "\<exists>err l1 l2 l'. rl_append xxh (Some 1) fresh_log e = (l1, Inl err) \<and> rl_append xxh None l1 e = (l2, Inr ()) \<and>
    rl_entry l2 1 = Some e \<and> rl_open xxh (rl_disk l2) = Inr l' \<and> rl_entries l' = []"
proof -
  let ?rec = "wal_record xxh (to_wal_entry e)"
  have b: "length (encode_body (to_wal_entry e)) = 34"
    by (simp add: e_def to_wal_entry_def length_encode_body entry_put_def opt_len_def)
  have hd: "u32_le 34 = [34, 0, 0, 0]" by code_simp
  have rec: "?rec = [34, 0, 0, 0] @ encode_body (to_wal_entry e) @ u64_le (xxh (encode_body (to_wal_entry e)))"
    by (simp add: wal_record_def Let_def len32_def b hd)
  define l2 where "l2 = fresh_log\<lparr>rl_wal := file_sync \<lparr>df_bytes = wal_header @ 34 # ?rec, df_synced = 5\<rparr>, rl_entries := [e]\<rparr>"
  define l1 where "l1 = fresh_log\<lparr>rl_wal := \<lparr>df_bytes = wal_header @ [34], df_synced = 5\<rparr>\<rparr>"
  have 1: "\<exists>err. rl_append xxh (Some 1) fresh_log e = (l1, Inl err)"
    by (simp add: rl_append_def rl_append_batch_def rl_store_def wal_submit_def fresh_log_def e_def l1_def
        rl_last_index_def no_snapshot_def file_append_def rec [unfolded e_def])
  have 2: "rl_append xxh None l1 e = (l2, Inr ())"
    by (simp add: rl_append_def rl_append_batch_def rl_store_def wal_submit_def fresh_log_def e_def l1_def l2_def
        rl_last_index_def no_snapshot_def file_append_def file_sync_def wal_append_batch_sync_def
        wal_append_batch_def wal_append_def wal_sync_def)
  have "length (34 # ?rec) < 2 ^ 64 - 5" using b by simp
  then obtain r where r: "wal_open (Some (wal_header @ 34 # ?rec)) = Inr r" "rd_ok r" "wr_rest r = 34 # ?rec"
    by (rule wal_open_header)
  have "u32_of_le (take 4 (wr_rest r)) = 8738"
    using r(3) by (simp add: rec u32_of_le_def)
  then have "\<exists>r'. read_next xxh r = (r', Inr None) \<and> wr_torn_tail r'"
    using r(3) b record_end_check [OF r(2), of 8738] by (simp add: read_next_def Let_def)
  then obtain r' where "wal_replay xxh (recover_entry 0) r [] 0 = (r', [], Inr 0)"
    by (subst (asm) wal_replay.simps) auto
  then have "\<exists>l'. rl_open xxh (rl_disk l2) = Inr l' \<and> rl_entries l' = []"
    using r(1) by (simp add: rl_open_def rl_disk_def l2_def fresh_log_def meta_read_from_dir_def no_snapshot_def
        file_sync_def Let_def wal_open_append_def recovered_log_def)
  moreover have "rl_entry l2 1 = Some e" by (simp add: rl_entry_def l2_def e_def)
  ultimately show ?thesis using 1 2 by blast
qed

end
