(* ===== verification/Consensus.thy ===== *)
theory Consensus
  imports Raft_Log
begin

text \<open>
  Leader election and replication of \<open>consensus.rs\<close>, with the drivers \<open>run_election\<close> and
  \<open>replicate_to_all\<close> of \<open>network.rs\<close>. A node is a record of its soft state, its log, its engine
  and the membership file; each handler is a function on it, run without interleaving on one
  node. The engine, the clock, the checksum and the outcome of durable writes are fields of an
  environment that every handler receives, so what is proved holds for all of them. Answers to
  parked proposals are collected in \<open>rc_replies\<close>.
\<close>

section \<open>State\<close>

datatype role = Follower | Candidate | Leader

record waiter =
  w_index :: u64
  w_tx :: "nat option"

record pending_propose =
  p_encoded :: bytes
  p_tx :: "nat option"

record 'e consensus =
  rc_id :: u64
  rc_log :: raft_log
  rc_engine :: 'e
  rc_mfile :: "bytes option"
  rc_snapshot_threshold :: u64
  current_term :: u64
  voted_for :: "u64 option"
  rc_role :: role
  leader_id :: "u64 option"
  commit_index :: u64
  next_index :: "u64 \<rightharpoonup> u64"
  match_index :: "u64 \<rightharpoonup> u64"
  last_heartbeat :: nat
  election_started_at :: "nat option"
  election_timeout :: nat
  waiters :: "waiter list"
  pending :: "pending_propose list"
  snapshot_buf :: "(u64 \<times> u64 \<times> bytes) option"
  rc_membership :: membership
  base_membership :: membership
  membership_gen :: u64
  removed :: bool
  snapshot_attempt :: "u64 \<rightharpoonup> nat"
  rc_replies :: "(nat option \<times> u64 result) list"

text \<open>
  The environment of a call: checksum, clock in milliseconds, outcome of a durable log write, and
  the operations of the engine that the consensus layer calls.
\<close>

record 'e env =
  ev_xxh :: "bytes \<Rightarrow> u64"
  ev_now :: nat
  ev_io :: "log_entry list \<Rightarrow> nat option"
  ev_last_applied :: "'e \<Rightarrow> u64"
  ev_apply_committed :: "'e \<Rightarrow> committed_entry list \<Rightarrow> 'e \<times> unit result"
  ev_force_flush :: "'e \<Rightarrow> 'e \<times> unit result"
  ev_install_sst_snapshot :: "'e \<Rightarrow> bytes \<Rightarrow> u64 \<Rightarrow> u64 \<Rightarrow> 'e \<times> membership result"
  ev_export_sst_snapshot :: "'e \<Rightarrow> u64 \<Rightarrow> u64 \<Rightarrow> membership \<Rightarrow> bytes result"

abbreviation opt_or :: "'a option \<Rightarrow> 'a \<Rightarrow> 'a" where
  "opt_or x d \<equiv> (case x of None \<Rightarrow> d | Some v \<Rightarrow> v)"

definition randomized_election_timeout :: "u64 \<Rightarrow> nat" where
  "randomized_election_timeout seed = 300 + unat ((seed * 0x9e3779b9) mod 300)"

definition write_membership :: "'e consensus \<Rightarrow> 'e consensus" where
  "write_membership c = c\<lparr>rc_mfile := cm_write_to_dir (rc_membership c) (rc_mfile c)\<rparr>"

fun apply_config_to :: "membership \<Rightarrow> raft_command \<Rightarrow> membership" where
  "apply_config_to m (CmdAddNode i address) = cm_add_node m i address"
| "apply_config_to m (CmdRemoveNode i) = cm_remove_node m i"
| "apply_config_to m _ = m"

text \<open>Replaying the decodable commands of a list of entries.\<close>

definition apply_config_entries :: "membership \<Rightarrow> log_entry list \<Rightarrow> membership" where
  "apply_config_entries m es =
     foldl (\<lambda>m e. case decode_cmd (le_command e) of Inl _ \<Rightarrow> m | Inr cmd \<Rightarrow> apply_config_to m cmd) m es"

section \<open>Construction\<close>

definition rc_new ::
  "'e env \<Rightarrow> u64 \<Rightarrow> membership \<Rightarrow> bytes option \<Rightarrow> raft_log \<Rightarrow> 'e \<Rightarrow> u64 \<Rightarrow> 'e consensus"
where
  "rc_new ev self_id membership mfile log engine threshold =
     (let base0 = (case cm_read_from_dir mfile of Inr (Some m) \<Rightarrow> m | _ \<Rightarrow> membership);
          base = (if cm_is_empty base0 \<and> \<not> cm_is_empty membership then membership else base0);
          live = apply_config_entries base (rl_entries_from log (sat_add (sm_index (rl_snapshot log)) 1));
          last = rl_last_index log + 1;
          peers = cm_peers_except live self_id
      in \<lparr>rc_id = self_id, rc_log = log, rc_engine = engine, rc_mfile = cm_write_to_dir live mfile,
          rc_snapshot_threshold = threshold, current_term = 0, voted_for = None, rc_role = Follower,
          leader_id = None, commit_index = sm_index (rl_snapshot log),
          next_index = map_of (map (\<lambda>p. (p, last)) peers), match_index = map_of (map (\<lambda>p. (p, 0)) peers),
          last_heartbeat = ev_now ev, election_started_at = None,
          election_timeout = randomized_election_timeout self_id, waiters = [], pending = [],
          snapshot_buf = None, rc_membership = live, base_membership = base, membership_gen = 1,
          removed = (\<not> cm_contains live self_id \<and> \<not> cm_is_empty live), snapshot_attempt = Map.empty,
          rc_replies = []\<rparr>)"

section \<open>Roles and votes\<close>

text \<open>Draining the parked proposals when leadership is lost.\<close>

definition fail_parked :: "'e consensus \<Rightarrow> 'e consensus" where
  "fail_parked c =
     c\<lparr>rc_replies := rc_replies c @
         map (\<lambda>w. (w_tx w, Inl (Raft ''leadership lost before commit''))) (waiters c) @
         map (\<lambda>p. (p_tx p, Inl (Raft ''leadership lost before batch flush''))) (pending c),
       waiters := [], pending := []\<rparr>"

definition become_follower :: "'e env \<Rightarrow> u64 \<Rightarrow> u64 option \<Rightarrow> 'e consensus \<Rightarrow> 'e consensus" where
  "become_follower ev trm leader c =
     fail_parked (c\<lparr>current_term := trm, rc_role := Follower, voted_for := None, leader_id := leader,
       last_heartbeat := ev_now ev, election_started_at := None,
       election_timeout := randomized_election_timeout (xor (rc_id c) trm)\<rparr>)"

definition handle_request_vote ::
  "'e env \<Rightarrow> u64 \<Rightarrow> u64 \<Rightarrow> u64 \<Rightarrow> u64 \<Rightarrow> 'e consensus \<Rightarrow> 'e consensus \<times> (u64 \<times> bool)"
where
  "handle_request_vote ev trm candidate_id last_log_index last_log_term c =
     (if removed c then (c, (current_term c, False))
      else if \<not> cm_contains (rc_membership c) (rc_id c) then (c, (current_term c, False))
      else if trm < current_term c then (c, (current_term c, False))
      else
        let c1 = (if current_term c < trm then become_follower ev trm None c else c);
            log_ok = rl_is_up_to_date (rc_log c1) last_log_index last_log_term;
            can_vote = (case voted_for c1 of None \<Rightarrow> True | Some v \<Rightarrow> v = candidate_id)
        in if log_ok \<and> can_vote
           then (c1\<lparr>voted_for := Some candidate_id, last_heartbeat := ev_now ev\<rparr>, (current_term c1, True))
           else (c1, (current_term c1, False)))"

definition start_election :: "'e env \<Rightarrow> 'e consensus \<Rightarrow> 'e consensus \<times> (u64 \<times> u64 \<times> u64)" where
  "start_election ev c =
     (if removed c \<or> \<not> cm_contains (rc_membership c) (rc_id c)
      then (c, (current_term c, rl_last_index (rc_log c), rl_last_term (rc_log c)))
      else
        let trm = current_term c + 1;
            c1 = fail_parked (c\<lparr>current_term := trm, rc_role := Candidate, voted_for := Some (rc_id c),
              leader_id := None, last_heartbeat := ev_now ev, election_started_at := Some (ev_now ev),
              election_timeout := randomized_election_timeout (xor (rc_id c) trm)\<rparr>)
        in (c1, (trm, rl_last_index (rc_log c1), rl_last_term (rc_log c1))))"

definition record_vote_granted ::
  "u64 \<Rightarrow> u64 \<Rightarrow> (u64 \<times> bool) list \<Rightarrow> 'e consensus \<Rightarrow> (u64 \<times> bool) list \<times> bool"
where
  "record_vote_granted trm from votes c =
     (if rc_role c \<noteq> Candidate \<or> current_term c \<noteq> trm then (votes, False)
      else if \<not> cm_contains (rc_membership c) from \<and> from \<noteq> rc_id c then (votes, False)
      else
        let votes' = bt_insert from True votes;
            granted = length (filter snd votes') + 1
        in (votes', cm_quorum (rc_membership c) \<le> granted))"

definition become_leader :: "'e env \<Rightarrow> u64 \<Rightarrow> 'e consensus \<Rightarrow> 'e consensus" where
  "become_leader ev trm c =
     (if current_term c \<noteq> trm \<or> rc_role c \<noteq> Candidate then c
      else
        let last = rl_last_index (rc_log c);
            peers = cm_peers_except (rc_membership c) (rc_id c);
            c1 = c\<lparr>election_started_at := None, rc_role := Leader, leader_id := Some (rc_id c),
                   last_heartbeat := ev_now ev,
                   next_index := foldl (\<lambda>m p. m(p \<mapsto> last + 1)) (next_index c) peers,
                   match_index := (foldl (\<lambda>m p. m(p \<mapsto> 0)) (match_index c) peers)(rc_id c \<mapsto> last)\<rparr>
        in case encode_cmd CmdNoop of
             Inl _ \<Rightarrow> c1
           | Inr encoded \<Rightarrow> c1\<lparr>pending := pending c1 @ [\<lparr>p_encoded = encoded, p_tx = None\<rparr>]\<rparr>)"

definition maybe_step_down :: "'e env \<Rightarrow> u64 \<Rightarrow> 'e consensus \<Rightarrow> 'e consensus" where
  "maybe_step_down ev remote_term c =
     (if current_term c < remote_term then become_follower ev remote_term None c else c)"

definition election_timed_out :: "'e env \<Rightarrow> 'e consensus \<Rightarrow> bool" where
  "election_timed_out ev c \<longleftrightarrow>
     (if removed c \<or> \<not> cm_contains (rc_membership c) (rc_id c) then False
      else rc_role c \<noteq> Leader \<and> election_timeout c \<le> ev_now ev - last_heartbeat c)"

section \<open>Commitment and application\<close>

definition match_or_zero :: "(u64 \<rightharpoonup> u64) \<Rightarrow> u64 \<Rightarrow> u64" where
  "match_or_zero m p = opt_or (m p) 0"

text \<open>The loop of \<open>advance_commit_index\<close> over the uncommitted indices.\<close>

definition advance_loop ::
  "raft_log \<Rightarrow> u64 \<Rightarrow> membership \<Rightarrow> (u64 \<rightharpoonup> u64) \<Rightarrow> u64 \<Rightarrow> u64 list \<Rightarrow> u64"
where
  "advance_loop log trm membership matched commit ns =
     foldl (\<lambda>commit n.
       if rl_term_at log n \<noteq> Some trm then commit
       else if cm_quorum membership \<le> length (filter (\<lambda>p. n \<le> match_or_zero matched p) (cm_members membership))
       then n else commit) commit ns"

definition advance_commit_index :: "'e consensus \<Rightarrow> 'e consensus" where
  "advance_commit_index c =
     (if rc_role c \<noteq> Leader then c
      else
        let last = rl_last_index (rc_log c);
            matched = (if cm_contains (rc_membership c) (rc_id c)
                       then (match_index c)(rc_id c \<mapsto> max (match_or_zero (match_index c) (rc_id c)) last)
                       else match_index c)
        in c\<lparr>match_index := matched,
             commit_index := advance_loop (rc_log c) (current_term c) (rc_membership c) matched
               (commit_index c) (u64_range (commit_index c + 1) last)\<rparr>)"

definition notify_waiters :: "'e consensus \<Rightarrow> 'e consensus" where
  "notify_waiters c =
     (let commit = commit_index c
      in c\<lparr>rc_replies := rc_replies c @
             map (\<lambda>w. (w_tx w, Inr (w_index w))) (filter (\<lambda>w. w_index w \<le> commit) (waiters c)),
           waiters := filter (\<lambda>w. \<not> w_index w \<le> commit) (waiters c)\<rparr>)"

definition maybe_compact :: "'e env \<Rightarrow> 'e consensus \<Rightarrow> 'e consensus \<times> unit result" where
  "maybe_compact ev c =
     (if rc_snapshot_threshold c = 0 then (c, Inr ())
      else if rl_len (rc_log c) < unat (rc_snapshot_threshold c) then (c, Inr ())
      else
        let applied = ev_last_applied ev (rc_engine c) in
        if applied = 0 then (c, Inr ())
        else if applied \<le> sm_index (rl_snapshot (rc_log c)) then (c, Inr ())
        else case rl_term_at (rc_log c) applied of
               None \<Rightarrow> (c, Inr ())
             | Some trm \<Rightarrow>
                 (case ev_force_flush ev (rc_engine c) of
                    (e, Inl err) \<Rightarrow> (c\<lparr>rc_engine := e\<rparr>, Inl err)
                  | (e, Inr _) \<Rightarrow>
                      (case rl_compact_through (ev_xxh ev) (rc_log c) applied trm of
                         (l, Inl err) \<Rightarrow> (c\<lparr>rc_engine := e, rc_log := l\<rparr>, Inl err)
                       | (l, Inr _) \<Rightarrow> (write_membership (c\<lparr>rc_engine := e, rc_log := l\<rparr>), Inr ()))))"

text \<open>The loop of \<open>apply_committed_to\<close>: a missing entry ends it, an undecodable one fails.\<close>

primrec committed_batch :: "raft_log \<Rightarrow> u64 list \<Rightarrow> committed_entry list result" where
  "committed_batch log [] = Inr []"
| "committed_batch log (i # is) =
     (case rl_entry log i of
        None \<Rightarrow> Inr []
      | Some e \<Rightarrow>
          rbind (decode_cmd (le_command e)) (\<lambda>cmd.
            rbind (committed_batch log is) (\<lambda>rest. Inr (\<lparr>ce_index = i, ce_command = cmd\<rparr> # rest))))"

definition after_apply :: "committed_entry list \<Rightarrow> 'e consensus \<Rightarrow> 'e consensus" where
  "after_apply batch c =
     (let changes = filter is_config_change (map ce_command batch);
          c1 = (if changes \<noteq> []
                then write_membership (c\<lparr>base_membership := foldl apply_config_to (base_membership c) changes\<rparr>)
                else c)
      in if CmdRemoveNode (rc_id c) \<in> set (map ce_command batch)
         then (if rc_role c1 = Leader
               then c1\<lparr>removed := True, rc_role := Follower, leader_id := None\<rparr>
               else c1\<lparr>removed := True\<rparr>)
         else c1)"

definition apply_committed_to :: "'e env \<Rightarrow> u64 \<Rightarrow> 'e consensus \<Rightarrow> 'e consensus \<times> unit result" where
  "apply_committed_to ev commit c =
     (let last_applied = ev_last_applied ev (rc_engine c) in
      if commit \<le> last_applied then (c, Inr ())
      else
        let start = max (last_applied + 1) (sm_index (rl_snapshot (rc_log c)) + 1) in
        if commit < start then (c, Inr ())
        else case committed_batch (rc_log c) (u64_range start commit) of
               Inl err \<Rightarrow> (c, Inl err)
             | Inr batch \<Rightarrow>
                 if batch = [] then (c, Inr ())
                 else case ev_apply_committed ev (rc_engine c) batch of
                        (e, Inl err) \<Rightarrow> (c\<lparr>rc_engine := e\<rparr>, Inl err)
                      | (e, Inr _) \<Rightarrow> maybe_compact ev (after_apply batch (c\<lparr>rc_engine := e\<rparr>)))"

section \<open>Membership changes\<close>

definition apply_config_change_immediate :: "'e env \<Rightarrow> raft_command \<Rightarrow> 'e consensus \<Rightarrow> 'e consensus" where
  "apply_config_change_immediate ev cmd c =
     (let peer_to_seed = (case cmd of CmdAddNode i _ \<Rightarrow> Some i | _ \<Rightarrow> None);
          applied = ev_last_applied ev (rc_engine c);
          c1 = (if peer_to_seed \<noteq> None \<and> rc_role c = Leader \<and> sm_index (rl_snapshot (rc_log c)) = 0 \<and> 0 < applied
                then case rl_term_at (rc_log c) applied of
                       None \<Rightarrow> c
                     | Some t \<Rightarrow>
                         c\<lparr>rc_engine := fst (ev_force_flush ev (rc_engine c)),
                           rc_log := fst (rl_compact_through (ev_xxh ev) (rc_log c) applied t)\<rparr>
                else c);
          m = apply_config_to (rc_membership c1) cmd
      in if m = rc_membership c1 then c1
         else
           let c2 = c1\<lparr>rc_membership := m, membership_gen := sat_add (membership_gen c1) 1\<rparr>;
               snap = sm_index (rl_snapshot (rc_log c2));
               c3 = (case peer_to_seed of
                       Some peer \<Rightarrow>
                         if rc_role c2 = Leader
                         then c2\<lparr>match_index := (match_index c2)(peer \<mapsto> 0),
                                 next_index := (next_index c2)(peer \<mapsto> (if 0 < snap then snap else 1))\<rparr>
                         else c2
                     | None \<Rightarrow> c2);
               c4 = (case cmd of
                       CmdRemoveNode i \<Rightarrow> c3\<lparr>next_index := (next_index c3)(i := None),
                                             match_index := (match_index c3)(i := None)\<rparr>
                     | _ \<Rightarrow> c3)
           in write_membership c4)"

definition apply_appended_config_changes :: "'e env \<Rightarrow> log_entry list \<Rightarrow> 'e consensus \<Rightarrow> 'e consensus" where
  "apply_appended_config_changes ev es c =
     foldl (\<lambda>c e. case decode_cmd (le_command e) of
                    Inl _ \<Rightarrow> c
                  | Inr cmd \<Rightarrow> if is_config_change cmd then apply_config_change_immediate ev cmd c else c) c es"

definition rebuild_membership_from_log :: "'e consensus \<Rightarrow> 'e consensus" where
  "rebuild_membership_from_log c =
     (let live = apply_config_entries (base_membership c)
            (rl_entries_from (rc_log c) (sat_add (sm_index (rl_snapshot (rc_log c))) 1))
      in if rc_membership c = live then c
         else write_membership (c\<lparr>rc_membership := live, membership_gen := sat_add (membership_gen c) 1\<rparr>))"

section \<open>Proposals\<close>

definition has_uncommitted_config_change :: "'e consensus \<Rightarrow> bool" where
  "has_uncommitted_config_change c \<longleftrightarrow>
     list_ex (\<lambda>i. case rl_entry (rc_log c) i of
                    None \<Rightarrow> False
                  | Some e \<Rightarrow> (case decode_cmd (le_command e) of Inl _ \<Rightarrow> False | Inr cmd \<Rightarrow> is_config_change cmd))
       (u64_range (commit_index c + 1) (rl_last_index (rc_log c)))"

text \<open>\<open>propose\<close> up to the point where the caller parks on channel \<open>tx\<close>.\<close>

definition rc_propose :: "raft_command \<Rightarrow> nat \<Rightarrow> 'e consensus \<Rightarrow> 'e consensus \<times> unit result" where
  "rc_propose cmd tx c =
     (if is_config_change cmd \<and> has_uncommitted_config_change c
      then (c, Inl (Raft ''previous configuration change is not yet committed''))
      else case encode_cmd cmd of
             Inl err \<Rightarrow> (c, Inl err)
           | Inr encoded \<Rightarrow>
               if removed c then (c, Inl (Raft ''node has been removed from the cluster''))
               else if rc_role c \<noteq> Leader
               then (c, Inl (NotLeader (Option.bind (leader_id c) (cm_address (rc_membership c)))))
               else (c\<lparr>pending := pending c @ [\<lparr>p_encoded = encoded, p_tx = Some tx\<rparr>]\<rparr>, Inr ()))"

definition flush_pending_proposes :: "'e env \<Rightarrow> 'e consensus \<Rightarrow> 'e consensus \<times> nat result" where
  "flush_pending_proposes ev c =
     (if rc_role c \<noteq> Leader \<or> removed c then (c, Inr 0)
      else if pending c = [] then (c, Inr 0)
      else
        let trm = current_term c;
            ps = pending c;
            c0 = c\<lparr>pending := []\<rparr>;
            io = ev_io ev (command_entries trm (rl_last_index (rc_log c) + 1) (map p_encoded ps))
        in case rl_append_commands (ev_xxh ev) io (rc_log c0) trm (map p_encoded ps) of
             (l, Inl err) \<Rightarrow>
               (c0\<lparr>rc_log := l, rc_replies := rc_replies c0 @ map (\<lambda>p. (p_tx p, Inl (Raft ''raft log append failed''))) ps\<rparr>,
                Inl err)
           | (l, Inr start) \<Rightarrow>
               let c1 = foldl (\<lambda>c i. case rl_entry (rc_log c) (start + word_of_nat i) of
                                          None \<Rightarrow> c
                                        | Some e \<Rightarrow> apply_appended_config_changes ev [e] c)
                          (c0\<lparr>rc_log := l\<rparr>) [0 ..< length ps]
               in if rc_role c1 \<noteq> Leader \<or> current_term c1 \<noteq> trm
                  then (c1\<lparr>rc_replies := rc_replies c1 @
                             map (\<lambda>p. (p_tx p, Inl (Raft ''lost leadership during batched propose''))) ps\<rparr>,
                        Inl (Raft ''lost leadership during batched propose''))
                  else
                    let c2 = c1\<lparr>waiters := waiters c1 @
                               map (\<lambda>(i, p). \<lparr>w_index = start + word_of_nat i, w_tx = p_tx p\<rparr>) (enumerate 0 ps),
                             match_index := (match_index c1)(rc_id c1 \<mapsto> rl_last_index (rc_log c1))\<rparr>;
                        c3 = advance_commit_index c2;
                        c4 = (if 0 < commit_index c3
                              then notify_waiters (fst (apply_committed_to ev (commit_index c3) c3)) else c3)
                    in (c4, Inr (length ps)))"

section \<open>Following a leader\<close>

text \<open>
  The loop over the entries of an AppendEntries request: what is still to be appended, whether
  the log was truncated, and a failed write or a gap as the early return \<open>Inl\<close>.
\<close>

primrec append_loop ::
  "'e env \<Rightarrow> u64 \<Rightarrow> log_entry list \<Rightarrow> log_entry list \<Rightarrow> bool \<Rightarrow> 'e consensus \<Rightarrow>
   'e consensus \<times> (unit + log_entry list \<times> bool)"
where
  "append_loop ev snap_idx [] to_append truncated c = (c, Inr (to_append, truncated))"
| "append_loop ev snap_idx (e # es) to_append truncated c =
     (if le_index e \<le> snap_idx then append_loop ev snap_idx es to_append truncated c
      else case rl_term_at (rc_log c) (le_index e) of
             Some existing \<Rightarrow>
               if existing \<noteq> le_term e then
                 (if to_append \<noteq> [] then
                    (case rl_append_batch (ev_xxh ev) (ev_io ev to_append) (rc_log c) to_append of
                       (l, Inl _) \<Rightarrow> (c\<lparr>rc_log := l\<rparr>, Inl ())
                     | (l, Inr _) \<Rightarrow>
                         let c1 = apply_appended_config_changes ev to_append (c\<lparr>rc_log := l\<rparr>)
                         in append_loop ev snap_idx es [e] True
                              (c1\<lparr>rc_log := rl_truncate_after (rc_log c1) (le_index e - 1)\<rparr>))
                  else append_loop ev snap_idx es [e] True
                         (c\<lparr>rc_log := rl_truncate_after (rc_log c) (le_index e - 1)\<rparr>))
               else append_loop ev snap_idx es to_append truncated c
           | None \<Rightarrow>
               if le_index e = rl_last_index (rc_log c) + 1 + word_of_nat (length to_append)
               then append_loop ev snap_idx es (to_append @ [e]) truncated c
               else if rl_last_index (rc_log c) + 1 + word_of_nat (length to_append) < le_index e
               then (c, Inl ())
               else append_loop ev snap_idx es to_append truncated c)"

definition append_tail :: "'e env \<Rightarrow> log_entry list \<Rightarrow> bool \<Rightarrow> 'e consensus \<Rightarrow> 'e consensus \<times> (unit + unit)" where
  "append_tail ev to_append truncated c =
     (let c1 = (if truncated then rebuild_membership_from_log c else c) in
      if to_append \<noteq> [] then
        (case rl_append_batch (ev_xxh ev) (ev_io ev to_append) (rc_log c1) to_append of
           (l, Inl _) \<Rightarrow> (c1\<lparr>rc_log := l\<rparr>, Inl ())
         | (l, Inr _) \<Rightarrow> (apply_appended_config_changes ev to_append (c1\<lparr>rc_log := l\<rparr>), Inr ()))
      else (c1, Inr ()))"

text \<open>The log part of the handler, after the consistency check.\<close>

definition append_to_log :: "'e env \<Rightarrow> log_entry list \<Rightarrow> 'e consensus \<Rightarrow> 'e consensus \<times> (unit + unit)" where
  "append_to_log ev es c =
     (case append_loop ev (sm_index (rl_snapshot (rc_log c))) es [] False c of
        (c1, Inl _) \<Rightarrow> (c1, Inl ())
      | (c1, Inr (to_append, truncated)) \<Rightarrow> append_tail ev to_append truncated c1)"

definition hear_leader :: "'e env \<Rightarrow> u64 \<Rightarrow> u64 \<Rightarrow> 'e consensus \<Rightarrow> 'e consensus" where
  "hear_leader ev trm leader c =
     (if current_term c < trm \<or> rc_role c \<noteq> Follower then become_follower ev trm (Some leader) c
      else c\<lparr>leader_id := Some leader, last_heartbeat := ev_now ev\<rparr>)"

definition handle_append_entries ::
  "'e env \<Rightarrow> u64 \<Rightarrow> u64 \<Rightarrow> u64 \<Rightarrow> u64 \<Rightarrow> log_entry list \<Rightarrow> u64 \<Rightarrow> 'e consensus \<Rightarrow>
   'e consensus \<times> (u64 \<times> bool \<times> u64)"
where
  "handle_append_entries ev trm leader prev_log_index prev_log_term entries leader_commit c =
     (if trm < current_term c then (c, (current_term c, False, 0))
      else
        let c1 = hear_leader ev trm leader c in
        if 0 < prev_log_index \<and> rl_term_at (rc_log c1) prev_log_index \<noteq> Some prev_log_term
        then (c1, (current_term c1, False, rl_last_index (rc_log c1)))
        else case append_to_log ev entries c1 of
               (c2, Inl _) \<Rightarrow> (c2, (current_term c1, False, rl_last_index (rc_log c2)))
             | (c2, Inr _) \<Rightarrow>
                 let matched = rl_last_index (rc_log c2);
                     c3 = (if commit_index c2 < leader_commit
                           then c2\<lparr>commit_index := min leader_commit matched\<rparr> else c2);
                     c4 = fst (apply_committed_to ev (commit_index c3) c3)
                 in (c4, (current_term c4, True, matched)))"

definition handle_install_snapshot ::
  "'e env \<Rightarrow> u64 \<Rightarrow> u64 \<Rightarrow> u64 \<Rightarrow> u64 \<Rightarrow> bytes \<Rightarrow> bool \<Rightarrow> 'e consensus \<Rightarrow> 'e consensus \<times> u64 result"
where
  "handle_install_snapshot ev trm leader index last_term data finished c =
     (if trm < current_term c then (c, Inr (current_term c))
      else
        let c1 = become_follower ev trm (Some leader) c;
            buf = (case snapshot_buf c1 of
                     Some (i, t, b) \<Rightarrow> if i = index \<and> t = last_term then b @ data else data
                   | None \<Rightarrow> data)
        in if \<not> finished then (c1\<lparr>snapshot_buf := Some (index, last_term, buf)\<rparr>, Inr (current_term c1))
           else
             let c2 = c1\<lparr>snapshot_buf := None\<rparr> in
             case ev_install_sst_snapshot ev (rc_engine c2) buf index last_term of
               (e, Inl err) \<Rightarrow> (c2\<lparr>rc_engine := e\<rparr>, Inl err)
             | (e, Inr m) \<Rightarrow>
                 (case rl_install_snapshot (ev_xxh ev) (rc_log c2) index last_term of
                    (l, Inl err) \<Rightarrow> (c2\<lparr>rc_engine := e, rc_log := l\<rparr>, Inl err)
                  | (l, Inr _) \<Rightarrow>
                      let c3 = c2\<lparr>rc_engine := e, rc_log := l,
                                  commit_index := (if commit_index c2 < index then index else commit_index c2)\<rparr>;
                          c4 = (if cm_is_empty m then c3
                                else write_membership (c3\<lparr>base_membership := m, rc_membership := m,
                                       membership_gen := sat_add (membership_gen c3) 1,
                                       removed := (\<not> cm_contains m (rc_id c3))\<rparr>))
                      in (c4, Inr (current_term c4))))"

section \<open>Leading\<close>

definition SNAPSHOT_COOLDOWN :: nat where
  "SNAPSHOT_COOLDOWN = 2000"

definition peer_needs_snapshot :: "'e env \<Rightarrow> u64 \<Rightarrow> 'e consensus \<Rightarrow> 'e consensus \<times> bool" where
  "peer_needs_snapshot ev peer c =
     (if rc_role c \<noteq> Leader then (c, False)
      else
        let next = opt_or (next_index c peer) 1;
            snap = sm_index (rl_snapshot (rc_log c))
        in if snap = 0 \<or> snap < next then (c, False)
           else case snapshot_attempt c peer of
                  Some prev \<Rightarrow>
                    if ev_now ev - prev < SNAPSHOT_COOLDOWN then (c, False)
                    else (c\<lparr>snapshot_attempt := (snapshot_attempt c)(peer \<mapsto> ev_now ev)\<rparr>, True)
                | None \<Rightarrow> (c\<lparr>snapshot_attempt := (snapshot_attempt c)(peer \<mapsto> ev_now ev)\<rparr>, True))"

definition on_peer_unreachable :: "u64 \<Rightarrow> 'e consensus \<Rightarrow> 'e consensus" where
  "on_peer_unreachable peer c =
     (if rc_role c \<noteq> Leader then c
      else
        let next = opt_or (next_index c peer) 1;
            snap = sm_index (rl_snapshot (rc_log c))
        in c\<lparr>next_index := (next_index c)(peer \<mapsto>
               (if 0 < snap \<and> snap < next then max ((next + snap) div 2) snap else max (sat_sub next 1) 1))\<rparr>)"

definition build_install_snapshot ::
  "'e env \<Rightarrow> 'e consensus \<Rightarrow> 'e consensus \<times> (u64 \<times> u64 \<times> u64 \<times> u64 \<times> bytes) result"
where
  "build_install_snapshot ev c =
     (if rc_role c \<noteq> Leader then (c, Inl (Raft ''not leader''))
      else
        let compacted =
              (if sm_index (rl_snapshot (rc_log c)) = 0 then
                 let applied = ev_last_applied ev (rc_engine c) in
                 if applied = 0 then (c, Inl (Raft ''no local snapshot to install''))
                 else case rl_term_at (rc_log c) applied of
                        None \<Rightarrow> (c, Inl (Raft ''missing term at applied index''))
                      | Some t \<Rightarrow>
                          (case ev_force_flush ev (rc_engine c) of
                             (e, Inl err) \<Rightarrow> (c\<lparr>rc_engine := e\<rparr>, Inl err)
                           | (e, Inr _) \<Rightarrow>
                               (case rl_compact_through (ev_xxh ev) (rc_log c) applied t of
                                  (l, r) \<Rightarrow> (c\<lparr>rc_engine := e, rc_log := l\<rparr>, r)))
               else (c, Inr ()))
        in case compacted of
             (c1, Inl err) \<Rightarrow> (c1, Inl err)
           | (c1, Inr _) \<Rightarrow>
               let snap = rl_snapshot (rc_log c1) in
               if sm_index snap = 0 then (c1, Inl (Raft ''no local snapshot to install''))
               else (c1, rbind (ev_export_sst_snapshot ev (rc_engine c1) (sm_index snap) (sm_term snap) (rc_membership c))
                      (\<lambda>data. Inr (current_term c, rc_id c, sm_index snap, sm_term snap, data))))"

definition on_snapshot_success :: "u64 \<Rightarrow> u64 \<Rightarrow> 'e consensus \<Rightarrow> 'e consensus" where
  "on_snapshot_success peer index c =
     (if rc_role c \<noteq> Leader then c
      else advance_commit_index (c\<lparr>match_index := (match_index c)(peer \<mapsto> index),
             next_index := (next_index c)(peer \<mapsto> index + 1), snapshot_attempt := (snapshot_attempt c)(peer := None)\<rparr>))"

definition MAX_BATCH :: nat where
  "MAX_BATCH = 2048"

definition leader_peer_cursor ::
  "u64 \<Rightarrow> 'e consensus \<Rightarrow> (u64 \<times> u64 \<times> u64 \<times> u64 \<times> log_entry list \<times> u64) option"
where
  "leader_peer_cursor peer c =
     (if rc_role c \<noteq> Leader then None
      else
        let next = opt_or (next_index c peer) 1;
            snap = sm_index (rl_snapshot (rc_log c))
        in if 0 < snap \<and> next \<le> snap then None
           else
             let prev = sat_sub next 1
             in Some (current_term c, rc_id c, prev, opt_or (rl_term_at (rc_log c) prev) 0,
                      take MAX_BATCH (rl_entries_from (rc_log c) next), commit_index c))"

definition ensure_peer_cursors :: "u64 \<Rightarrow> 'e consensus \<Rightarrow> 'e consensus" where
  "ensure_peer_cursors peer c =
     (if rc_role c \<noteq> Leader then c
      else
        let last = rl_last_index (rc_log c);
            snap = sm_index (rl_snapshot (rc_log c));
            c1 = c\<lparr>next_index := (next_index c)(peer \<mapsto> opt_or (next_index c peer) (last + 1)),
                   match_index := (match_index c)(peer \<mapsto> opt_or (match_index c peer) 0)\<rparr>
        in if 0 < snap then c1\<lparr>next_index := (next_index c1)(peer \<mapsto> snap)\<rparr> else c1)"

definition on_append_success :: "'e env \<Rightarrow> u64 \<Rightarrow> u64 \<Rightarrow> 'e consensus \<Rightarrow> 'e consensus" where
  "on_append_success ev peer matched c =
     (if rc_role c \<noteq> Leader then c
      else
        let c1 = advance_commit_index (c\<lparr>match_index := (match_index c)(peer \<mapsto> matched),
                   next_index := (next_index c)(peer \<mapsto> matched + 1)\<rparr>)
        in notify_waiters (fst (apply_committed_to ev (commit_index c1) c1)))"

definition on_append_failure :: "'e env \<Rightarrow> u64 \<Rightarrow> u64 \<Rightarrow> u64 \<Rightarrow> 'e consensus \<Rightarrow> 'e consensus" where
  "on_append_failure ev peer remote_term hint c =
     (if current_term c < remote_term then become_follower ev remote_term None c
      else if rc_role c \<noteq> Leader then c
      else
        let next = opt_or (next_index c peer) 1
        in c\<lparr>next_index := (next_index c)(peer \<mapsto>
               (if 0 < hint then max (min (hint + 1) next) 1 else max (sat_sub next 1) 1))\<rparr>)"

section \<open>Drivers\<close>

text \<open>
  The rounds of \<open>network.rs\<close>. An RPC is a function to its response, \<open>None\<close> when the call fails;
  \<open>order\<close> is the order in which the vote responses arrive.
\<close>

primrec tally_votes :: "'e env \<Rightarrow> u64 \<Rightarrow> u64 list \<Rightarrow> (u64 \<times> bool) list \<Rightarrow> 'e consensus \<Rightarrow> 'e consensus" where
  "tally_votes ev trm [] votes c = c"
| "tally_votes ev trm (p # ps) votes c =
     (case record_vote_granted trm p votes c of
        (votes', won) \<Rightarrow> if won then become_leader ev trm c else tally_votes ev trm ps votes' c)"

definition run_election ::
  "'e env \<Rightarrow> (u64 \<Rightarrow> u64 \<Rightarrow> u64 \<Rightarrow> u64 \<Rightarrow> (u64 \<times> bool) option) \<Rightarrow> u64 list \<Rightarrow> 'e consensus \<Rightarrow> 'e consensus"
where
  "run_election ev request_vote order c =
     (case start_election ev c of
        (c1, (trm, last_idx, last_term)) \<Rightarrow>
          let peer_ids = cm_peers_except (rc_membership c1) (rc_id c1) in
          if peer_ids = [] \<and> cm_quorum (rc_membership c1) \<le> 1 then become_leader ev trm c1
          else
            let resp = (\<lambda>p. request_vote p trm last_idx last_term);
                c2 = foldl (\<lambda>c p. case resp p of None \<Rightarrow> c | Some (t, _) \<Rightarrow> maybe_step_down ev t c) c1 order;
                granted = filter (\<lambda>p. case resp p of None \<Rightarrow> False | Some (t, g) \<Rightarrow> g \<and> t = trm) peer_ids
            in tally_votes ev trm granted [] c2)"

definition replicate_append ::
  "'e env \<Rightarrow> (u64 \<times> u64 \<times> u64 \<times> u64 \<times> log_entry list \<times> u64 \<Rightarrow> (u64 \<times> bool \<times> u64) option) \<Rightarrow>
   u64 \<Rightarrow> 'e consensus \<Rightarrow> 'e consensus"
where
  "replicate_append ev append_entries peer c =
     (case leader_peer_cursor peer c of
        None \<Rightarrow> c
      | Some req \<Rightarrow>
          (case append_entries req of
             None \<Rightarrow> on_peer_unreachable peer c
           | Some (t, success, matched) \<Rightarrow>
               let c1 = maybe_step_down ev t c
               in if success then on_append_success ev peer matched c1
                  else on_append_failure ev peer t matched c1))"

definition replicate_snapshot ::
  "'e env \<Rightarrow> (u64 \<times> u64 \<times> u64 \<times> u64 \<times> bytes \<Rightarrow> u64 option) \<Rightarrow> u64 \<Rightarrow> 'e consensus \<Rightarrow> 'e consensus"
where
  "replicate_snapshot ev install_snapshot peer c =
     (case build_install_snapshot ev c of
        (c1, Inl _) \<Rightarrow> c1
      | (c1, Inr (trm, leader, last_idx, last_term, data)) \<Rightarrow>
          (case install_snapshot (trm, leader, last_idx, last_term, data) of
             None \<Rightarrow> on_peer_unreachable peer c1
           | Some t \<Rightarrow>
               let c2 = maybe_step_down ev t c1
               in if t = trm then on_snapshot_success peer last_idx c2 else c2))"

definition replicate_peer ::
  "'e env \<Rightarrow> (u64 \<times> u64 \<times> u64 \<times> u64 \<times> log_entry list \<times> u64 \<Rightarrow> (u64 \<times> bool \<times> u64) option) \<Rightarrow>
   (u64 \<times> u64 \<times> u64 \<times> u64 \<times> bytes \<Rightarrow> u64 option) \<Rightarrow> u64 \<Rightarrow> 'e consensus \<Rightarrow> 'e consensus"
where
  "replicate_peer ev append_entries install_snapshot peer c =
     (case peer_needs_snapshot ev peer c of
        (c1, True) \<Rightarrow> replicate_snapshot ev install_snapshot peer c1
      | (c1, False) \<Rightarrow> replicate_append ev append_entries peer c1)"

end
