(* ===== verification/Consensus_Safety.thy ===== *)
theory Consensus_Safety
  imports Consensus
begin

text \<open>
  Safety of the consensus handlers: commitment by quorum, one vote per term, and the log a
  follower has after an AppendEntries request.
\<close>

section \<open>Commitment\<close>

lemma foldl_last_such:
  "foldl (\<lambda>c n. if P n then n else c) c ns = (case find P (rev ns) of None \<Rightarrow> c | Some n \<Rightarrow> n)"
proof (induction ns rule: rev_induct)
  case (snoc n ns)
  then show ?case by simp
qed simp

text \<open>The members whose match index reaches \<open>n\<close>.\<close>

definition replicas :: "'e consensus \<Rightarrow> u64 \<Rightarrow> u64 set" where
  "replicas c n = {p \<in> set (cm_members (rc_membership c)). n \<le> match_or_zero (match_index c) p}"

definition committable :: "'e consensus \<Rightarrow> u64 \<Rightarrow> bool" where
  "committable c n \<longleftrightarrow> rl_term_at (rc_log c) n = Some (current_term c) \<and> is_quorum (rc_membership c) (replicas c n)"

lemma card_replicas:
  assumes "cm_inv (rc_membership c)"
  shows "length (filter (\<lambda>p. n \<le> match_or_zero (match_index c) p) (cm_members (rc_membership c))) = card (replicas c n)"
proof -
  have "distinct (cm_members (rc_membership c))" using assms by (simp add: cm_inv_def strict_sorted_iff)
  then show ?thesis by (simp add: replicas_def distinct_card [symmetric])
qed

lemma is_quorum_replicas:
  "is_quorum (rc_membership c) (replicas c n) \<longleftrightarrow> cm_quorum (rc_membership c) \<le> card (replicas c n)"
  by (auto simp: is_quorum_def replicas_def)

lemma advance_loop_committable:
  assumes "cm_inv (rc_membership c)"
  shows "advance_loop (rc_log c) (current_term c) (rc_membership c) (match_index c) k ns =
    (case find (committable c) (rev ns) of None \<Rightarrow> k | Some n \<Rightarrow> n)"
proof -
  have "(\<lambda>commit n. if rl_term_at (rc_log c) n \<noteq> Some (current_term c) then commit
       else if cm_quorum (rc_membership c) \<le>
         length (filter (\<lambda>p. n \<le> match_or_zero (match_index c) p) (cm_members (rc_membership c)))
       then n else commit) = (\<lambda>commit n. if committable c n then n else commit)"
    by (auto simp: fun_eq_iff committable_def is_quorum_replicas card_replicas [OF assms])
  then show ?thesis by (simp add: advance_loop_def foldl_last_such)
qed

lemma sorted_u64_range: "sorted_wrt (<) (u64_range a b)"
proof -
  have "sorted_wrt (\<lambda>x y. word_of_nat x < (word_of_nat y :: u64)) [unat a ..< Suc (unat b)]"
  proof (rule sorted_wrt_mono_rel [OF _ sorted_wrt_upt])
    fix x y assume xy: "x \<in> set [unat a ..< Suc (unat b)]" "y \<in> set [unat a ..< Suc (unat b)]" "x < y"
    then have "x < 2 ^ 64" "y < 2 ^ 64" using unat_lt2p [of b] by auto
    then have "unat (word_of_nat x :: u64) = x" "unat (word_of_nat y :: u64) = y"
      by (simp_all add: unat_of_nat_eq)
    then show "word_of_nat x < (word_of_nat y :: u64)" using xy(3) by (simp add: word_less_nat_alt)
  qed
  then show ?thesis by (simp add: u64_range_def sorted_wrt_map)
qed

lemma find_rev_sorted:
  assumes "sorted_wrt (<) (xs :: u64 list)" "find P (rev xs) = Some n" "m \<in> set xs" "P m"
  shows "m \<le> n"
  using assms
proof (induction xs rule: rev_induct)
  case (snoc x xs)
  then show ?case by (auto simp: sorted_wrt_append less_imp_le split: if_splits dest!: find_SomeD)
qed simp

lemma advance_commit_spec:
  assumes "rc_role c = Leader" "cm_inv (rc_membership c)"
  defines "c' \<equiv> advance_commit_index c"
  shows "if \<exists>n. commit_index c + 1 \<le> n \<and> n \<le> rl_last_index (rc_log c) \<and> committable c' n
    then commit_index c + 1 \<le> commit_index c' \<and> commit_index c' \<le> rl_last_index (rc_log c) \<and>
      committable c' (commit_index c') \<and>
      (\<forall>n. commit_index c' < n \<and> n \<le> rl_last_index (rc_log c) \<longrightarrow> \<not> committable c' n)
    else commit_index c' = commit_index c"
proof -
  let ?ns = "u64_range (commit_index c + 1) (rl_last_index (rc_log c))"
  have same: "rc_log c' = rc_log c" "current_term c' = current_term c" "rc_membership c' = rc_membership c"
    using assms(1) by (simp_all add: c'_def advance_commit_index_def Let_def)
  have commit: "commit_index c' = (case find (committable c') (rev ?ns) of None \<Rightarrow> commit_index c | Some n \<Rightarrow> n)"
  proof -
    have "commit_index c' = advance_loop (rc_log c') (current_term c') (rc_membership c') (match_index c')
        (commit_index c) ?ns"
      using assms(1) by (simp add: c'_def advance_commit_index_def Let_def)
    then show ?thesis using advance_loop_committable [of c'] assms(2) same by simp
  qed
  show ?thesis
  proof (cases "find (committable c') (rev ?ns)")
    case None
    then have "\<forall>n \<in> set ?ns. \<not> committable c' n" by (simp add: find_None)
    then show ?thesis using None commit by auto
  next
    case (Some m)
    have m: "m \<in> set ?ns" "committable c' m" using find_SomeD [OF Some] by auto
    have "\<not> committable c' n" if "m < n" "n \<le> rl_last_index (rc_log c)" for n
    proof
      assume "committable c' n"
      moreover have "n \<in> set ?ns" using m(1) that order_trans [OF _ less_imp_le [OF that(1)]] by simp
      ultimately have "n \<le> m" using find_rev_sorted [OF sorted_u64_range Some] by blast
      then show False using that(1) by simp
    qed
    then show ?thesis using m Some commit by auto
  qed
qed

section \<open>Votes\<close>

text \<open>
  The vote-related calls on a node: vote requests, its own elections, and terms learned from
  responses. \<open>ve_run\<close> collects the votes given, with their terms.
\<close>

datatype vote_event = VoteRequest u64 u64 u64 u64 | OwnElection | RemoteTerm u64

fun ve_step :: "'e env \<Rightarrow> 'e consensus \<times> (u64 \<times> u64) list \<Rightarrow> vote_event \<Rightarrow> 'e consensus \<times> (u64 \<times> u64) list" where
  "ve_step ev (c, votes) (VoteRequest trm cand li lt) =
     (case handle_request_vote ev trm cand li lt c of
        (c', (_, granted)) \<Rightarrow> (c', if granted then votes @ [(trm, cand)] else votes))"
| "ve_step ev (c, votes) OwnElection =
     (case start_election ev c of
        (c', _) \<Rightarrow> (c', if current_term c' \<noteq> current_term c then votes @ [(current_term c', rc_id c')] else votes))"
| "ve_step ev (c, votes) (RemoteTerm trm) = (maybe_step_down ev trm c, votes)"

fun ve_term :: "vote_event \<Rightarrow> u64" where
  "ve_term (VoteRequest trm _ _ _) = trm"
| "ve_term OwnElection = 0"
| "ve_term (RemoteTerm trm) = trm"

text \<open>Votes given so far are not in later terms, and the vote of the current term is remembered.\<close>

definition vote_inv :: "'e consensus \<times> (u64 \<times> u64) list \<Rightarrow> bool" where
  "vote_inv s \<longleftrightarrow>
     (\<forall>(t, cand) \<in> set (snd s). t \<le> current_term (fst s) \<and>
        (t = current_term (fst s) \<longrightarrow> voted_for (fst s) = Some cand)) \<and>
     (\<forall>(t, a) \<in> set (snd s). \<forall>(t', b) \<in> set (snd s). t = t' \<longrightarrow> a = b)"

lemma fail_parked_simps [simp]:
  "current_term (fail_parked c) = current_term c" "voted_for (fail_parked c) = voted_for c"
  "rc_role (fail_parked c) = rc_role c" "rc_id (fail_parked c) = rc_id c" "rc_log (fail_parked c) = rc_log c"
  "rc_membership (fail_parked c) = rc_membership c" "removed (fail_parked c) = removed c"
  "commit_index (fail_parked c) = commit_index c" "rc_engine (fail_parked c) = rc_engine c"
  by (simp_all add: fail_parked_def)

lemma become_follower_simps [simp]:
  "current_term (become_follower ev t l c) = t" "voted_for (become_follower ev t l c) = None"
  "rc_role (become_follower ev t l c) = Follower" "rc_id (become_follower ev t l c) = rc_id c"
  "rc_log (become_follower ev t l c) = rc_log c" "rc_membership (become_follower ev t l c) = rc_membership c"
  "removed (become_follower ev t l c) = removed c" "commit_index (become_follower ev t l c) = commit_index c"
  "rc_engine (become_follower ev t l c) = rc_engine c"
  by (simp_all add: become_follower_def)

lemma vote_inv_later:
  assumes "vote_inv (c, votes)" "current_term c < current_term c'"
  shows "vote_inv (c', votes)" "voted_for c' = Some cand \<Longrightarrow> vote_inv (c', votes @ [(current_term c', cand)])"
proof -
  have lt: "t < current_term c'" if "(t, a) \<in> set votes" for t a
    using that assms by (fastforce simp: vote_inv_def)
  have uniq: "a = b" if "(t, a) \<in> set votes" "(t, b) \<in> set votes" for t a b
    using that assms(1) by (fastforce simp: vote_inv_def)
  show "vote_inv (c', votes)"
    unfolding vote_inv_def using lt uniq by (fastforce simp: less_imp_le)
  show "voted_for c' = Some cand \<Longrightarrow> vote_inv (c', votes @ [(current_term c', cand)])"
    unfolding vote_inv_def using lt uniq by (fastforce simp: less_imp_le)
qed

lemma vote_inv_now:
  assumes "vote_inv (c, votes)" "current_term c' = current_term c" "voted_for c' = Some cand"
    and "voted_for c = None \<or> voted_for c = Some cand"
  shows "vote_inv (c', votes @ [(current_term c', cand)])"
proof -
  have now: "t \<le> current_term c \<and> (t = current_term c \<longrightarrow> a = cand)" if "(t, a) \<in> set votes" for t a
    using that assms(1,4) by (fastforce simp: vote_inv_def)
  have uniq: "a = b" if "(t, a) \<in> set votes" "(t, b) \<in> set votes" for t a b
    using that assms(1) by (fastforce simp: vote_inv_def)
  show ?thesis unfolding vote_inv_def using now uniq assms(2,3) by fastforce
qed

lemma vote_inv_step:
  assumes "vote_inv s" "e = OwnElection \<Longrightarrow> current_term (fst s) \<noteq> u64_max"
  shows "vote_inv (ve_step ev s e)"
proof (cases s)
  case (Pair c votes)
  with assms(1) have inv: "vote_inv (c, votes)" by simp
  show ?thesis
  proof (cases e)
    case (VoteRequest trm cand li lt)
    show ?thesis
    proof (cases "current_term c < trm")
      case True
      let ?c1 = "become_follower ev trm None c"
      show ?thesis
        using True inv vote_inv_later(1) [OF inv, of ?c1]
          vote_inv_later(2) [OF inv, of "?c1\<lparr>voted_for := Some cand, last_heartbeat := ev_now ev\<rparr>" cand]
        by (auto simp: Pair VoteRequest handle_request_vote_def Let_def not_less)
    next
      case False
      then show ?thesis
        using vote_inv_now [OF inv, of "c\<lparr>voted_for := Some cand, last_heartbeat := ev_now ev\<rparr>" cand] inv
        by (auto simp: Pair VoteRequest handle_request_vote_def Let_def not_less split: option.splits)
    qed
  next
    case OwnElection
    have "current_term c < current_term c + 1" using assms(2) OwnElection Pair u64_less_succ by simp
    then show ?thesis
      using vote_inv_later(2) [OF inv, of "fst (start_election ev c)" "rc_id c"] inv
      by (auto simp: Pair OwnElection start_election_def Let_def)
  next
    case (RemoteTerm trm)
    then show ?thesis
      using vote_inv_later(1) [OF inv, of "become_follower ev trm None c"] inv
      by (auto simp: Pair maybe_step_down_def)
  qed
qed

text \<open>Terms grow by at most one per event beyond those received, so they do not wrap.\<close>

definition terms_fit :: "'e consensus \<Rightarrow> vote_event list \<Rightarrow> bool" where
  "terms_fit c es \<longleftrightarrow> unat (current_term c) + length es < 2 ^ 64 \<and> (\<forall>e \<in> set es. unat (ve_term e) + length es < 2 ^ 64)"

lemma ve_step_term:
  "current_term (fst (ve_step ev (c, votes) e)) \<in> {current_term c, current_term c + 1, ve_term e}"
  by (cases e) (auto simp: handle_request_vote_def start_election_def maybe_step_down_def Let_def)

lemma vote_inv_run:
  "vote_inv s \<Longrightarrow> terms_fit (fst s) es \<Longrightarrow> vote_inv (foldl (ve_step ev) s es)"
proof (induction es arbitrary: s)
  case (Cons e es)
  let ?s = "ve_step ev s e"
  have fit: "unat (current_term (fst s)) + length (e # es) < 2 ^ 64" "unat (ve_term e) + length (e # es) < 2 ^ 64"
    "\<forall>e \<in> set es. unat (ve_term e) + length es < 2 ^ 64"
    using Cons.prems(2) by (auto simp: terms_fit_def)
  then have nmax: "current_term (fst s) \<noteq> u64_max" by auto
  then have "unat (current_term (fst s) + 1) = unat (current_term (fst s)) + 1"
    using sat_add_1 sat_add_succ by metis
  then have "unat (current_term (fst ?s)) + length es < 2 ^ 64"
    using ve_step_term [of ev "fst s" "snd s" e] fit by auto
  then have "terms_fit (fst ?s) es" using fit(3) by (simp add: terms_fit_def)
  moreover have "vote_inv ?s" by (rule vote_inv_step [OF Cons.prems(1)]) (use nmax in simp)
  ultimately show ?case using Cons.IH by simp
qed simp

section \<open>The follower's log\<close>

text \<open>
  What an AppendEntries request makes of a log \<open>G\<close>: the entries sent after index \<open>prev\<close> that
  agree in term are kept, and from the first that does not, the log is replaced.
\<close>

definition agreeing :: "log_entry list \<Rightarrow> nat \<Rightarrow> log_entry list \<Rightarrow> nat" where
  "agreeing G prev es = length (takeWhile (\<lambda>(e, g). le_term e = le_term g) (zip es (drop prev G)))"

definition log_merge :: "log_entry list \<Rightarrow> nat \<Rightarrow> log_entry list \<Rightarrow> log_entry list" where
  "log_merge G prev es =
     (let k = agreeing G prev es in if k = length es then G else take (prev + k) G @ drop k es)"

lemma log_merge_Nil [simp]: "log_merge G prev [] = G"
  by (simp add: log_merge_def agreeing_def)

lemma log_merge_Cons:
  assumes "prev \<le> length G"
  shows "log_merge G prev (e # es) =
    (if prev < length G \<and> le_term (G ! prev) = le_term e then log_merge G (Suc prev) es
     else take prev G @ e # es)"
proof (cases "prev < length G")
  case True
  then have "drop prev G = G ! prev # drop (Suc prev) G" by (simp add: Cons_nth_drop_Suc)
  then show ?thesis using True by (auto simp: log_merge_def agreeing_def Let_def)
next
  case False
  then show ?thesis using assms by (auto simp: log_merge_def agreeing_def Let_def)
qed

lemma log_merge_agrees:
  assumes "prev \<le> length G"
  shows "prev + length es \<le> length (log_merge G prev es)" "take prev (log_merge G prev es) = take prev G"
    "i < length es \<Longrightarrow> le_term (log_merge G prev es ! (prev + i)) = le_term (es ! i)"
  using assms
proof (induction es arbitrary: prev i)
  case (Cons e es)
  {
    case 1
    then show ?case using Cons.IH(1) [of "Suc prev"] by (auto simp: log_merge_Cons)
  next
    case 2
    have "take prev (log_merge G (Suc prev) es) = take prev G" if "prev < length G"
      using arg_cong [OF Cons.IH(2) [of "Suc prev"], of "take prev"] that by simp
    then show ?case using 2 by (auto simp: log_merge_Cons)
  next
    case 3
    show ?case
    proof (cases "prev < length G \<and> le_term (G ! prev) = le_term e")
      case True
      have "log_merge G (Suc prev) es ! prev = G ! prev"
        using Cons.IH(2) [of "Suc prev"] True by (metis Suc_leI lessI nth_take)
      then show ?thesis using 3 True Cons.IH(3) [of "i - 1" "Suc prev"] by (cases i) (auto simp: log_merge_Cons)
    next
      case False
      then show ?thesis using 3 by (auto simp: log_merge_Cons nth_append)
    qed
  }
qed simp_all

text \<open>Handlers of a node that does not lead leave the log alone, except for compaction.\<close>

lemma write_membership_simps [simp]:
  "rc_log (write_membership c) = rc_log c" "rc_role (write_membership c) = rc_role c"
  "current_term (write_membership c) = current_term c" "commit_index (write_membership c) = commit_index c"
  "rc_membership (write_membership c) = rc_membership c" "rc_engine (write_membership c) = rc_engine c"
  "rc_id (write_membership c) = rc_id c"
  by (simp_all add: write_membership_def)

lemma config_change_follower:
  "rc_role c \<noteq> Leader \<Longrightarrow> rc_log (apply_config_change_immediate ev cmd c) = rc_log c \<and>
   rc_role (apply_config_change_immediate ev cmd c) = rc_role c \<and>
   current_term (apply_config_change_immediate ev cmd c) = current_term c"
  by (cases cmd) (auto simp: apply_config_change_immediate_def Let_def)

lemma appended_config_follower:
  "rc_role c \<noteq> Leader \<Longrightarrow> rc_log (apply_appended_config_changes ev es c) = rc_log c \<and>
   rc_role (apply_appended_config_changes ev es c) = rc_role c \<and>
   current_term (apply_appended_config_changes ev es c) = current_term c"
  unfolding apply_appended_config_changes_def
  by (induction es arbitrary: c) (auto simp: config_change_follower split: sum.splits)

lemma rebuild_membership_simps [simp]:
  "rc_log (rebuild_membership_from_log c) = rc_log c" "rc_role (rebuild_membership_from_log c) = rc_role c"
  "current_term (rebuild_membership_from_log c) = current_term c"
  by (simp_all add: rebuild_membership_from_log_def Let_def)

text \<open>Entries past the end of the log are collected; scanning entries inside it finds the first conflict.\<close>

lemma append_loop_past_end:
  assumes "rl_refines (H, s) (rc_log c)" "ys \<noteq> []" "consec idx (Suc (length H + length ys)) es"
    and "length H + length ys + length es < 2 ^ 64"
  shows "append_loop ev (word_of_nat s) es ys tr c = (c, Inr (ys @ es, tr))"
  using assms(2-)
proof (induction es arbitrary: ys)
  case (Cons e es)
  note D = rl_refinesD [OF assms(1)]
  have e: "idx e = Suc (length H + length ys)" using Cons.prems(2) by simp
  have "s < 2 ^ 64" using D(1,2) by simp
  then have "\<not> le_index e \<le> word_of_nat s" using e D(2) by (simp add: word_le_nat_alt unat_of_nat_eq)
  moreover have "rl_term_at (rc_log c) (le_index e) = None"
    using e Cons.prems(1) by (simp add: rl_term_at_refines [OF assms(1)] al_term_at_def)
  moreover have "le_index e = rl_last_index (rc_log c) + 1 + word_of_nat (length ys)"
  proof -
    have "rl_last_index (rc_log c) + 1 + word_of_nat (length ys) = word_of_nat (Suc (length H + length ys))"
      using rl_last_index_word [OF assms(1)] by simp
    moreover have "le_index e = word_of_nat (idx e)" by simp
    ultimately show ?thesis using e by (metis)
  qed
  ultimately show ?case using Cons.IH [of "ys @ [e]"] Cons.prems by simp
qed simp

lemma append_loop_scan:
  assumes "rl_refines (G, s) (rc_log c)" "s \<le> n" "n \<le> length G" "consec idx (Suc n) es" "n + length es < 2 ^ 64"
  shows "\<exists>H ys tr l. append_loop ev (word_of_nat s) es [] False c = (c\<lparr>rc_log := l\<rparr>, Inr (ys, tr)) \<and>
    rl_refines (H, s) l \<and> H @ ys = log_merge G n es \<and> consec idx (Suc (length H)) ys \<and> length (H @ ys) < 2 ^ 64"
  using assms(2-)
proof (induction es arbitrary: n)
  case Nil
  have "append_loop ev (word_of_nat s) [] [] False c = (c\<lparr>rc_log := rc_log c\<rparr>, Inr ([], False))" by simp
  then show ?case using assms(1) rl_refinesD(1) [OF assms(1)] by (metis append_Nil2 consec.simps(1) log_merge_Nil)
next
  case (Cons e es)
  note D = rl_refinesD [OF assms(1)]
  have e: "idx e = Suc n" and es: "consec idx (Suc (Suc n)) es" using Cons.prems(3) by auto
  have "s < 2 ^ 64" using D(1,2) by simp
  then have above: "\<not> le_index e \<le> word_of_nat s"
    using e Cons.prems(1) by (simp add: word_le_nat_alt unat_of_nat_eq)
  have at: "rl_term_at (rc_log c) (le_index e) = (if n < length G then Some (le_term (G ! n)) else None)"
    using e Cons.prems(1) by (auto simp: rl_term_at_refines [OF assms(1)] al_term_at_def)
  show ?case
  proof (cases "n < length G \<and> le_term (G ! n) = le_term e")
    case True
    then show ?thesis
      using Cons.IH [of "Suc n"] Cons.prems es above at by (simp add: log_merge_Cons)
  next
    case False
    define tr where "tr \<longleftrightarrow> n < length G"
    define l where "l = (if tr then rl_truncate_after (rc_log c) (le_index e - 1) else rc_log c)"
    have "unat (le_index e - 1) = n" using e by (metis Suc_neq_Zero diff_Suc_1 unat_0 unat_minus_one)
    then have "rl_refines (take n G, s) (rl_truncate_after (rc_log c) (le_index e - 1))"
      using rl_refines_truncate [OF assms(1), of "le_index e - 1"] Cons.prems(1) by (simp add: max_def)
    then have l: "rl_refines (take n G, s) l"
      using assms(1) Cons.prems(2) by (auto simp: l_def tr_def not_less)
    have len: "length (take n G) = n" using Cons.prems(2) by simp
    have next_idx: "le_index e = rl_last_index (rc_log c) + 1" if "\<not> tr"
    proof -
      have "word_of_nat (idx e) = rl_last_index (rc_log c) + 1"
        using rl_last_index_word [OF assms(1)] that Cons.prems(2) e by (simp add: tr_def)
      then show ?thesis by simp
    qed
    have "append_loop ev (word_of_nat s) (e # es) [] False c = append_loop ev (word_of_nat s) es [e] tr (c\<lparr>rc_log := l\<rparr>)"
      using above at False next_idx by (auto simp: l_def tr_def)
    also have "\<dots> = (c\<lparr>rc_log := l\<rparr>, Inr ([e] @ es, tr))"
      by (rule append_loop_past_end) (use l es len Cons.prems(4) in auto)
    finally have loop: "append_loop ev (word_of_nat s) (e # es) [] False c = (c\<lparr>rc_log := l\<rparr>, Inr (e # es, tr))" by simp
    have merge: "take n G @ e # es = log_merge G n (e # es)" using False Cons.prems(2) by (auto simp: log_merge_Cons)
    have "consec idx (Suc (length (take n G))) (e # es)" "length (take n G @ e # es) < 2 ^ 64"
      using Cons.prems(3,4) len by auto
    with loop l merge show ?thesis by blast
  qed
qed

lemma append_to_log_merge:
  assumes "rl_refines (G, s) (rc_log c)" "s \<le> prev" "prev \<le> length G" "consec idx (Suc prev) es"
    and "prev + length es < 2 ^ 64" "ev_io ev = (\<lambda>_. None)" "rc_role c \<noteq> Leader"
  shows "\<exists>c'. append_to_log ev es c = (c', Inr ()) \<and> rl_refines (log_merge G prev es, s) (rc_log c') \<and>
    current_term c' = current_term c"
proof -
  obtain H ys tr l where loop: "append_loop ev (word_of_nat s) es [] False c = (c\<lparr>rc_log := l\<rparr>, Inr (ys, tr))"
    and l: "rl_refines (H, s) l" and H: "H @ ys = log_merge G prev es" "consec idx (Suc (length H)) ys" "length (H @ ys) < 2 ^ 64"
    using append_loop_scan [OF assms(1-5), of ev] by blast
  have snap: "sm_index (rl_snapshot (rc_log c)) = word_of_nat s" using rl_refinesD(4) [OF assms(1)] by auto
  define c1 where "c1 = (if tr then rebuild_membership_from_log (c\<lparr>rc_log := l\<rparr>) else c\<lparr>rc_log := l\<rparr>)"
  have c1: "rc_log c1 = l" "rc_role c1 \<noteq> Leader" "current_term c1 = current_term c"
    using assms(7) by (simp_all add: c1_def)
  have start: "append_to_log ev es c = append_tail ev ys tr (c\<lparr>rc_log := l\<rparr>)"
    by (simp add: append_to_log_def snap loop)
  show ?thesis
  proof (cases "ys = []")
    case True
    then show ?thesis using start c1 l H by (simp add: append_tail_def c1_def [symmetric])
  next
    case False
    define l' where "l' = fst (rl_append_batch (ev_xxh ev) None l ys)"
    have "rl_append_batch (ev_xxh ev) None l ys = (l', Inr ())"
      using rl_append_batch_cases [OF l, of ys "ev_xxh ev" None] H(2,3) False rl_store_ok(1) [of "ev_xxh ev" l ys]
      by (simp add: l'_def prod_eq_iff)
    moreover have "rl_refines (log_merge G prev es, s) l'"
      using rl_step_refines [OF l, of "OpAppend None ys" "ev_xxh ev"] H(2,3) unfolding H(1) [symmetric]
      by (simp add: l'_def)
    ultimately show ?thesis
      using start c1 False assms(6) appended_config_follower [of "c1\<lparr>rc_log := l'\<rparr>" ev ys]
      by (simp add: append_tail_def c1_def [symmetric])
  qed
qed

text \<open>Applying and compacting keep the list the log stands for.\<close>

lemma rl_compact_refines:
  assumes "rl_refines (G, s) l"
  shows "\<exists>s'. rl_refines (G, s') (fst (rl_compact_through xxh l i t))"
  using rl_refines_compact [OF assms, of i t xxh] by (auto split: if_splits)

lemma maybe_compact_refines:
  assumes "rl_refines (G, s) (rc_log c)"
  shows "(\<exists>s'. rl_refines (G, s') (rc_log (fst (maybe_compact ev c)))) \<and>
    current_term (fst (maybe_compact ev c)) = current_term c"
proof -
  have "\<exists>s'. rl_refines (G, s') l" if "rl_compact_through xxh (rc_log c) i t = (l, r)" for xxh i t l r
    using rl_compact_refines [OF assms, of xxh i t] that by simp
  then show ?thesis
    using assms by (auto simp: maybe_compact_def Let_def split: option.splits prod.splits sum.splits)
qed

lemma after_apply_simps [simp]:
  "rc_log (after_apply batch c) = rc_log c" "current_term (after_apply batch c) = current_term c"
  "commit_index (after_apply batch c) = commit_index c"
  by (simp_all add: after_apply_def Let_def)

lemma apply_committed_refines:
  assumes "rl_refines (G, s) (rc_log c)"
  shows "(\<exists>s'. rl_refines (G, s') (rc_log (fst (apply_committed_to ev k c)))) \<and>
    current_term (fst (apply_committed_to ev k c)) = current_term c"
proof -
  have "(\<exists>s'. rl_refines (G, s') (rc_log (fst (maybe_compact ev (after_apply batch (c\<lparr>rc_engine := e\<rparr>)))))) \<and>
      current_term (fst (maybe_compact ev (after_apply batch (c\<lparr>rc_engine := e\<rparr>)))) = current_term c" for batch e
    using maybe_compact_refines [of G s "after_apply batch (c\<lparr>rc_engine := e\<rparr>)" ev] assms by simp
  then show ?thesis
    using assms by (auto simp: apply_committed_to_def Let_def split: sum.splits prod.splits)
qed

lemma hear_leader_simps [simp]:
  "rc_log (hear_leader ev t l c) = rc_log c" "rc_role (hear_leader ev t l c) = Follower"
  "commit_index (hear_leader ev t l c) = commit_index c"
  "current_term (hear_leader ev t l c) = (if current_term c < t \<or> rc_role c \<noteq> Follower then t else current_term c)"
  by (simp_all add: hear_leader_def)

lemma handle_append_merge:
  assumes "rl_refines (G, s) (rc_log c)" "s \<le> unat prev" "unat prev \<le> length G" "consec idx (Suc (unat prev)) es"
    and "unat prev + length es < 2 ^ 64" "ev_io ev = (\<lambda>_. None)" "current_term c \<le> trm"
    and "prev \<noteq> 0 \<Longrightarrow> le_term (G ! (unat prev - 1)) = prev_term"
  shows "\<exists>c' s'. handle_append_entries ev trm leader prev prev_term es leader_commit c =
      (c', (trm, True, word_of_nat (length (log_merge G (unat prev) es)))) \<and>
    rl_refines (log_merge G (unat prev) es, s') (rc_log c')"
proof -
  let ?G = "log_merge G (unat prev) es" and ?c1 = "hear_leader ev trm leader c"
  obtain c2 where c2: "append_to_log ev es ?c1 = (c2, Inr ())" "rl_refines (?G, s) (rc_log c2)"
    "current_term c2 = current_term ?c1"
    using append_to_log_merge [of G s ?c1 "unat prev" es ev] assms(1-6) by auto
  have trm: "current_term ?c1 = trm" using assms(7) by auto
  have "0 < prev \<longleftrightarrow> unat prev \<noteq> 0" "prev \<noteq> 0 \<longleftrightarrow> unat prev \<noteq> 0" by (auto simp: word_less_nat_alt word_unat_eq_iff)
  then have check: "\<not> (0 < prev \<and> rl_term_at (rc_log ?c1) prev \<noteq> Some prev_term)"
    using assms(2,3,8) by (auto simp: rl_term_at_refines [OF assms(1)] al_term_at_def)
  have last: "rl_last_index (rc_log c2) = word_of_nat (length ?G)"
    using arg_cong [OF rl_last_index_refines [OF c2(2)], of "word_of_nat :: nat \<Rightarrow> u64"] by simp
  define c3 where "c3 = (if commit_index c2 < leader_commit
    then c2\<lparr>commit_index := min leader_commit (rl_last_index (rc_log c2))\<rparr> else c2)"
  have c3: "rc_log c3 = rc_log c2" "current_term c3 = trm" using c2(3) trm by (simp_all add: c3_def)
  have "handle_append_entries ev trm leader prev prev_term es leader_commit c =
      (fst (apply_committed_to ev (commit_index c3) c3),
       (current_term (fst (apply_committed_to ev (commit_index c3) c3)), True, rl_last_index (rc_log c2)))"
    unfolding handle_append_entries_def
    using assms(7) check c2(1) by (simp add: Let_def c3_def not_less [symmetric])
  then show ?thesis
    using apply_committed_refines [of ?G s c3 ev "commit_index c3"] c2(2) c3 last by auto
qed

section \<open>Sample nodes\<close>

text \<open>
  An environment with working devices and an engine that applies nothing, and a freshly started
  member of a three-node cluster.
\<close>

definition idle_env :: "unit env" where
  "idle_env = \<lparr>ev_xxh = \<lambda>_. 0, ev_now = 0, ev_io = \<lambda>_. None, ev_last_applied = \<lambda>_. 0,
     ev_apply_committed = \<lambda>e _. (e, Inr ()), ev_force_flush = \<lambda>e. (e, Inr ()),
     ev_install_sst_snapshot = \<lambda>e _ _ _. (e, Inr cm_empty), ev_export_sst_snapshot = \<lambda>_ _ _ _. Inr []\<rparr>"

definition three_nodes :: membership where
  "three_nodes = cm_from_endpoints [(1, []), (2, []), (3, [])]"

definition started :: "u64 \<Rightarrow> unit consensus" where
  "started i = rc_new idle_env i three_nodes None fresh_log () 0"

lemma three_nodes_simps [simp]: "cm_members three_nodes = [1, 2, 3]" "cm_quorum three_nodes = 2"
proof -
  show m: "cm_members three_nodes = [1, 2, 3]" unfolding three_nodes_def by code_simp
  show "cm_quorum three_nodes = 2" by (simp add: cm_quorum_def m)
qed

lemma cm_inv_three_nodes: "cm_inv three_nodes"
  unfolding three_nodes_def by (rule cm_inv_from_endpoints)

lemma started_simps [simp]:
  "rc_id (started i) = i" "rc_log (started i) = fresh_log" "rc_membership (started i) = three_nodes"
  "current_term (started i) = 0" "voted_for (started i) = None" "rc_role (started i) = Follower"
  "commit_index (started i) = 0" "pending (started i) = []" "waiters (started i) = []"
  "removed (started i) \<longleftrightarrow> i \<notin> {1, 2, 3}" "snapshot_buf (started i) = None"
  by (auto simp: started_def rc_new_def cm_read_from_dir_def apply_config_entries_def rl_entries_from_def
      fresh_log_def no_snapshot_def Let_def cm_is_empty_def cm_contains_def)

section \<open>Properties\<close>





text \<open>
  C26. One vote per term. However vote requests, elections of its own and terms learned from
  responses arrive at a node that has not voted yet, all the votes it gives in one term, its own
  included, are for the same candidate.
\<close>

theorem one_vote_per_term:
  assumes "terms_fit c events" "(t, a) \<in> set (snd (foldl (ve_step ev) (c, []) events))"
    and "(t, b) \<in> set (snd (foldl (ve_step ev) (c, []) events))"
  shows "a = b"
proof -
  have "vote_inv (foldl (ve_step ev) (c, []) events)"
    by (rule vote_inv_run) (use assms(1) in \<open>simp_all add: vote_inv_def\<close>)
  then show ?thesis using assms(2,3) by (auto simp: vote_inv_def)
qed

text \<open>Asked by 2 and then by 3 in term 1, node 1 votes once.\<close>

lemma one_vote_per_term_witness:
  "(1, 2) \<in> set (snd (foldl (ve_step idle_env) (started 1, []) [VoteRequest 1 2 0 0, VoteRequest 1 3 0 0])) \<and>
   (1, 3) \<notin> set (snd (foldl (ve_step idle_env) (started 1, []) [VoteRequest 1 2 0 0, VoteRequest 1 3 0 0]))"
proof -
  let ?events = "[VoteRequest 1 2 0 0, VoteRequest 1 3 0 0]"
  have fit: "terms_fit (started 1) ?events" by (simp add: terms_fit_def)
  moreover have granted: "(1, 2) \<in> set (snd (foldl (ve_step idle_env) (started 1, []) ?events))"
    by (simp add: handle_request_vote_def Let_def cm_contains_def rl_is_up_to_date_def rl_last_term_def
        rl_last_index_def fresh_log_def no_snapshot_def)
  ultimately show ?thesis using one_vote_per_term [OF fit granted, of 3] by force
qed

end
