(* ===== verification/Consensus_Anomalies.thy ===== *)
theory Consensus_Anomalies
  imports Consensus_Safety
begin

text \<open>
  Runs in which the consensus layer does not do what Raft asks of it: two leaders in one term, a
  follower that is never repaired, and an acknowledged entry that only the leader holds.
\<close>

section \<open>Rounds between a leader and a follower\<close>

text \<open>One replication round to \<open>peer\<close>, answered by the follower's handler.\<close>

definition append_round ::
  "'e env \<Rightarrow> u64 \<Rightarrow> 'e consensus \<times> 'e consensus \<Rightarrow> 'e consensus \<times> 'e consensus"
where
  "append_round ev peer s =
     (case leader_peer_cursor peer (fst s) of
        None \<Rightarrow> s
      | Some (t, l, prev, prev_term, es, commit) \<Rightarrow>
          (case handle_append_entries ev t l prev prev_term es commit (snd s) of
             (f, resp) \<Rightarrow> (replicate_peer ev (\<lambda>_. Some resp) (\<lambda>_. None) peer (fst s), f)))"

lemma sat_sub_pred: "1 < n \<Longrightarrow> sat_sub n 1 = n - (1 :: u64)"
  by (simp add: sat_sub_def less_imp_le)

lemma replicate_rejected:
  assumes "rc_role c = Leader" "next_index c peer = Some n" "\<not> (0 < sm_index (rl_snapshot (rc_log c)) \<and> n \<le> sm_index (rl_snapshot (rc_log c)))"
    and "1 < n" "n - 1 \<le> h" "h \<noteq> u64_max"
  shows "replicate_peer ev (\<lambda>_. Some (current_term c, False, h)) inst peer c = c"
proof -
  let ?snap = "sm_index (rl_snapshot (rc_log c))"
  have "?snap = 0 \<or> ?snap < n" using assms(3) by (auto simp: word_gt_0 not_le)
  then have no_snap: "peer_needs_snapshot ev peer c = (c, False)" using assms(1,2) by (simp add: peer_needs_snapshot_def)
  have cursor: "leader_peer_cursor peer c \<noteq> None"
    using assms(1-3) by (simp add: leader_peer_cursor_def Let_def)
  have n: "1 < unat n" using assms(4) by (simp add: word_less_nat_alt)
  then have "n \<noteq> 0" by auto
  then have "unat (n - 1) = unat n - 1" by (rule unat_minus_one)
  then have h: "unat n - 1 \<le> unat h" using assms(5) by (simp add: word_le_nat_alt)
  have "unat (h + 1) = unat h + 1" using assms(6) sat_add_1 [of h] sat_add_succ [of h] by simp
  then have "n \<le> h + 1" using h by (simp add: word_le_nat_alt)
  moreover have "0 < h" using h n by (simp add: word_less_nat_alt)
  ultimately have "max (min (h + 1) n) 1 = n" "0 < h" using assms(4) by (auto simp: min_def max_def)
  then have "on_append_failure ev peer (current_term c) h c = c"
    using assms(1,2) by (simp add: on_append_failure_def Let_def map_upd_triv)
  then show ?thesis
    using no_snap cursor by (auto simp: replicate_peer_def replicate_append_def maybe_step_down_def)
qed

lemma fail_parked_cursors [simp]:
  "next_index (fail_parked c) = next_index c" "match_index (fail_parked c) = match_index c"
  "snapshot_attempt (fail_parked c) = snapshot_attempt c"
  by (simp_all add: fail_parked_def)

lemma started_attempts [simp]: "snapshot_attempt (started i) = Map.empty"
  by (simp add: started_def rc_new_def Let_def)

lemma encode_noop: "\<exists>e. encode_kv COMMAND_NOOP [] [] = Inr e"
  by (simp add: encode_kv_def)

section \<open>Properties\<close>

text \<open>
  C28. A follower whose log has diverged before the leader's cursor and is at least as long as the
  leader's guess is never repaired. It rejects the request and answers with its own last index;
  the leader takes the smaller of that and its cursor, which is the cursor. However many rounds
  are run, the leader's state and the follower's log stay as they are.
\<close>

theorem diverged_follower_never_repaired:
  assumes "rc_role c = Leader" "next_index c peer = Some n" "1 < n"
    and "\<not> (0 < sm_index (rl_snapshot (rc_log c)) \<and> n \<le> sm_index (rl_snapshot (rc_log c)))"
    and "current_term f \<le> current_term c"
    and "rl_term_at (rc_log f) (n - 1) \<noteq> Some (opt_or (rl_term_at (rc_log c) (n - 1)) 0)"
    and "n - 1 \<le> rl_last_index (rc_log f)" "rl_last_index (rc_log f) \<noteq> u64_max"
  shows "fst ((append_round ev peer ^^ k) (c, f)) = c \<and> rc_log (snd ((append_round ev peer ^^ k) (c, f))) = rc_log f"
proof -
  have prev: "sat_sub n 1 = n - 1" "0 < n - 1"
    using assms(3) by (auto simp: sat_sub_pred word_gt_0)
  have cursor: "leader_peer_cursor peer c = Some (current_term c, rc_id c, n - 1, opt_or (rl_term_at (rc_log c) (n - 1)) 0,
      take MAX_BATCH (rl_entries_from (rc_log c) n), commit_index c)"
    using assms(1,2,4) prev by (auto simp: leader_peer_cursor_def Let_def)
  have round: "\<exists>f'. append_round ev peer (c, g) = (c, f') \<and> rc_log f' = rc_log f \<and> current_term f' \<le> current_term c"
    if g: "rc_log g = rc_log f" "current_term g \<le> current_term c" for g
  proof -
    let ?g1 = "hear_leader ev (current_term c) (rc_id c) g"
    have "handle_append_entries ev (current_term c) (rc_id c) (n - 1) (opt_or (rl_term_at (rc_log c) (n - 1)) 0)
        (take MAX_BATCH (rl_entries_from (rc_log c) n)) (commit_index c) g =
        (?g1, (current_term c, False, rl_last_index (rc_log f)))"
      using g assms(6) prev by (auto simp: handle_append_entries_def Let_def)
    then show ?thesis
      using replicate_rejected [OF assms(1,2,4,3,7,8), of ev "\<lambda>_. None"] g
      by (auto simp: append_round_def cursor)
  qed
  have "\<exists>f'. (append_round ev peer ^^ k) (c, f) = (c, f') \<and> rc_log f' = rc_log f \<and> current_term f' \<le> current_term c"
  proof (induction k)
    case (Suc k)
    then show ?case using round by auto
  qed (use assms(5) in simp)
  then show ?thesis by auto
qed

text \<open>Terms 1, 2, 2 at the leader of term 3 and terms 1, 1, 1 at the follower.\<close>

definition log_of :: "u64 list \<Rightarrow> raft_log" where
  "log_of terms = fresh_log\<lparr>rl_entries := map (\<lambda>(i, t). \<lparr>le_term = t, le_index = word_of_nat (Suc i), le_command = []\<rparr>) (enumerate 0 terms)\<rparr>"

lemma diverged_follower_never_repaired_witness:
  defines "c \<equiv> (started 1)\<lparr>rc_role := Leader, current_term := 3, rc_log := log_of [1, 2, 3], next_index := [2 \<mapsto> 3]\<rparr>"
  defines "f \<equiv> (started 2)\<lparr>current_term := 1, rc_log := log_of [1, 1, 1]\<rparr>"
  shows "\<forall>k. rc_log (snd ((append_round idle_env 2 ^^ k) (c, f))) = log_of [1, 1, 1]"
proof
  fix k
  show "rc_log (snd ((append_round idle_env 2 ^^ k) (c, f))) = log_of [1, 1, 1]"
    using diverged_follower_never_repaired [where c = c and peer = 2 and n = 3 and f = f and ev = idle_env and k = k]
    by (simp add: c_def f_def log_of_def fresh_log_def no_snapshot_def rl_term_at_def rl_last_index_def)
qed

text \<open>
  C27. Election safety does not hold. Node 2 votes for node 1 in term 1, and node 1, which has a
  compacted log, wins. An InstallSnapshot chunk from node 1 in the same term makes node 2 a
  follower again and clears its vote; node 3, a candidate of term 1, then gets it and wins too.
\<close>

theorem two_leaders_in_one_term:
  fixes data :: bytes
  defines "n1 \<equiv> (started 1)\<lparr>rc_log := fresh_log\<lparr>rl_snapshot := \<lparr>sm_index = 1, sm_term = 1\<rparr>\<rparr>, current_term := 1\<rparr>"
  defines "n2 \<equiv> fst (handle_request_vote idle_env 2 1 1 1 (started 2))"
  defines "n2' \<equiv> fst (handle_install_snapshot idle_env 2 1 1 1 data False n2)"
  defines "vote \<equiv> (\<lambda>voter cand peer t li lt. if peer = 2 then Some (snd (handle_request_vote idle_env t cand li lt voter)) else None)"
  defines "n1' \<equiv> run_election idle_env (vote (started 2) 1) [2] n1"
  defines "n3' \<equiv> run_election idle_env (vote n2' 3) [2] ((started 3)\<lparr>current_term := 1\<rparr>)"
  shows "rc_role n1' = Leader \<and> current_term n1' = 2 \<and> snd (peer_needs_snapshot idle_env 2 (on_append_failure idle_env 2 2 0 n1')) \<and>
    rc_role n3' = Leader \<and> current_term n3' = 2"
proof -
  note vote_defs = handle_request_vote_def Let_def cm_contains_def rl_is_up_to_date_def rl_last_term_def
    rl_last_index_def fresh_log_def no_snapshot_def
  note election_defs = run_election_def start_election_def record_vote_granted_def cm_peers_except_def maybe_step_down_def
  have n2': "current_term n2' = 2" "voted_for n2' = None" "rc_log n2' = fresh_log" "rc_membership n2' = three_nodes"
    "rc_id n2' = 2" "\<not> removed n2'"
    by (simp_all add: n2'_def n2_def handle_install_snapshot_def vote_defs)
  obtain e where e: "encode_kv COMMAND_NOOP [] [] = Inr e" using encode_noop by blast
  have 1: "rc_role n1' = Leader" "current_term n1' = 2" "next_index n1' 2 = Some 2" "sm_index (rl_snapshot (rc_log n1')) = 1"
    "snapshot_attempt n1' = Map.empty"
    by (simp_all add: n1'_def n1_def vote_def election_defs vote_defs become_leader_def e)
  have 3: "rc_role n3' = Leader" "current_term n3' = 2"
    by (simp_all add: n3'_def vote_def election_defs vote_defs become_leader_def e n2')
  have "snd (peer_needs_snapshot idle_env 2 (on_append_failure idle_env 2 2 0 n1'))"
    using 1 by (simp add: peer_needs_snapshot_def on_append_failure_def Let_def sat_sub_def)
  with 1 3 show ?thesis by simp
qed

text \<open>
  C29. A follower acknowledges its own last index, also when the request covered less of its log.
  Node 1 leads term 2 with one entry; its first log write fails, so its first round carries no
  entry. Node 2, which holds two more entries of term 1, acknowledges index 3. A client's write
  at index 2 is then committed and acknowledged, while node 2 holds another entry at that index.
\<close>

theorem unreplicated_entry_acknowledged:
  defines "failing \<equiv> idle_env\<lparr>ev_io := \<lambda>_. Some 0\<rparr>"
  defines "leader \<equiv> become_leader idle_env 2 ((started 1)\<lparr>rc_role := Candidate, current_term := 2, rc_log := log_of [1]\<rparr>)"
  defines "flushed \<equiv> fst (flush_pending_proposes failing leader)"
  defines "round \<equiv> append_round idle_env 2 (flushed, (started 2)\<lparr>current_term := 1, rc_log := log_of [1, 1, 1]\<rparr>)"
  defines "proposed \<equiv> fst (rc_propose (CmdPut [1] [2]) 7 (fst round))"
  defines "final \<equiv> fst (flush_pending_proposes idle_env proposed)"
  shows "commit_index final = 2 \<and> (Some 7, Inr 2) \<in> set (rc_replies final) \<and>
    rl_term_at (rc_log final) 2 = Some 2 \<and> rl_term_at (rc_log (snd round)) 2 = Some 1"
proof -
  let ?follower = "(started 2)\<lparr>current_term := 1, rc_log := log_of [1, 1, 1]\<rparr>"
  obtain e where e: "encode_kv COMMAND_NOOP [] [] = Inr e" using encode_noop by blast
  note log_defs = log_of_def fresh_log_def no_snapshot_def rl_last_index_def rl_term_at_def rl_entry_def
    rl_entries_from_def
  note F = rl_append_commands_def rl_store_def wal_submit_def command_entries_def Let_def
  have 1: "rc_role leader = Leader" "current_term leader = 2" "rc_log leader = log_of [1]"
    "rc_membership leader = three_nodes" "rc_id leader = 1" "\<not> removed leader" "next_index leader 2 = Some 2"
    "match_index leader 3 = Some 0" "commit_index leader = 0" "waiters leader = []" "pending leader = [\<lparr>p_encoded = e, p_tx = None\<rparr>]"
    by (simp_all add: leader_def become_leader_def e Let_def cm_peers_except_def log_defs)
  have 2: "rc_role flushed = Leader" "current_term flushed = 2" "rl_entries (rc_log flushed) = rl_entries (log_of [1])"
    "rl_snapshot (rc_log flushed) = no_snapshot"
    "rc_membership flushed = three_nodes" "rc_id flushed = 1" "\<not> removed flushed" "next_index flushed 2 = Some 2"
    "match_index flushed 3 = Some 0" "commit_index flushed = 0" "waiters flushed = []" "pending flushed = []"
    by (simp_all add: flushed_def failing_def flush_pending_proposes_def 1 F log_of_def fresh_log_def)
  have cursor: "leader_peer_cursor 2 flushed = Some (2, 1, 1, 1, [], 0)"
    using 2 by (simp add: leader_peer_cursor_def log_defs Let_def sat_sub_def word_le_nat_alt)
  have ack: "handle_append_entries idle_env 2 1 1 1 [] 0 ?follower = (hear_leader idle_env 2 1 ?follower, (2, True, 3))"
    by (simp add: handle_append_entries_def Let_def append_to_log_def append_tail_def log_defs apply_committed_to_def idle_env_def)
  define c where "c = fst round"
  have "round = (on_append_success idle_env 2 3 flushed, hear_leader idle_env 2 1 ?follower)"
    using 2 by (simp add: round_def append_round_def cursor ack replicate_peer_def replicate_append_def
        peer_needs_snapshot_def maybe_step_down_def Let_def no_snapshot_def)
  then have c: "c = on_append_success idle_env 2 3 flushed" and f: "rc_log (snd round) = log_of [1, 1, 1]"
    by (simp_all add: c_def)
  have 3: "rc_role c = Leader" "current_term c = 2" "rl_entries (rc_log c) = rl_entries (log_of [1])"
    "rl_snapshot (rc_log c) = no_snapshot"
    "rc_membership c = three_nodes" "rc_id c = 1" "\<not> removed c" "match_index c 2 = Some 3"
    "match_index c 3 = Some 0" "commit_index c = 0" "waiters c = []" "pending c = []"
    using 2 by (simp_all add: c on_append_success_def advance_commit_index_def advance_loop_def log_defs Let_def
        u64_range_def apply_committed_to_def idle_env_def notify_waiters_def cm_contains_def)
  obtain put where put: "encode_kv COMMAND_PUT [1] [2] = Inr put" by (simp add: encode_kv_def)
  define d where "d = proposed"
  have d: "d = c\<lparr>pending := [\<lparr>p_encoded = put, p_tx = Some 7\<rparr>]\<rparr>"
    using 3 by (simp add: d_def proposed_def c_def [symmetric] rc_propose_def put)
  have dec: "decode_cmd put = Inr (CmdPut [1] [2])" by (rule decode_encode_cmd) (simp_all add: put)
  have range: "[Suc 0 ..< 3] = [Suc 0, 2]" by (simp add: upt_rec)
  have "commit_index final = 2" "(Some 7, Inr 2) \<in> set (rc_replies final)" "rl_term_at (rc_log final) 2 = Some 2"
    using 3 dec
    by (simp_all add: final_def d_def [symmetric] d flush_pending_proposes_def F idle_env_def log_of_def fresh_log_def
        no_snapshot_def rl_last_index_def rl_entry_def rl_term_at_def apply_appended_config_changes_def advance_commit_index_def advance_loop_def
        u64_range_def match_or_zero_def cm_contains_def notify_waiters_def apply_committed_to_def
        decode_cmd_def [of "[]"] range)
  with f show ?thesis by (simp add: log_of_def fresh_log_def no_snapshot_def rl_term_at_def)
qed

end
