(* ===== verification/Sst.thy ===== *)
theory Sst
  imports Takyonic_Types
begin

text \<open>
  Immutable sorted files of \<open>sst.rs\<close>: the writer, the Bloom filter, the validating reader and
  its two block sources, and the registry that defers deletion while readers hold pins. The
  checksum \<open>xxh\<close> is a parameter; a file is its bytes.
\<close>

unbundle bit_operations_syntax

section \<open>Writer\<close>

definition SST_MAGIC :: bytes where
  "SST_MAGIC = lit ''TKYS''"

definition SST_VERSION :: u32 where
  "SST_VERSION = 1"

definition HEADER_LEN :: nat where
  "HEADER_LEN = 8"

definition FOOTER_MAGIC :: bytes where
  "FOOTER_MAGIC = lit ''TSFT''"

definition FOOTER_LEN :: nat where
  "FOOTER_LEN = 36"

definition CHECKSUM_LEN :: nat where
  "CHECKSUM_LEN = 8"

definition SST_FLAG_TOMBSTONE :: byte where
  "SST_FLAG_TOMBSTONE = 1"

definition BLOOM_BITS_PER_KEY :: nat where
  "BLOOM_BITS_PER_KEY = 10"

definition BLOOM_HASHES :: byte where
  "BLOOM_HASHES = 7"

record block_meta =
  bm_first_key :: bytes
  bm_last_key :: bytes
  bm_offset :: u64
  bm_len :: u32

primrec validate_values :: "entry list \<Rightarrow> unit result" where
  "validate_values [] = Inr ()"
| "validate_values (e # es) =
     (if e_tombstone e \<and> e_value e \<noteq> None then Inl (Integrity ''SST tombstone must not contain a value'')
      else if \<not> e_tombstone e \<and> e_value e = None then Inl (Integrity ''SST put must contain a value'')
      else validate_values es)"

definition validate_entries :: "entry list \<Rightarrow> unit result" where
  "validate_entries es =
     rbind (validate_values es) (\<lambda>_.
       if \<not> successively (\<lambda>a b. e_key a < e_key b \<or> e_key a = e_key b \<and> \<not> e_seq a \<le> e_seq b) es
       then Inl (Integrity ''SST entries must be ordered by user key ASC, commit_ts DESC'')
       else Inr ())"

definition encoded_entry_len :: "entry \<Rightarrow> nat" where
  "encoded_entry_len e =
     8 + 1 + 4 + 4 + length (e_key e) + (case e_value e of None \<Rightarrow> 0 | Some v \<Rightarrow> length v)"

definition checked_u32 :: "nat \<Rightarrow> u32 result" where
  "checked_u32 n = (if n < 2 ^ 32 then Inr (word_of_nat n) else Inl (Integrity ''exceeds u32 length''))"

definition encode_entry :: "entry \<Rightarrow> bytes result" where
  "encode_entry e =
     rbind (checked_u32 (length (e_key e))) (\<lambda>klen.
     rbind (checked_u32 (case e_value e of None \<Rightarrow> 0 | Some v \<Rightarrow> length v)) (\<lambda>vlen.
       Inr (u64_le (e_seq e) @ [if e_tombstone e then SST_FLAG_TOMBSTONE else 0] @ u32_le klen @ u32_le vlen @
            e_key e @ (case e_value e of None \<Rightarrow> [] | Some v \<Rightarrow> v))))"

primrec encode_entries :: "entry list \<Rightarrow> bytes result" where
  "encode_entries [] = Inr []"
| "encode_entries (e # es) = rbind (encode_entry e) (\<lambda>b. rbind (encode_entries es) (\<lambda>bs. Inr (b @ bs)))"

definition checksummed :: "(bytes \<Rightarrow> u64) \<Rightarrow> bytes \<Rightarrow> bytes" where
  "checksummed xxh payload = payload @ u64_le (xxh payload)"

text \<open>The file written so far and the metadata of its blocks.\<close>

definition write_data_block ::
  "(bytes \<Rightarrow> u64) \<Rightarrow> bytes \<times> block_meta list \<Rightarrow> entry list \<Rightarrow> (bytes \<times> block_meta list) result"
where
  "write_data_block xxh out es =
     rbind (checked_u32 (length es)) (\<lambda>cnt.
     rbind (encode_entries es) (\<lambda>body.
       let payload = u32_le cnt @ body in
       rbind (checked_u32 (length payload + CHECKSUM_LEN)) (\<lambda>len.
         Inr (fst out @ checksummed xxh payload,
              snd out @ [\<lparr>bm_first_key = e_key (hd es), bm_last_key = e_key (last es),
                          bm_offset = word_of_nat (length (fst out)), bm_len = len\<rparr>]))))"

primrec write_loop ::
  "(bytes \<Rightarrow> u64) \<Rightarrow> nat \<Rightarrow> entry list \<Rightarrow> bytes \<times> block_meta list \<Rightarrow> entry list \<Rightarrow> nat \<Rightarrow>
   (bytes \<times> block_meta list) result"
where
  "write_loop xxh block_size [] out block_entries estimated =
     (if block_entries \<noteq> [] then write_data_block xxh out block_entries else Inr out)"
| "write_loop xxh block_size (e # es) out block_entries estimated =
     (if block_entries \<noteq> [] \<and> block_size < estimated + encoded_entry_len e \<and> e_key (last block_entries) \<noteq> e_key e
      then rbind (write_data_block xxh out block_entries)
             (\<lambda>out'. write_loop xxh block_size es out' [e] (4 + encoded_entry_len e))
      else write_loop xxh block_size es out (block_entries @ [e]) (estimated + encoded_entry_len e))"

definition encode_meta :: "block_meta \<Rightarrow> bytes" where
  "encode_meta m =
     u32_le (len32 (bm_first_key m)) @ bm_first_key m @ u32_le (len32 (bm_last_key m)) @ bm_last_key m @
     u64_le (bm_offset m) @ u32_le (bm_len m)"

definition encode_index :: "block_meta list \<Rightarrow> bytes" where
  "encode_index metas = u32_le (word_of_nat (length metas)) @ concat (map encode_meta metas)"

definition bloom_hashes :: "(bytes \<Rightarrow> u64) \<Rightarrow> bytes \<Rightarrow> nat \<Rightarrow> nat list" where
  "bloom_hashes xxh k bit_count =
     (let hash = xxh k; delta = word_rotl 17 hash OR 1
      in map (\<lambda>n. unat (hash + word_of_nat n * delta) mod bit_count) [0 ..< unat BLOOM_HASHES])"

definition set_bit_at :: "bytes \<Rightarrow> nat \<Rightarrow> bytes" where
  "set_bit_at bits b = bits[b div 8 := bits ! (b div 8) OR push_bit (b mod 8) 1]"

definition bloom_bit_count :: "nat \<Rightarrow> nat" where
  "bloom_bit_count n = (max (n * BLOOM_BITS_PER_KEY) 64 + 7) div 8 * 8"

definition encode_filter :: "(bytes \<Rightarrow> u64) \<Rightarrow> entry list \<Rightarrow> bytes" where
  "encode_filter xxh es =
     (let bit_count = bloom_bit_count (length es);
          bits = foldl (\<lambda>bits e. foldl set_bit_at bits (bloom_hashes xxh (e_key e) bit_count))
                   (replicate (bit_count div 8) 0) es
      in u32_le (word_of_nat bit_count) @ [BLOOM_HASHES] @ bits)"

definition sst_footer :: "nat \<Rightarrow> u32 \<Rightarrow> nat \<Rightarrow> u32 \<Rightarrow> nat \<Rightarrow> bytes" where
  "sst_footer index_offset index_len filter_offset filter_len entry_count =
     u64_le (word_of_nat index_offset) @ u32_le index_len @ u64_le (word_of_nat filter_offset) @
     u32_le filter_len @ u64_le (word_of_nat entry_count) @ FOOTER_MAGIC"

text \<open>
  \<open>SstWriter::write\<close>. The temporary file must not exist; it is renamed to the final path at the
  end, so the result is the file at that path.
\<close>

definition sst_write :: "(bytes \<Rightarrow> u64) \<Rightarrow> bool \<Rightarrow> entry list \<Rightarrow> nat \<Rightarrow> bytes result" where
  "sst_write xxh tmp_exists es block_size =
     (if block_size = 0 then Inl (Config ''SST block_size must be > 0'')
      else
        rbind (validate_entries es) (\<lambda>_.
        if tmp_exists then Inl (Io AlreadyExists)
        else
          rbind (write_loop xxh block_size es (SST_MAGIC @ u32_le SST_VERSION, []) [] 4) (\<lambda>(file, metas).
            let index = encode_index metas; index_offset = length file;
                file = file @ checksummed xxh index
            in rbind (checked_u32 (length index + CHECKSUM_LEN)) (\<lambda>index_len.
              let filter_block = encode_filter xxh es; filter_offset = length file;
                  file = file @ checksummed xxh filter_block
              in rbind (checked_u32 (length filter_block + CHECKSUM_LEN)) (\<lambda>filter_len.
                Inr (file @ sst_footer index_offset index_len filter_offset filter_len (length es)))))))"

section \<open>Reader\<close>

definition slice :: "bytes \<Rightarrow> nat \<Rightarrow> nat \<Rightarrow> bytes" where
  "slice bs offset len = take len (drop offset bs)"

definition read_u32 :: "bytes \<Rightarrow> nat \<Rightarrow> u32 result" where
  "read_u32 bs offset =
     (if offset + 4 \<le> length bs then Inr (u32_of_le (slice bs offset 4)) else Inl (Integrity ''truncated u32''))"

definition read_u64 :: "bytes \<Rightarrow> nat \<Rightarrow> u64 result" where
  "read_u64 bs offset =
     (if offset + 8 \<le> length bs then Inr (u64_of_le (slice bs offset 8)) else Inl (Integrity ''truncated u64''))"

definition validate_range :: "nat \<Rightarrow> nat \<Rightarrow> nat \<Rightarrow> unit result" where
  "validate_range offset len limit =
     (if len < CHECKSUM_LEN \<or> offset < HEADER_LEN \<or> 2 ^ 64 \<le> offset + len \<or> limit < offset + len
      then Inl (Integrity ''invalid SST block range'') else Inr ())"

definition checked_payload :: "(bytes \<Rightarrow> u64) \<Rightarrow> bytes \<Rightarrow> bytes result" where
  "checked_payload xxh block =
     (if length block < CHECKSUM_LEN then Inl (Integrity ''SST block is too short'')
      else
        let split = length block - CHECKSUM_LEN; payload = take split block
        in if u64_of_le (drop split block) \<noteq> xxh payload then Inl (Integrity ''SST checksum mismatch'')
           else Inr payload)"

text \<open>\<open>SliceCursor\<close> as the unread rest of the payload.\<close>

definition cur_take :: "nat \<Rightarrow> bytes \<Rightarrow> (bytes \<times> bytes) result" where
  "cur_take len rest =
     (if length rest < len then Inl (Integrity ''SST block is truncated'') else Inr (take len rest, drop len rest))"

definition cur_u8 :: "bytes \<Rightarrow> (byte \<times> bytes) result" where
  "cur_u8 rest = rbind (cur_take 1 rest) (\<lambda>(b, r). Inr (hd b, r))"

definition cur_u32 :: "bytes \<Rightarrow> (u32 \<times> bytes) result" where
  "cur_u32 rest = rbind (cur_take 4 rest) (\<lambda>(b, r). Inr (u32_of_le b, r))"

definition cur_u64 :: "bytes \<Rightarrow> (u64 \<times> bytes) result" where
  "cur_u64 rest = rbind (cur_take 8 rest) (\<lambda>(b, r). Inr (u64_of_le b, r))"

definition cur_finish :: "bytes \<Rightarrow> unit result" where
  "cur_finish rest = (if rest \<noteq> [] then Inl (Integrity ''SST block has trailing bytes'') else Inr ())"

definition decode_meta :: "bytes \<Rightarrow> (block_meta \<times> bytes) result" where
  "decode_meta r0 =
     rbind (cur_u32 r0) (\<lambda>(first_len, r1).
     rbind (cur_take (unat first_len) r1) (\<lambda>(first_key, r2).
     rbind (cur_u32 r2) (\<lambda>(last_len, r3).
     rbind (cur_take (unat last_len) r3) (\<lambda>(last_key, r4).
     rbind (cur_u64 r4) (\<lambda>(offset, r5).
     rbind (cur_u32 r5) (\<lambda>(len, r6).
       Inr (\<lparr>bm_first_key = first_key, bm_last_key = last_key, bm_offset = offset, bm_len = len\<rparr>, r6)))))))"

primrec decode_metas ::
  "nat \<Rightarrow> nat \<Rightarrow> bytes \<Rightarrow> bytes option \<Rightarrow> (block_meta list \<times> bytes) result"
where
  "decode_metas 0 data_end rest previous_last = Inr ([], rest)"
| "decode_metas (Suc n) data_end rest previous_last =
     rbind (decode_meta rest) (\<lambda>(m, rest).
     rbind (validate_range (unat (bm_offset m)) (unat (bm_len m)) data_end) (\<lambda>_.
       if bm_last_key m < bm_first_key m then Inl (Integrity ''SST index has inverted key range'')
       else if (case previous_last of None \<Rightarrow> False | Some prev \<Rightarrow> bm_first_key m < prev)
       then Inl (Integrity ''SST index key ranges overlap'')
       else rbind (decode_metas n data_end rest (Some (bm_last_key m))) (\<lambda>(ms, rest). Inr (m # ms, rest))))"

definition decode_index :: "bytes \<Rightarrow> nat \<Rightarrow> block_meta list result" where
  "decode_index payload data_end =
     rbind (cur_u32 payload) (\<lambda>(cnt, rest).
     rbind (decode_metas (unat cnt) data_end rest None) (\<lambda>(ms, rest).
     rbind (cur_finish rest) (\<lambda>_. Inr ms)))"

record sst_reader =
  sr_mmap :: bytes
  sr_index :: "block_meta list"
  sr_filter_offset :: nat
  sr_filter_len :: nat
  sr_entry_count :: u64

definition sst_open :: "(bytes \<Rightarrow> u64) \<Rightarrow> bytes \<Rightarrow> sst_reader result" where
  "sst_open xxh mmap =
     (if length mmap < HEADER_LEN + FOOTER_LEN then Inl (Integrity ''SST file is too short'')
      else if take 4 mmap \<noteq> SST_MAGIC then Inl (Integrity ''invalid SST magic'')
      else
        rbind (read_u32 mmap 4) (\<lambda>version.
        if version \<noteq> SST_VERSION then Inl (Integrity ''unsupported SST version'')
        else
          let footer = length mmap - FOOTER_LEN in
          rbind (read_u64 mmap footer) (\<lambda>index_offset.
          rbind (read_u32 mmap (footer + 8)) (\<lambda>index_len.
          rbind (read_u64 mmap (footer + 12)) (\<lambda>filter_offset.
          rbind (read_u32 mmap (footer + 20)) (\<lambda>filter_len.
          rbind (read_u64 mmap (footer + 24)) (\<lambda>entry_count.
          if slice mmap (footer + 32) 4 \<noteq> FOOTER_MAGIC then Inl (Integrity ''invalid SST footer magic'')
          else
            rbind (validate_range (unat index_offset) (unat index_len) footer) (\<lambda>_.
            rbind (validate_range (unat filter_offset) (unat filter_len) footer) (\<lambda>_.
            if unat filter_offset < unat index_offset + unat index_len
            then Inl (Integrity ''SST index/filter ranges overlap'')
            else
              rbind (checked_payload xxh (slice mmap (unat index_offset) (unat index_len))) (\<lambda>index_payload.
              rbind (decode_index index_payload (unat index_offset)) (\<lambda>index.
              rbind (checked_payload xxh (slice mmap (unat filter_offset) (unat filter_len))) (\<lambda>_.
                Inr \<lparr>sr_mmap = mmap, sr_index = index, sr_filter_offset = unat filter_offset,
                     sr_filter_len = unat filter_len, sr_entry_count = entry_count\<rparr>))))))))))))"

definition may_contain :: "(bytes \<Rightarrow> u64) \<Rightarrow> sst_reader \<Rightarrow> key \<Rightarrow> bool result" where
  "may_contain xxh r k =
     rbind (checked_payload xxh (slice (sr_mmap r) (sr_filter_offset r) (sr_filter_len r))) (\<lambda>payload.
       if length payload < 5 then Inl (Integrity ''SST filter block is truncated'')
       else
         let bit_count = unat (u32_of_le (take 4 payload)); hash_count = payload ! 4; bits = drop 5 payload
         in if bit_count = 0 \<or> bit_count mod 8 \<noteq> 0 \<or> length bits \<noteq> bit_count div 8
            then Inl (Integrity ''invalid SST filter dimensions'')
            else if hash_count \<noteq> BLOOM_HASHES then Inl (Integrity ''unsupported SST filter hash count'')
            else Inr (list_all (\<lambda>b. bits ! (b div 8) AND push_bit (b mod 8) 1 \<noteq> 0) (bloom_hashes xxh k bit_count)))"

definition decode_entry :: "bytes \<Rightarrow> ((u64 \<times> byte \<times> bytes \<times> bytes) \<times> bytes) result" where
  "decode_entry r0 =
     rbind (cur_u64 r0) (\<lambda>(seq, r1).
     rbind (cur_u8 r1) (\<lambda>(flags, r2).
     if flags AND NOT SST_FLAG_TOMBSTONE \<noteq> 0 then Inl (Integrity ''unknown SST entry flags'')
     else
       rbind (cur_u32 r2) (\<lambda>(key_len, r3).
       rbind (cur_u32 r3) (\<lambda>(value_len, r4).
       rbind (cur_take (unat key_len) r4) (\<lambda>(k, r5).
       rbind (cur_take (unat value_len) r5) (\<lambda>(v, r6).
         Inr ((seq, flags, k, v), r6)))))))"

definition mk_entry :: "u64 \<times> byte \<times> bytes \<times> bytes \<Rightarrow> entry result" where
  "mk_entry = (\<lambda>(seq, flags, k, v).
     let tombstone = (flags AND SST_FLAG_TOMBSTONE \<noteq> 0) in
     if tombstone \<and> v \<noteq> [] then Inl (Integrity ''SST tombstone has a value'')
     else Inr (if tombstone then entry_delete k seq else entry_put k v seq))"

primrec lookup_loop :: "nat \<Rightarrow> bytes \<Rightarrow> key \<Rightarrow> commit_ts \<Rightarrow> entry option result" where
  "lookup_loop 0 rest target read_ts = rbind (cur_finish rest) (\<lambda>_. Inr None)"
| "lookup_loop (Suc n) rest target read_ts =
     rbind (decode_entry rest) (\<lambda>((seq, flags, k, v), rest).
       if k < target then lookup_loop n rest target read_ts
       else if target < k then Inr None
       else if read_ts < seq then lookup_loop n rest target read_ts
       else rbind (mk_entry (seq, flags, k, v)) (\<lambda>e. Inr (Some e)))"

definition decode_data_lookup_at :: "bytes \<Rightarrow> key \<Rightarrow> commit_ts \<Rightarrow> entry option result" where
  "decode_data_lookup_at payload target read_ts =
     rbind (cur_u32 payload) (\<lambda>(cnt, rest). lookup_loop (unat cnt) rest target read_ts)"

primrec entries_loop :: "nat \<Rightarrow> bytes \<Rightarrow> entry list result" where
  "entries_loop 0 rest = rbind (cur_finish rest) (\<lambda>_. Inr [])"
| "entries_loop (Suc n) rest =
     rbind (decode_entry rest) (\<lambda>(fields, rest).
     rbind (mk_entry fields) (\<lambda>e.
     rbind (entries_loop n rest) (\<lambda>es. Inr (e # es))))"

definition decode_data_entries :: "bytes \<Rightarrow> entry list result" where
  "decode_data_entries payload = rbind (cur_u32 payload) (\<lambda>(cnt, rest). entries_loop (unat cnt) rest)"

text \<open>
  A block comes from the mapped file or, page by page, from the buffer pool: \<open>pool\<close> gives the
  page size and the contents of a page, or the error of fetching it.
\<close>

type_synonym page_source = "(nat \<times> (nat \<Rightarrow> bytes result)) option"

primrec copy_pages :: "nat list \<Rightarrow> nat \<Rightarrow> (nat \<Rightarrow> bytes result) \<Rightarrow> nat \<Rightarrow> nat \<Rightarrow> bytes \<Rightarrow> bytes result" where
  "copy_pages [] page_size fetch start len buf = Inr buf"
| "copy_pages (pi # pis) page_size fetch start len buf =
     rbind (fetch pi) (\<lambda>page.
       let page_off = pi * page_size;
           copy_start = max start page_off;
           copy_end = min (start + len) (page_off + page_size);
           n = copy_end - copy_start;
           dst = copy_start - start;
           src = copy_start - page_off
       in copy_pages pis page_size fetch start len (take dst buf @ slice page src n @ drop (dst + n) buf))"

definition data_block_bytes :: "page_source \<Rightarrow> sst_reader \<Rightarrow> block_meta \<Rightarrow> bytes result" where
  "data_block_bytes pool r m =
     (let start = unat (bm_offset m); len = unat (bm_len m) in
      case pool of
        Some (page_size, fetch) \<Rightarrow>
          copy_pages [start div page_size ..< Suc ((start + len - 1) div page_size)] page_size fetch start len (replicate len 0)
      | None \<Rightarrow> Inr (slice (sr_mmap r) start len))"

primrec get_loop ::
  "(bytes \<Rightarrow> u64) \<Rightarrow> page_source \<Rightarrow> sst_reader \<Rightarrow> key \<Rightarrow> commit_ts \<Rightarrow> block_meta list \<Rightarrow> entry option \<Rightarrow> entry option result"
where
  "get_loop xxh pool r k read_ts [] best = Inr best"
| "get_loop xxh pool r k read_ts (m # ms) best =
     (if bm_last_key m < k then get_loop xxh pool r k read_ts ms best
      else if k < bm_first_key m then Inr best
      else
        rbind (data_block_bytes pool r m) (\<lambda>block.
        rbind (checked_payload xxh block) (\<lambda>payload.
        rbind (decode_data_lookup_at payload k read_ts) (\<lambda>found.
          get_loop xxh pool r k read_ts ms
            (case found of
               None \<Rightarrow> best
             | Some e \<Rightarrow> (case best of Some b \<Rightarrow> if e_seq e \<le> e_seq b then best else Some e | None \<Rightarrow> Some e))))))"

definition get_entry_at ::
  "(bytes \<Rightarrow> u64) \<Rightarrow> page_source \<Rightarrow> sst_reader \<Rightarrow> key \<Rightarrow> commit_ts \<Rightarrow> entry option result"
where
  "get_entry_at xxh pool r k read_ts =
     rbind (may_contain xxh r k) (\<lambda>may.
       if \<not> may then Inr None else get_loop xxh pool r k read_ts (sr_index r) None)"

definition get_entry :: "(bytes \<Rightarrow> u64) \<Rightarrow> page_source \<Rightarrow> sst_reader \<Rightarrow> key \<Rightarrow> entry option result" where
  "get_entry xxh pool r k = get_entry_at xxh pool r k u64_max"

definition sst_get :: "(bytes \<Rightarrow> u64) \<Rightarrow> page_source \<Rightarrow> sst_reader \<Rightarrow> key \<Rightarrow> val option result" where
  "sst_get xxh pool r k = rbind (get_entry xxh pool r k) (\<lambda>e. Inr (live_value e))"

definition block_entries :: "(bytes \<Rightarrow> u64) \<Rightarrow> page_source \<Rightarrow> sst_reader \<Rightarrow> nat \<Rightarrow> entry list result" where
  "block_entries xxh pool r i =
     (if i < length (sr_index r) then
        rbind (data_block_bytes pool r (sr_index r ! i)) (\<lambda>block.
        rbind (checked_payload xxh block) decode_data_entries)
      else Inl (Integrity ''SST block index out of range''))"

primrec all_block_entries :: "(bytes \<Rightarrow> u64) \<Rightarrow> page_source \<Rightarrow> sst_reader \<Rightarrow> nat list \<Rightarrow> entry list result" where
  "all_block_entries xxh pool r [] = Inr []"
| "all_block_entries xxh pool r (i # is) =
     rbind (block_entries xxh pool r i) (\<lambda>es. rbind (all_block_entries xxh pool r is) (\<lambda>rest. Inr (es @ rest)))"

definition sst_entries :: "(bytes \<Rightarrow> u64) \<Rightarrow> page_source \<Rightarrow> sst_reader \<Rightarrow> entry list result" where
  "sst_entries xxh pool r =
     rbind (all_block_entries xxh pool r [0 ..< length (sr_index r)]) (\<lambda>es.
       if word_of_nat (length es) \<noteq> sr_entry_count r
       then Inl (Integrity ''SST footer declares a different number of entries'') else Inr es)"

end
