(* ===== verification/Sst_Read.thy ===== *)
theory Sst_Read
  imports Sst
begin

text \<open>
  Reading back what the SST writer wrote: the block codec, the layout of the file, the index and
  the Bloom filter, and lookups through the mapped file or the buffer pool.
\<close>

section \<open>Cursor and checksum\<close>

lemma cur_simps [simp]:
  "cur_u32 (u32_le w @ rest) = Inr (w, rest)" "cur_u64 (u64_le x @ rest) = Inr (x, rest)"
  "cur_u8 (b # rest) = Inr (b, rest)" "cur_take (length xs) (xs @ rest) = Inr (xs, rest)"
  "cur_finish [] = Inr ()"
  by (simp_all add: cur_u32_def cur_u64_def cur_u8_def cur_take_def cur_finish_def)

lemma cur_take_len: "length xs = n \<Longrightarrow> cur_take n (xs @ rest) = Inr (xs, rest)"
  by auto

lemma checked_checksummed [simp]: "checked_payload xxh (checksummed xxh p) = Inr p"
  by (simp add: checked_payload_def checksummed_def CHECKSUM_LEN_def)

lemma length_checksummed [simp]: "length (checksummed xxh p) = length p + 8"
  by (simp add: checksummed_def)

lemma checked_u32_Inr: "checked_u32 n = Inr w \<longleftrightarrow> n < 2 ^ 32 \<and> w = word_of_nat n"
  by (auto simp: checked_u32_def)

section \<open>Entries and blocks\<close>

definition value_bytes :: "entry \<Rightarrow> bytes" where
  "value_bytes e = (case e_value e of None \<Rightarrow> [] | Some v \<Rightarrow> v)"

definition entry_flags :: "entry \<Rightarrow> byte" where
  "entry_flags e = (if e_tombstone e then SST_FLAG_TOMBSTONE else 0)"

definition entry_bytes :: "entry \<Rightarrow> bytes" where
  "entry_bytes e = u64_le (e_seq e) @ entry_flags e # u32_le (len32 (e_key e)) @ u32_le (len32 (value_bytes e)) @
     e_key e @ value_bytes e"

definition entry_fits :: "entry \<Rightarrow> bool" where
  "entry_fits e \<longleftrightarrow> wf_entry e \<and> length (e_key e) < 2 ^ 32 \<and> length (value_bytes e) < 2 ^ 32"

lemma encode_entry_Inr:
  "encode_entry e = Inr b \<longleftrightarrow> length (e_key e) < 2 ^ 32 \<and> length (value_bytes e) < 2 ^ 32 \<and> b = entry_bytes e"
proof -
  have "length (value_bytes e) = (case e_value e of None \<Rightarrow> 0 | Some v \<Rightarrow> length v)"
    by (simp add: value_bytes_def split: option.splits)
  then show ?thesis
    by (auto simp: encode_entry_def rbind_eq_Inr checked_u32_Inr entry_bytes_def entry_flags_def len32_def value_bytes_def)
qed

lemma encode_entries_Inr:
  "encode_entries es = Inr b \<longleftrightarrow>
   (\<forall>e \<in> set es. length (e_key e) < 2 ^ 32 \<and> length (value_bytes e) < 2 ^ 32) \<and> b = concat (map entry_bytes es)"
  by (induction es arbitrary: b) (auto simp: rbind_eq_Inr encode_entry_Inr)

lemma decode_entry_bytes:
  assumes "entry_fits e"
  shows "decode_entry (entry_bytes e @ rest) = Inr ((e_seq e, entry_flags e, e_key e, value_bytes e), rest)"
    "mk_entry (e_seq e, entry_flags e, e_key e, value_bytes e) = Inr e"
proof -
  have lens: "unat (len32 (e_key e)) = length (e_key e)" "unat (len32 (value_bytes e)) = length (value_bytes e)"
    using assms by (simp_all add: entry_fits_def)
  have "entry_flags e AND NOT SST_FLAG_TOMBSTONE = 0" by (simp add: entry_flags_def SST_FLAG_TOMBSTONE_def)
  then show "decode_entry (entry_bytes e @ rest) = Inr ((e_seq e, entry_flags e, e_key e, value_bytes e), rest)"
    by (simp add: decode_entry_def entry_bytes_def lens)
  have "wf_entry e" using assms by (simp add: entry_fits_def)
  then show "mk_entry (e_seq e, entry_flags e, e_key e, value_bytes e) = Inr e"
    by (cases rule: wf_entry_cases) (simp_all add: mk_entry_def entry_flags_def value_bytes_def SST_FLAG_TOMBSTONE_def Let_def)
qed

lemma entries_loop_bytes:
  "\<forall>e \<in> set es. entry_fits e \<Longrightarrow> entries_loop (length es) (concat (map entry_bytes es)) = Inr es"
  by (induction es) (simp_all add: decode_entry_bytes)

text \<open>The order that the writer checks: user key ascending, newest version first.\<close>

abbreviation version_sorted :: "entry list \<Rightarrow> bool" where
  "version_sorted \<equiv> sorted_wrt (\<lambda>a b. ikey a < ikey b)"

abbreviation visible :: "key \<Rightarrow> commit_ts \<Rightarrow> entry \<Rightarrow> bool" where
  "visible k ts \<equiv> \<lambda>e. e_key e = k \<and> e_seq e \<le> ts"

lemma find_none_above:
  "\<forall>e \<in> set es. k < e_key e \<Longrightarrow> find (visible k ts) es = None"
  by (auto simp: find_None_iff)

lemma lookup_loop_bytes:
  "\<forall>e \<in> set es. entry_fits e \<Longrightarrow> version_sorted es \<Longrightarrow>
   lookup_loop (length es) (concat (map entry_bytes es)) k ts = Inr (find (visible k ts) es)"
proof (induction es)
  case (Cons e es)
  note E = decode_entry_bytes [of e]
  have fits: "entry_fits e" using Cons.prems(1) by simp
  have above: "k < e_key e \<Longrightarrow> find (visible k ts) es = None"
    using Cons.prems(2) by (intro find_none_above) (auto simp: ikey_def intro: less_trans)
  consider "e_key e < k" | "k < e_key e" | "e_key e = k" "ts < e_seq e" | "e_key e = k" "e_seq e \<le> ts"
    by (metis linorder_less_linear not_le)
  then show ?case
    using Cons E [OF fits] above by cases (auto simp: not_le [symmetric])
qed simp

definition block_payload :: "entry list \<Rightarrow> bytes" where
  "block_payload es = u32_le (word_of_nat (length es)) @ concat (map entry_bytes es)"

definition block_bytes :: "(bytes \<Rightarrow> u64) \<Rightarrow> entry list \<Rightarrow> bytes" where
  "block_bytes xxh es = checksummed xxh (block_payload es)"

text \<open>A block the writer accepts.\<close>

definition block_ok :: "entry list \<Rightarrow> bool" where
  "block_ok es \<longleftrightarrow> es \<noteq> [] \<and> length es < 2 ^ 32 \<and> (\<forall>e \<in> set es. entry_fits e) \<and> length (block_payload es) + 8 < 2 ^ 32"

lemma decode_block:
  assumes "block_ok es"
  shows "decode_data_entries (block_payload es) = Inr es"
    "version_sorted es \<Longrightarrow> decode_data_lookup_at (block_payload es) k ts = Inr (find (visible k ts) es)"
proof -
  have "unat (word_of_nat (length es) :: u32) = length es"
    using assms by (intro unat_of_nat_eq) (simp add: block_ok_def)
  then show "decode_data_entries (block_payload es) = Inr es"
    "version_sorted es \<Longrightarrow> decode_data_lookup_at (block_payload es) k ts = Inr (find (visible k ts) es)"
    using assms by (simp_all add: decode_data_entries_def decode_data_lookup_at_def block_payload_def block_ok_def
        entries_loop_bytes lookup_loop_bytes)
qed

section \<open>Layout of the file\<close>

definition meta_at :: "(bytes \<Rightarrow> u64) \<Rightarrow> nat \<Rightarrow> entry list \<Rightarrow> block_meta" where
  "meta_at xxh pos b = \<lparr>bm_first_key = e_key (hd b), bm_last_key = e_key (last b),
     bm_offset = word_of_nat pos, bm_len = word_of_nat (length (block_bytes xxh b))\<rparr>"

primrec metas_at :: "(bytes \<Rightarrow> u64) \<Rightarrow> nat \<Rightarrow> entry list list \<Rightarrow> block_meta list" where
  "metas_at xxh pos [] = []"
| "metas_at xxh pos (b # bs) = meta_at xxh pos b # metas_at xxh (pos + length (block_bytes xxh b)) bs"

abbreviation blocks_bytes :: "(bytes \<Rightarrow> u64) \<Rightarrow> entry list list \<Rightarrow> bytes" where
  "blocks_bytes xxh bs \<equiv> concat (map (block_bytes xxh) bs)"

text \<open>No user key has versions in two blocks.\<close>

abbreviation keys_apart :: "entry list list \<Rightarrow> bool" where
  "keys_apart \<equiv> successively (\<lambda>b b'. e_key (last b) \<noteq> e_key (hd b'))"

lemma write_data_block_Inr:
  assumes "write_data_block xxh out b = Inr out'" "b \<noteq> []" "\<forall>e \<in> set b. wf_entry e"
  shows "block_ok b" "fst out' = fst out @ block_bytes xxh b"
    "snd out' = snd out @ [meta_at xxh (length (fst out)) b]"
  using assms
  by (auto simp: write_data_block_def rbind_eq_Inr checked_u32_Inr encode_entries_Inr Let_def block_ok_def
      block_payload_def block_bytes_def meta_at_def entry_fits_def CHECKSUM_LEN_def)

lemma write_loop_layout:
  assumes "write_loop xxh bs es out blk est = Inr out'" "\<forall>e \<in> set (blk @ es). wf_entry e"
  shows "\<exists>blocks. concat blocks = blk @ es \<and> (\<forall>b \<in> set blocks. block_ok b) \<and> keys_apart blocks \<and>
    (blk \<noteq> [] \<longrightarrow> blocks \<noteq> [] \<and> hd (hd blocks) = hd blk) \<and>
    fst out' = fst out @ blocks_bytes xxh blocks \<and> snd out' = snd out @ metas_at xxh (length (fst out)) blocks"
  using assms
proof (induction es arbitrary: out blk est)
  case Nil
  show ?case
  proof (cases "blk = []")
    case True
    then show ?thesis using Nil by (intro exI [of _ "[]"]) auto
  next
    case False
    then show ?thesis using Nil write_data_block_Inr [of xxh out blk out']
      by (intro exI [of _ "[blk]"]) auto
  qed
next
  case (Cons e es)
  show ?case
  proof (cases "blk \<noteq> [] \<and> bs < est + encoded_entry_len e \<and> e_key (last blk) \<noteq> e_key e")
    case True
    then obtain out1 where out1: "write_data_block xxh out blk = Inr out1"
      "write_loop xxh bs es out1 [e] (4 + encoded_entry_len e) = Inr out'"
      using Cons.prems(1) by (auto simp: rbind_eq_Inr)
    note W = write_data_block_Inr [OF out1(1)]
    obtain blocks where B: "concat blocks = [e] @ es" "\<forall>b \<in> set blocks. block_ok b" "keys_apart blocks"
      "blocks \<noteq> []" "hd (hd blocks) = e" "fst out' = fst out1 @ blocks_bytes xxh blocks"
      "snd out' = snd out1 @ metas_at xxh (length (fst out1)) blocks"
      using Cons.IH [OF out1(2)] Cons.prems(2) by auto
    have "keys_apart (blk # blocks)" using B(3-5) True by (cases blocks) auto
    then show ?thesis
      using W B True Cons.prems(2) by (intro exI [of _ "blk # blocks"]) auto
  next
    case False
    then have "write_loop xxh bs es out (blk @ [e]) (est + encoded_entry_len e) = Inr out'"
      using Cons.prems(1) by auto
    from Cons.IH [OF this] Cons.prems(2) show ?thesis by (cases blk) auto
  qed
qed

text \<open>The index block.\<close>

lemma decode_encode_meta:
  assumes "length (bm_first_key m) < 2 ^ 32" "length (bm_last_key m) < 2 ^ 32"
  shows "decode_meta (encode_meta m @ rest) = Inr (m, rest)"
proof -
  have "unat (len32 (bm_first_key m)) = length (bm_first_key m)" "unat (len32 (bm_last_key m)) = length (bm_last_key m)"
    using assms by simp_all
  then show ?thesis by (simp add: decode_meta_def encode_meta_def)
qed

lemma block_ok_lengths:
  assumes "block_ok b"
  shows "length (e_key (hd b)) < 2 ^ 32" "length (e_key (last b)) < 2 ^ 32" "8 \<le> length (block_bytes xxh b)"
    "unat (word_of_nat (length (block_bytes xxh b)) :: u32) = length (block_bytes xxh b)"
proof -
  show "length (e_key (hd b)) < 2 ^ 32" "length (e_key (last b)) < 2 ^ 32"
    using assms by (auto simp: block_ok_def entry_fits_def)
  show "8 \<le> length (block_bytes xxh b)" by (simp add: block_bytes_def)
  show "unat (word_of_nat (length (block_bytes xxh b)) :: u32) = length (block_bytes xxh b)"
    using assms by (intro unat_of_nat_eq) (simp add: block_ok_def block_bytes_def)
qed

lemma sorted_block_keys:
  assumes "version_sorted b" "b \<noteq> []" "e \<in> set b"
  shows "e_key (hd b) \<le> e_key e" "e_key e \<le> e_key (last b)"
proof -
  show "e_key (hd b) \<le> e_key e" using assms by (cases b) (auto simp: ikey_def less_imp_le)
  show "e_key e \<le> e_key (last b)"
    using assms by (cases b rule: rev_cases) (auto simp: ikey_def sorted_wrt_append less_imp_le)
qed

lemma decode_metas_at:
  assumes "\<forall>b \<in> set blocks. block_ok b" "version_sorted (concat blocks)"
    and "pos + length (blocks_bytes xxh blocks) \<le> data_end" "8 \<le> pos" "data_end < 2 ^ 64"
    and "\<And>p b. prev = Some p \<Longrightarrow> b \<in> set blocks \<Longrightarrow> p \<le> e_key (hd b)"
  shows "decode_metas (length blocks) data_end (concat (map encode_meta (metas_at xxh pos blocks)) @ rest) prev =
    Inr (metas_at xxh pos blocks, rest)"
  using assms
proof (induction blocks arbitrary: pos prev)
  case (Cons b bs)
  have ok: "block_ok b" using Cons.prems(1) by simp
  note L = block_ok_lengths(1,2) [OF ok] block_ok_lengths(3,4) [OF ok, of xxh]
  have bne: "b \<noteq> []" "version_sorted b" using ok Cons.prems(2) by (auto simp: block_ok_def sorted_wrt_append)
  have "pos < 2 ^ 64" using Cons.prems(3,5) by simp
  then have "unat (word_of_nat pos :: u64) = pos" by (simp add: unat_of_nat_eq)
  then have range: "validate_range (unat (bm_offset (meta_at xxh pos b))) (unat (bm_len (meta_at xxh pos b))) data_end = Inr ()"
    using L(3,4) Cons.prems(3-5) by (simp add: meta_at_def validate_range_def CHECKSUM_LEN_def HEADER_LEN_def)
  have order: "e_key (hd b) \<le> e_key (last b)" using sorted_block_keys [OF bne(2,1)] bne(1) by simp
  have next_b: "e_key (last b) \<le> e_key (hd b')" if "b' \<in> set bs" for b'
  proof -
    have "b' \<noteq> []" using that Cons.prems(1) by (auto simp: block_ok_def)
    then have "last b \<in> set b" "hd b' \<in> set (concat bs)" using bne that by (auto intro: bexI [of _ b'])
    then have "ikey (last b) < ikey (hd b')" using Cons.prems(2) by (auto simp: sorted_wrt_append)
    then show ?thesis by (auto simp: ikey_def)
  qed
  have IH: "decode_metas (length bs) data_end
      (concat (map encode_meta (metas_at xxh (pos + length (block_bytes xxh b)) bs)) @ rest) (Some (e_key (last b))) =
      Inr (metas_at xxh (pos + length (block_bytes xxh b)) bs, rest)"
    by (rule Cons.IH) (use Cons.prems next_b in \<open>auto simp: sorted_wrt_append\<close>)
  have "\<not> (case prev of None \<Rightarrow> False | Some p \<Rightarrow> bm_first_key (meta_at xxh pos b) < p)"
    using Cons.prems(6) by (auto split: option.splits simp: not_less meta_at_def)
  moreover have "\<not> bm_last_key (meta_at xxh pos b) < bm_first_key (meta_at xxh pos b)"
    "bm_last_key (meta_at xxh pos b) = e_key (last b)" using order by (auto simp: meta_at_def not_less)
  moreover have "decode_meta (encode_meta (meta_at xxh pos b) @ r) = Inr (meta_at xxh pos b, r)" for r
    using L(1,2) by (intro decode_encode_meta) (simp_all add: meta_at_def)
  ultimately show ?case using IH range by simp
qed simp

section \<open>Bloom filter\<close>

lemma length_set_bits [simp]: "length (foldl set_bit_at bits bs) = length bits"
  by (induction bs arbitrary: bits) (simp_all add: set_bit_at_def)

definition bit_set :: "bytes \<Rightarrow> nat \<Rightarrow> bool" where
  "bit_set bits b \<longleftrightarrow> bits ! (b div 8) AND push_bit (b mod 8) 1 \<noteq> 0"

lemma bit_set_iff: "bit_set bits b \<longleftrightarrow> bit (bits ! (b div 8)) (b mod 8)"
  by (simp add: bit_set_def bit_iff_and_push_bit_not_eq_0)

lemma bit_set_at:
  assumes "b div 8 < length bits"
  shows "bit_set (set_bit_at bits b) b" "bit_set bits c \<Longrightarrow> bit_set (set_bit_at bits b) c"
  using assms
  by (simp_all add: bit_set_iff set_bit_at_def bit_or_iff bit_exp_iff nth_list_update)

lemma bit_set_foldl_mono:
  "\<forall>b \<in> set bs. b div 8 < length bits \<Longrightarrow> bit_set bits c \<Longrightarrow> bit_set (foldl set_bit_at bits bs) c"
proof (induction bs arbitrary: bits)
  case (Cons x bs)
  then have "bit_set (set_bit_at bits x) c" by (intro bit_set_at(2)) auto
  then show ?case using Cons by (simp add: set_bit_at_def)
qed simp

lemma bit_set_foldl:
  assumes "\<forall>b \<in> set bs. b div 8 < length bits" "b \<in> set bs"
  shows "bit_set (foldl set_bit_at bits bs) b"
proof -
  obtain xs ys where bs: "bs = xs @ b # ys" using assms(2) by (meson split_list)
  let ?bits = "foldl set_bit_at bits xs"
  have "bit_set (set_bit_at ?bits b) b" by (rule bit_set_at(1)) (use assms(1) bs in simp)
  moreover have "length (set_bit_at ?bits b) = length bits" by (simp add: set_bit_at_def)
  ultimately show ?thesis using bit_set_foldl_mono [of ys "set_bit_at ?bits b" b] assms(1) bs by simp
qed

lemma bloom_hashes_range:
  assumes "0 < n" "8 dvd n"
  shows "\<forall>b \<in> set (bloom_hashes xxh k n). b div 8 < n div 8"
proof -
  have "x mod n div 8 < n div 8" for x
    using assms by (intro less_mult_imp_div_less) simp
  then show ?thesis by (auto simp: bloom_hashes_def Let_def)
qed

lemma bloom_bit_count: "0 < bloom_bit_count n" "8 dvd bloom_bit_count n"
  by (auto simp: bloom_bit_count_def)

definition filter_bits :: "(bytes \<Rightarrow> u64) \<Rightarrow> nat \<Rightarrow> bytes \<Rightarrow> entry list \<Rightarrow> bytes" where
  "filter_bits xxh n bits es = foldl (\<lambda>bits e. foldl set_bit_at bits (bloom_hashes xxh (e_key e) n)) bits es"

lemma length_filter_bits [simp]: "length (filter_bits xxh n bits es) = length bits"
  unfolding filter_bits_def by (induction es arbitrary: bits) simp_all

lemma filter_bits_mono:
  assumes "0 < n" "8 dvd n"
  shows "length bits = n div 8 \<Longrightarrow> bit_set bits c \<Longrightarrow> bit_set (filter_bits xxh n bits es) c"
proof (induction es arbitrary: bits)
  case (Cons a es)
  have "bit_set (foldl set_bit_at bits (bloom_hashes xxh (e_key a) n)) c"
    by (rule bit_set_foldl_mono) (use Cons.prems bloom_hashes_range [OF assms] in auto)
  then show ?case using Cons by (simp add: filter_bits_def)
qed (simp add: filter_bits_def)

lemma filter_bits_set:
  assumes "0 < n" "8 dvd n" "length bits = n div 8" "e \<in> set es" "b \<in> set (bloom_hashes xxh (e_key e) n)"
  shows "bit_set (filter_bits xxh n bits es) b"
proof -
  obtain xs ys where es: "es = xs @ e # ys" using assms(4) by (meson split_list)
  let ?bits = "foldl set_bit_at (filter_bits xxh n bits xs) (bloom_hashes xxh (e_key e) n)"
  have "bit_set ?bits b"
    by (rule bit_set_foldl) (use assms(3,5) bloom_hashes_range [OF assms(1,2)] in auto)
  moreover have "filter_bits xxh n bits es = filter_bits xxh n ?bits ys" by (simp add: es filter_bits_def)
  ultimately show ?thesis using filter_bits_mono [OF assms(1,2)] assms(3) by simp
qed

section \<open>Blocks from the buffer pool\<close>

text \<open>The pool serves the pages of the file, the last one padded.\<close>

definition pool_serves :: "bytes \<Rightarrow> page_source \<Rightarrow> bool" where
  "pool_serves file pool \<longleftrightarrow>
     (case pool of
        None \<Rightarrow> True
      | Some (ps, fetch) \<Rightarrow> 0 < ps \<and> (\<forall>i. i * ps < length file \<longrightarrow>
          (\<exists>page. fetch i = Inr page \<and> take (length file - i * ps) page = take ps (drop (i * ps) file))))"

lemma take_drop_take: "n + s \<le> m \<Longrightarrow> take n (drop s (take m xs)) = take n (drop s xs)"
  by (simp add: drop_take)

lemma page_slice:
  assumes "take (length file - i * ps) page = take ps (drop (i * ps) file)" "n + src \<le> ps" "n + src \<le> length file - i * ps"
  shows "slice page src n = slice file (i * ps + src) n"
proof -
  have "slice page src n = take n (drop src (take (length file - i * ps) page))"
    unfolding slice_def by (rule take_drop_take [OF assms(3), symmetric])
  also have "\<dots> = take n (drop src (drop (i * ps) file))"
    unfolding assms(1) by (rule take_drop_take [OF assms(2)])
  finally show ?thesis by (simp add: slice_def add.commute)
qed

lemma copy_pages_slice:
  assumes "pool_serves file (Some (ps, fetch))" "start + len \<le> length file"
  shows "length buf = len \<Longrightarrow> start div ps \<le> p \<Longrightarrow> take (p * ps - start) buf = take (p * ps - start) (slice file start len) \<Longrightarrow>
    start + len \<le> q * ps \<Longrightarrow> (q - 1) * ps < start + len \<Longrightarrow> p \<le> q \<Longrightarrow>
    copy_pages [p ..< q] ps fetch start len buf = Inr (slice file start len)"
proof (induction "q - p" arbitrary: p buf)
  case 0
  then have "p = q" by simp
  moreover have "length (slice file start len) = len" using assms(2) by (simp add: slice_def)
  ultimately show ?case using 0 by simp
next
  case (Suc m)
  let ?S = "slice file start len"
  have ps: "0 < ps" using assms(1) by (simp add: pool_serves_def)
  have lenS: "length ?S = len" using assms(2) by (simp add: slice_def)
  have pq: "p < q" using Suc.hyps(2) by simp
  then have "p * ps \<le> (q - 1) * ps" by (intro mult_le_mono1) simp
  then have plt: "p * ps < start + len" using Suc.prems(5) by (rule le_less_trans)
  then have "p * ps < length file" using assms(2) by simp
  then obtain page where page: "fetch p = Inr page" "take (length file - p * ps) page = take ps (drop (p * ps) file)"
    using assms(1) unfolding pool_serves_def by auto
  have "start < Suc p * ps"
    using Suc.prems(2) div_less_iff_less_mult [OF ps, of start "Suc p"] by simp
  then have start: "start < p * ps + ps" by simp
  define cs where "cs = max start (p * ps)"
  define ce where "ce = min (start + len) (p * ps + ps)"
  define dst where "dst = cs - start"
  define n where "n = ce - cs"
  have b: "cs \<le> ce" "cs - p * ps + n \<le> ps" "p * ps + (cs - p * ps) = cs" "start + dst = cs" "dst + n \<le> len"
    "dst \<le> p * ps - start" "n + cs \<le> length file" "dst + n = min len (p * ps + ps - start)"
    using start plt assms(2) unfolding cs_def ce_def dst_def n_def by auto
  have "slice page (cs - p * ps) n = slice file cs n"
    using page_slice [OF page(2), of n "cs - p * ps"] b by simp
  also have "\<dots> = take n (drop dst ?S)"
    using take_drop_take [of n dst len "drop start file"] b by (simp add: slice_def add.commute)
  finally have part: "slice page (cs - p * ps) n = take n (drop dst ?S)" .
  let ?buf = "take dst buf @ slice page (cs - p * ps) n @ drop (dst + n) buf"
  have "take dst buf = take dst ?S"
    using arg_cong [OF Suc.prems(3), of "take dst"] b(6) by simp
  then have pre: "take dst buf @ slice page (cs - p * ps) n = take (dst + n) ?S" by (simp add: part take_add)
  have "copy_pages [p ..< q] ps fetch start len buf = copy_pages [Suc p ..< q] ps fetch start len ?buf"
    using pq page(1) by (simp add: upt_conv_Cons Let_def cs_def ce_def dst_def n_def)
  also have "\<dots> = Inr ?S"
  proof (rule Suc.hyps(1))
    have buf: "?buf = take (dst + n) ?S @ drop (dst + n) buf" unfolding append.assoc [symmetric] pre ..
    show "length ?buf = len" unfolding buf using lenS b(5) Suc.prems(1) by simp
    have k: "dst + n = min len (Suc p * ps - start)" using b(8) by (simp add: add.commute)
    show "take (Suc p * ps - start) ?buf = take (Suc p * ps - start) ?S"
    proof (cases "Suc p * ps - start \<le> len")
      case True
      then show ?thesis unfolding buf using k lenS by simp
    next
      case False
      then show ?thesis unfolding buf using k lenS Suc.prems(1) by simp
    qed
  qed (use Suc pq in auto)
  finally show ?case .
qed

section \<open>Lookups\<close>

lemma data_block_at:
  assumes "pool_serves (sr_mmap r) pool" "sr_mmap r = pre @ block_bytes xxh b @ post" "length (sr_mmap r) < 2 ^ 64" "block_ok b"
  shows "data_block_bytes pool r (meta_at xxh (length pre) b) = Inr (block_bytes xxh b)"
proof -
  let ?start = "length pre" and ?len = "length (block_bytes xxh b)"
  note L = block_ok_lengths(3,4) [OF assms(4), of xxh]
  have "length pre < 2 ^ 64" using assms(2,3) by simp
  then have off: "unat (word_of_nat (length pre) :: u64) = length pre" by (simp add: unat_of_nat_eq)
  have slice: "slice (sr_mmap r) ?start ?len = block_bytes xxh b" by (simp add: slice_def assms(2))
  show ?thesis
  proof (cases pool)
    case None
    then show ?thesis using L(2) off slice by (simp add: data_block_bytes_def meta_at_def)
  next
    case (Some pf)
    obtain ps fetch where pf: "pf = (ps, fetch)" by (cases pf)
    have ps: "0 < ps" using assms(1) Some pf by (simp add: pool_serves_def)
    let ?q = "Suc ((?start + ?len - 1) div ps)"
    have "copy_pages [?start div ps ..< ?q] ps fetch ?start ?len (replicate ?len 0) = Inr (slice (sr_mmap r) ?start ?len)"
    proof (rule copy_pages_slice)
      show "pool_serves (sr_mmap r) (Some (ps, fetch))" using assms(1) Some pf by simp
      have "?start div ps * ps \<le> ?start" by simp
      then show "take (?start div ps * ps - ?start) (replicate ?len 0) =
          take (?start div ps * ps - ?start) (slice (sr_mmap r) ?start ?len)" by simp
      have "?start + ?len - 1 < ?q * ps" using div_less_iff_less_mult [OF ps, of "?start + ?len - 1" ?q] by simp
      then show "?start + ?len \<le> ?q * ps" by simp
      have "(?start + ?len - 1) div ps * ps \<le> ?start + ?len - 1" by (rule div_times_less_eq_dividend)
      then have "(?start + ?len - 1) div ps * ps < ?start + ?len" using L(1) by linarith
      then show "(?q - 1) * ps < ?start + ?len" unfolding diff_Suc_1 .
      show "?start div ps \<le> ?q" using L(1) by (intro le_SucI div_le_mono) simp
    qed (use assms(2) in auto)
    then show ?thesis using L(2) off slice Some pf by (simp add: data_block_bytes_def meta_at_def Let_def)
  qed
qed

lemma keys_apart_next:
  assumes "version_sorted (concat (b # bs))" "\<forall>c \<in> set (b # bs). c \<noteq> []" "keys_apart (b # bs)" "e \<in> set (concat bs)"
  shows "e_key (last b) < e_key e"
proof -
  obtain c cs where bs: "bs = c # cs" using assms(4) by (cases bs) auto
  have ne: "b \<noteq> []" "c \<noteq> []" using assms(2) bs by auto
  have "ikey (last b) < ikey (hd c)" using assms(1) bs ne by (auto simp: sorted_wrt_append)
  moreover have "e_key (last b) \<noteq> e_key (hd c)" using assms(3) bs by simp
  ultimately have lt: "e_key (last b) < e_key (hd c)" by (simp add: ikey_def)
  have "version_sorted (concat bs)" "hd (concat bs) = hd c" using assms(1) bs ne by (auto simp: sorted_wrt_append)
  then have "e_key (hd c) \<le> e_key e" using sorted_block_keys(1) [of "concat bs" e] assms(4) by (cases "concat bs") auto
  with lt show ?thesis by simp
qed

lemma get_loop_stop:
  assumes "\<forall>b \<in> set bs. b \<noteq> [] \<and> k < e_key (hd b) \<and> k \<le> e_key (last b)"
  shows "get_loop xxh pool r k ts (metas_at xxh pos bs) best = Inr best"
  using assms by (cases bs) (auto simp: meta_at_def not_less [symmetric])

lemma find_append: "find P (xs @ ys) = (case find P xs of None \<Rightarrow> find P ys | Some x \<Rightarrow> Some x)"
  by (induction xs) auto

lemma get_loop_blocks:
  assumes "pool_serves (sr_mmap r) pool" "length (sr_mmap r) < 2 ^ 64"
  shows "sr_mmap r = pre @ blocks_bytes xxh bs @ post \<Longrightarrow> \<forall>b \<in> set bs. block_ok b \<Longrightarrow> version_sorted (concat bs) \<Longrightarrow>
    keys_apart bs \<Longrightarrow>
    get_loop xxh pool r k ts (metas_at xxh (length pre) bs) None = Inr (find (visible k ts) (concat bs))"
proof (induction bs arbitrary: pre)
  case (Cons b bs)
  have ok: "block_ok b" and ne: "b \<noteq> []" "\<forall>c \<in> set (b # bs). c \<noteq> []" using Cons.prems(2) by (auto simp: block_ok_def)
  have sorted: "version_sorted b" "version_sorted (concat bs)" using Cons.prems(3) by (auto simp: sorted_wrt_append)
  have after: "e_key (last b) < e_key e" if "e \<in> set (concat bs)" for e
    using keys_apart_next [OF Cons.prems(3) ne(2) Cons.prems(4) that] .
  have IH: "get_loop xxh pool r k ts (metas_at xxh (length pre + length (block_bytes xxh b)) bs) None =
      Inr (find (visible k ts) (concat bs))"
    using Cons.IH [of "pre @ block_bytes xxh b"] Cons.prems sorted(2) by (auto simp: successively_Cons)
  consider (below) "e_key (last b) < k" | (above) "k < e_key (hd b)" | (in_range) "e_key (hd b) \<le> k" "k \<le> e_key (last b)"
    by (meson not_le)
  then show ?case
  proof cases
    case below
    then have "find (visible k ts) b = None"
      using sorted_block_keys(2) [OF sorted(1) ne(1)] by (fastforce simp: find_None_iff)
    then show ?thesis using IH below by (simp add: meta_at_def find_append)
  next
    case above
    have "\<forall>e \<in> set (concat (b # bs)). k < e_key e"
      using sorted_block_keys(1) [of "concat (b # bs)"] Cons.prems(3) ne(1) above by (auto intro: less_le_trans)
    then have "find (visible k ts) (concat (b # bs)) = None" by (rule find_none_above)
    moreover have "\<not> e_key (last b) < k"
      using above sorted_block_keys(2) [OF sorted(1) ne(1), of "hd b"] ne(1) by auto
    ultimately show ?thesis using above by (simp add: meta_at_def)
  next
    case in_range
    have rest: "find (visible k ts) (concat bs) = None"
      by (rule find_none_above) (use after in_range(2) in \<open>auto intro: le_less_trans\<close>)
    have stop: "get_loop xxh pool r k ts (metas_at xxh (length pre + length (block_bytes xxh b)) bs) best = Inr best" for best
    proof (rule get_loop_stop, intro ballI conjI)
      fix c assume c: "c \<in> set bs"
      then show "c \<noteq> []" using ne(2) by simp
      with c have "hd c \<in> set (concat bs)" "last c \<in> set (concat bs)" by (auto intro: bexI [of _ c])
      then show "k < e_key (hd c)" "k \<le> e_key (last c)" using after in_range(2) by (auto intro: le_less_trans less_imp_le)
    qed
    have "data_block_bytes pool r (meta_at xxh (length pre) b) = Inr (block_bytes xxh b)"
      by (rule data_block_at [OF assms(1) _ assms(2) ok]) (use Cons.prems(1) in simp)
    then show ?thesis
      using in_range stop rest decode_block(2) [OF ok sorted(1)]
      by (simp add: block_bytes_def find_append meta_at_def not_less [symmetric] split: option.splits)
  qed
qed simp

section \<open>Opening a written file\<close>

lemma validate_values_Inr: "validate_values es = Inr () \<longleftrightarrow> (\<forall>e \<in> set es. wf_entry e)"
  by (induction es) (auto simp: wf_entry_def)

lemma validate_entries_Inr: "validate_entries es = Inr u \<longleftrightarrow> (\<forall>e \<in> set es. wf_entry e) \<and> version_sorted es"
proof -
  have "(\<lambda>a b. e_key a < e_key b \<or> e_key a = e_key b \<and> \<not> e_seq a \<le> e_seq b) = (\<lambda>a b. ikey a < ikey b)"
    by (auto simp: ikey_def fun_eq_iff)
  moreover have "successively (\<lambda>a b. ikey a < ikey b) es \<longleftrightarrow> version_sorted es"
    by (rule successively_conv_sorted_wrt) (auto simp: transp_def)
  ultimately have "successively (\<lambda>a b. e_key a < e_key b \<or> e_key a = e_key b \<and> \<not> e_seq a \<le> e_seq b) es
      \<longleftrightarrow> version_sorted es"
    by (simp only:)
  then show ?thesis
    by (auto simp: validate_entries_def rbind_eq_Inr validate_values_Inr split: if_splits)
qed

lemma read_at:
  "read_u32 (pre @ u32_le w @ post) (length pre) = Inr w" "read_u64 (pre @ u64_le x @ post) (length pre) = Inr x"
  by (simp_all add: read_u32_def read_u64_def slice_def)

lemma read_at_len:
  "n = length pre \<Longrightarrow> read_u32 (pre @ u32_le w @ post) n = Inr w"
  "n = length pre \<Longrightarrow> read_u64 (pre @ u64_le x @ post) n = Inr x"
  by (simp_all add: read_at)

lemma length_sst_footer [simp]: "length (sst_footer a b c d e) = 36"
  by (simp add: sst_footer_def FOOTER_MAGIC_def)

lemma read_footer:
  fixes body :: bytes
  assumes "length body = n"
  shows "read_u64 (body @ sst_footer io il fo fl ec) n = Inr (word_of_nat io)"
    "read_u32 (body @ sst_footer io il fo fl ec) (n + 8) = Inr il"
    "read_u64 (body @ sst_footer io il fo fl ec) (n + 12) = Inr (word_of_nat fo)"
    "read_u32 (body @ sst_footer io il fo fl ec) (n + 20) = Inr fl"
    "read_u64 (body @ sst_footer io il fo fl ec) (n + 24) = Inr (word_of_nat ec)"
    "slice (body @ sst_footer io il fo fl ec) (n + 32) 4 = FOOTER_MAGIC"
proof -
  show "read_u64 (body @ sst_footer io il fo fl ec) n = Inr (word_of_nat io)"
    unfolding sst_footer_def using assms by (intro read_at_len) simp
  show "read_u32 (body @ sst_footer io il fo fl ec) (n + 8) = Inr il"
    using read_at_len(1) [of "n + 8" "body @ u64_le (word_of_nat io)" il] assms by (simp add: sst_footer_def)
  show "read_u64 (body @ sst_footer io il fo fl ec) (n + 12) = Inr (word_of_nat fo)"
    using read_at_len(2) [of "n + 12" "body @ u64_le (word_of_nat io) @ u32_le il" "word_of_nat fo"] assms
    by (simp add: sst_footer_def)
  show "read_u32 (body @ sst_footer io il fo fl ec) (n + 20) = Inr fl"
    using read_at_len(1) [of "n + 20" "body @ u64_le (word_of_nat io) @ u32_le il @ u64_le (word_of_nat fo)" fl] assms
    by (simp add: sst_footer_def)
  show "read_u64 (body @ sst_footer io il fo fl ec) (n + 24) = Inr (word_of_nat ec)"
    using read_at_len(2) [of "n + 24" "body @ u64_le (word_of_nat io) @ u32_le il @ u64_le (word_of_nat fo) @ u32_le fl" "word_of_nat ec"] assms
    by (simp add: sst_footer_def)
  show "slice (body @ sst_footer io il fo fl ec) (n + 32) 4 = FOOTER_MAGIC"
    using assms by (simp add: sst_footer_def slice_def FOOTER_MAGIC_def)
qed

lemma sst_write_layout:
  assumes "sst_write xxh t es bs = Inr file"
  obtains blocks where "concat blocks = es" "\<forall>b \<in> set blocks. block_ok b" "keys_apart blocks" "version_sorted es"
    "length (encode_index (metas_at xxh 8 blocks)) + 8 < 2 ^ 32" "length (encode_filter xxh es) + 8 < 2 ^ 32"
    "file = SST_MAGIC @ u32_le SST_VERSION @ blocks_bytes xxh blocks @ checksummed xxh (encode_index (metas_at xxh 8 blocks)) @
       checksummed xxh (encode_filter xxh es) @
       sst_footer (8 + length (blocks_bytes xxh blocks)) (word_of_nat (length (encode_index (metas_at xxh 8 blocks)) + 8))
         (8 + length (blocks_bytes xxh blocks) + length (encode_index (metas_at xxh 8 blocks)) + 8)
         (word_of_nat (length (encode_filter xxh es) + 8)) (length es)"
proof -
  have v: "\<forall>e \<in> set es. wf_entry e" "version_sorted es"
    using assms by (auto simp: sst_write_def rbind_eq_Inr validate_entries_Inr split: if_splits)
  obtain f ms where w: "write_loop xxh bs es (SST_MAGIC @ u32_le SST_VERSION, []) [] 4 = Inr (f, ms)"
    and rest: "length (encode_index ms) + 8 < 2 ^ 32" "length (encode_filter xxh es) + 8 < 2 ^ 32"
    "file = f @ checksummed xxh (encode_index ms) @ checksummed xxh (encode_filter xxh es) @
       sst_footer (length f) (word_of_nat (length (encode_index ms) + 8)) (length f + (length (encode_index ms) + 8))
         (word_of_nat (length (encode_filter xxh es) + 8)) (length es)"
    using assms by (auto simp: sst_write_def rbind_eq_Inr Let_def checked_u32_Inr CHECKSUM_LEN_def split: if_splits)
  obtain blocks where B: "concat blocks = es" "\<forall>b \<in> set blocks. block_ok b" "keys_apart blocks"
    "f = (SST_MAGIC @ u32_le SST_VERSION) @ blocks_bytes xxh blocks" "ms = metas_at xxh 8 blocks"
    using write_loop_layout [OF w] v(1) by (auto simp: SST_MAGIC_def)
  have "length f = 8 + length (blocks_bytes xxh blocks)" using B(4) by (simp add: SST_MAGIC_def)
  then show thesis using that [OF B(1-3) v(2)] rest B(4,5) by (simp add: add.assoc)
qed

lemma sst_write_length:
  assumes "sst_write xxh t es bs = Inr f"
  shows "length f < 2 ^ 64"
proof (rule sst_write_layout [OF assms])
  fix blocks
  assume B: "\<forall>b \<in> set blocks. block_ok b" "length (encode_index (metas_at xxh 8 blocks)) + 8 < 2 ^ 32"
    "length (encode_filter xxh es) + 8 < 2 ^ 32"
    and f: "f = SST_MAGIC @ u32_le SST_VERSION @ blocks_bytes xxh blocks @ checksummed xxh (encode_index (metas_at xxh 8 blocks)) @
       checksummed xxh (encode_filter xxh es) @
       sst_footer (8 + length (blocks_bytes xxh blocks)) (word_of_nat (length (encode_index (metas_at xxh 8 blocks)) + 8))
         (8 + length (blocks_bytes xxh blocks) + length (encode_index (metas_at xxh 8 blocks)) + 8)
         (word_of_nat (length (encode_filter xxh es) + 8)) (length es)"
  have len: "length (metas_at xxh p blocks) = length blocks" for p by (induction blocks arbitrary: p) auto
  have "20 * length ms \<le> length (concat (map encode_meta ms))" for ms by (induction ms) (auto simp: encode_meta_def)
  from this [of "metas_at xxh 8 blocks"] have "20 * length blocks < 2 ^ 32" using B(2) len by (simp add: encode_index_def)
  moreover have "length (blocks_bytes xxh blocks) \<le> length blocks * 2 ^ 32"
    using B(1) by (induction blocks) (auto simp: block_ok_def block_bytes_def)
  ultimately have "20 * length (blocks_bytes xxh blocks) \<le> 2 ^ 32 * 2 ^ 32" by simp
  then show ?thesis using f B(2,3) by (simp add: SST_MAGIC_def)
qed

lemma sst_open_parts:
  assumes layout: "file = F @ checksummed xxh idx @ checksummed xxh flt @
      sst_footer (length F) (word_of_nat (length idx + 8)) (length F + length idx + 8) (word_of_nat (length flt + 8)) n"
    and F: "take 8 F = SST_MAGIC @ u32_le SST_VERSION"
    and lens: "length idx + 8 < 2 ^ 32" "length flt + 8 < 2 ^ 32" "length file < 2 ^ 64"
    and idx: "decode_index idx (length F) = Inr ms"
  shows "sst_open xxh file = Inr \<lparr>sr_mmap = file, sr_index = ms, sr_filter_offset = length F + length idx + 8,
      sr_filter_len = length flt + 8, sr_entry_count = word_of_nat n\<rparr>"
proof -
  let ?body = "F @ checksummed xxh idx @ checksummed xxh flt"
  define m where "m = length F + (length idx + 8) + (length flt + 8)"
  have len: "length file = m + 36" "8 \<le> length F"
    using layout arg_cong [OF F, of length] by (simp_all add: SST_MAGIC_def m_def)
  obtain F' where F': "F = SST_MAGIC @ u32_le SST_VERSION @ F'"
    using append_take_drop_id [of 8 F] F by (metis append.assoc)
  have head: "take 4 file = SST_MAGIC" "read_u32 file 4 = Inr SST_VERSION"
    using read_at_len(1) [of 4 SST_MAGIC SST_VERSION] by (simp_all add: layout F' SST_MAGIC_def)
  have bf: "file = ?body @ sst_footer (length F) (word_of_nat (length idx + 8)) (length F + length idx + 8) (word_of_nat (length flt + 8)) n"
    by (simp add: layout)
  have foot: "read_u64 file m = Inr (word_of_nat (length F))" "read_u32 file (m + 8) = Inr (word_of_nat (length idx + 8))"
    "read_u64 file (m + 12) = Inr (word_of_nat (length F + length idx + 8))"
    "read_u32 file (m + 20) = Inr (word_of_nat (length flt + 8))"
    "read_u64 file (m + 24) = Inr (word_of_nat n)" "slice file (m + 32) 4 = FOOTER_MAGIC"
    unfolding bf by (rule read_footer; simp add: m_def)+
  have un: "unat (word_of_nat (length F) :: u64) = length F"
    "unat (word_of_nat (length F + length idx + 8) :: u64) = length F + length idx + 8"
    "unat (word_of_nat (length idx + 8) :: u32) = length idx + 8"
    "unat (word_of_nat (length flt + 8) :: u32) = length flt + 8"
    by (rule unat_of_nat_eq; use len lens in \<open>simp add: m_def\<close>)+
  have slices: "slice file (length F) (length idx + 8) = checksummed xxh idx"
    "slice file (length F + length idx + 8) (length flt + 8) = checksummed xxh flt"
    by (simp_all add: layout slice_def)
  have ranges: "validate_range (length F) (length idx + 8) m = Inr ()"
    "validate_range (length F + length idx + 8) (length flt + 8) m = Inr ()"
    using len lens(3) by (simp_all add: validate_range_def CHECKSUM_LEN_def HEADER_LEN_def m_def)
  have sz: "length file - FOOTER_LEN = m" "\<not> length file < HEADER_LEN + FOOTER_LEN"
    using len by (simp_all add: FOOTER_LEN_def HEADER_LEN_def m_def)
  show ?thesis
    unfolding sst_open_def Let_def sz(1)
    by (simp add: sz(2) head foot un slices ranges idx del: of_nat_add)
qed

lemma decode_index_at:
  assumes "\<forall>b \<in> set blocks. block_ok b" "version_sorted (concat blocks)"
    and "length (encode_index (metas_at xxh 8 blocks)) < 2 ^ 32" "8 + length (blocks_bytes xxh blocks) < 2 ^ 64"
  shows "decode_index (encode_index (metas_at xxh 8 blocks)) (8 + length (blocks_bytes xxh blocks)) = Inr (metas_at xxh 8 blocks)"
proof -
  have len: "length (metas_at xxh p blocks) = length blocks" for p by (induction blocks arbitrary: p) auto
  have "length ms \<le> length (concat (map encode_meta ms))" for ms
    by (induction ms) (auto simp: encode_meta_def)
  then have "length blocks < 2 ^ 32" using assms(3) len by (metis (no_types, lifting) encode_index_def
        le_add2 length_append order.strict_trans1 order.trans)
  then have "unat (word_of_nat (length blocks) :: u32) = length blocks" by (intro unat_of_nat_eq) simp
  then show ?thesis
    using decode_metas_at [OF assms(1,2), of 8 xxh "8 + length (blocks_bytes xxh blocks)" None "[]"] assms(4)
    by (simp add: decode_index_def encode_index_def len)
qed

lemma may_contain_written:
  assumes "slice (sr_mmap r) (sr_filter_offset r) (sr_filter_len r) = checksummed xxh (encode_filter xxh es)"
    and "bloom_bit_count (length es) < 2 ^ 32"
  shows "\<exists>b. may_contain xxh r k = Inr b \<and> (k \<in> e_key ` set es \<longrightarrow> b)"
proof -
  let ?n = "bloom_bit_count (length es)"
  let ?bits = "filter_bits xxh ?n (replicate (?n div 8) 0) es"
  have enc: "encode_filter xxh es = u32_le (word_of_nat ?n) @ [BLOOM_HASHES] @ ?bits"
    by (simp add: encode_filter_def filter_bits_def Let_def)
  note bc = bloom_bit_count [of "length es"]
  have un: "unat (word_of_nat ?n :: u32) = ?n" using assms(2) by (intro unat_of_nat_eq) simp
  have "may_contain xxh r k = Inr (list_all (bit_set ?bits) (bloom_hashes xxh k ?n))"
    using bc by (simp add: may_contain_def assms(1) enc un Let_def list_all_iff bit_set_def nth_append dvd_eq_mod_eq_0)
  moreover have "list_all (bit_set ?bits) (bloom_hashes xxh k ?n)" if "k \<in> e_key ` set es"
    using that filter_bits_set [OF bc, of "replicate (?n div 8) 0"] by (auto simp: list_all_iff)
  ultimately show ?thesis by simp
qed

lemma may_contain_overflow:
  assumes "slice (sr_mmap r) (sr_filter_offset r) (sr_filter_len r) = checksummed xxh (encode_filter xxh es)"
    and "2 ^ 32 \<le> bloom_bit_count (length es)"
  shows "may_contain xxh r k = Inl (Integrity ''invalid SST filter dimensions'')"
proof -
  let ?n = "bloom_bit_count (length es)"
  let ?bits = "filter_bits xxh ?n (replicate (?n div 8) 0) es"
  have enc: "encode_filter xxh es = u32_le (word_of_nat ?n) @ [BLOOM_HASHES] @ ?bits"
    by (simp add: encode_filter_def filter_bits_def Let_def)
  have "unat (word_of_nat ?n :: u32) div 8 < ?n div 8"
  proof -
    have "unat (word_of_nat ?n :: u32) < 2 ^ 32" using unsigned_less [of "word_of_nat ?n :: u32"] by simp
    then have "unat (word_of_nat ?n :: u32) div 8 < 2 ^ 32 div 8" by (simp add: div_less_iff_less_mult)
    also have "\<dots> \<le> ?n div 8" using assms(2) by (rule div_le_mono)
    finally show ?thesis .
  qed
  then show ?thesis by (simp add: may_contain_def assms(1) enc Let_def nth_append)
qed

section \<open>A written file reads back\<close>

lemma length_metas_at [simp]: "length (metas_at xxh p blocks) = length blocks"
  by (induction blocks arbitrary: p) auto

lemma metas_at_append:
  "metas_at xxh p (xs @ ys) = metas_at xxh p xs @ metas_at xxh (p + length (blocks_bytes xxh xs)) ys"
  by (induction xs arbitrary: p) (auto simp: add.assoc)

lemma all_block_entries_written:
  assumes "pool_serves (sr_mmap r) pool" "length (sr_mmap r) < 2 ^ 64" "\<forall>b \<in> set (done @ bs). block_ok b"
    and "sr_mmap r = pre @ blocks_bytes xxh (done @ bs) @ post" "sr_index r = metas_at xxh (length pre) (done @ bs)"
  shows "all_block_entries xxh pool r [length done ..< length (sr_index r)] = Inr (concat bs)"
  using assms(3-)
proof (induction bs arbitrary: "done")
  case (Cons b bs)
  have ok: "block_ok b" using Cons.prems(1) by simp
  have nth: "sr_index r ! length done = meta_at xxh (length (pre @ blocks_bytes xxh done)) b"
    by (simp add: Cons.prems(3) metas_at_append nth_append)
  have "data_block_bytes pool r (meta_at xxh (length (pre @ blocks_bytes xxh done)) b) = Inr (block_bytes xxh b)"
    by (rule data_block_at [where post = "blocks_bytes xxh bs @ post"])
      (use assms(1,2) Cons.prems(2) ok in simp_all)
  then have "block_entries xxh pool r (length done) = Inr b"
    using arg_cong [OF Cons.prems(3), of length]
    by (simp add: block_entries_def nth decode_block(1) [OF ok] block_bytes_def)
  moreover have "[length done ..< length (sr_index r)] = length done # [length (done @ [b]) ..< length (sr_index r)]"
    by (simp add: Cons.prems(3) upt_rec)
  moreover have "all_block_entries xxh pool r [length (done @ [b]) ..< length (sr_index r)] = Inr (concat bs)"
    by (rule Cons.IH) (use Cons.prems in simp_all)
  ultimately show ?case by simp
qed simp

lemma newest_find: "version_sorted es \<Longrightarrow> newest (set es) k ts (find (visible k ts) es)"
proof (induction es)
  case (Cons e es)
  then show ?case
    by (cases "find (visible k ts) es") (auto simp: newest_def ikey_def)
qed simp

lemma version_sorted_unique: "version_sorted es \<Longrightarrow> versions_unique (set es)"
  unfolding versions_unique_def
  by (induction es) (auto simp: image_iff less_le)

lemma sst_written_reads:
  assumes w: "sst_write xxh t es bs = Inr f" and bits: "bloom_bit_count (length es) < 2 ^ 32"
    and pool: "pool_serves f pool"
  obtains r where "sst_open xxh f = Inr r" "sst_entries xxh pool r = Inr es" "version_sorted es"
    "\<And>k ts. get_entry_at xxh pool r k ts = Inr (find (visible k ts) es)"
proof -
  obtain blocks where L: "concat blocks = es" "\<forall>b \<in> set blocks. block_ok b" "keys_apart blocks" "version_sorted es"
    "length (encode_index (metas_at xxh 8 blocks)) + 8 < 2 ^ 32" "length (encode_filter xxh es) + 8 < 2 ^ 32"
    and f: "f = SST_MAGIC @ u32_le SST_VERSION @ blocks_bytes xxh blocks @ checksummed xxh (encode_index (metas_at xxh 8 blocks)) @
       checksummed xxh (encode_filter xxh es) @
       sst_footer (8 + length (blocks_bytes xxh blocks)) (word_of_nat (length (encode_index (metas_at xxh 8 blocks)) + 8))
         (8 + length (blocks_bytes xxh blocks) + length (encode_index (metas_at xxh 8 blocks)) + 8)
         (word_of_nat (length (encode_filter xxh es) + 8)) (length es)"
    by (rule sst_write_layout [OF w])
  have len: "length f < 2 ^ 64" by (rule sst_write_length [OF w])
  define hd where "hd = SST_MAGIC @ u32_le SST_VERSION"
  define F where "F = hd @ blocks_bytes xxh blocks"
  have lh: "length hd = 8" and lF: "length F = 8 + length (blocks_bytes xxh blocks)" by (simp_all add: F_def hd_def SST_MAGIC_def)
  define idx where "idx = encode_index (metas_at xxh 8 blocks)"
  have fF: "f = F @ checksummed xxh idx @ checksummed xxh (encode_filter xxh es) @
      sst_footer (length F) (word_of_nat (length idx + 8)) (length F + length idx + 8) (word_of_nat (length (encode_filter xxh es) + 8)) (length es)"
    unfolding lF by (simp add: f F_def hd_def idx_def)
  define r where "r = \<lparr>sr_mmap = f, sr_index = metas_at xxh 8 blocks, sr_filter_offset = length F + length idx + 8,
      sr_filter_len = length (encode_filter xxh es) + 8, sr_entry_count = word_of_nat (length es)\<rparr>"
  have "decode_index idx (length F) = Inr (metas_at xxh 8 blocks)"
    unfolding idx_def lF by (rule decode_index_at) (use L len fF lF in auto)
  then have opened: "sst_open xxh f = Inr r"
    unfolding r_def using L(5,6) len lh by (intro sst_open_parts [OF fF]) (simp_all add: idx_def F_def hd_def)
  have mm: "sr_mmap r = hd @ blocks_bytes xxh blocks @ drop (length F) f" "pool_serves (sr_mmap r) pool" "length (sr_mmap r) < 2 ^ 64"
    using fF pool len by (simp_all add: r_def F_def)
  have ix: "sr_index r = metas_at xxh (length hd) blocks" by (simp add: r_def lh)
  have "all_block_entries xxh pool r [0 ..< length (sr_index r)] = Inr es"
    using all_block_entries_written [OF mm(2,3), of "[]" blocks hd xxh "drop (length F) f"] mm(1) L(1,2) ix by simp
  then have "sst_entries xxh pool r = Inr es" by (simp add: sst_entries_def) (simp add: r_def)
  moreover have "get_entry_at xxh pool r k ts = Inr (find (visible k ts) es)" for k ts
  proof -
    have "slice (sr_mmap r) (sr_filter_offset r) (sr_filter_len r) = checksummed xxh (encode_filter xxh es)"
      by (subst r_def, subst r_def, subst r_def, simp only: sst_reader.simps, subst fF) (simp add: slice_def)
    then obtain b where b: "may_contain xxh r k = Inr b" "k \<in> e_key ` set es \<Longrightarrow> b"
      using may_contain_written bits by blast
    have "find (visible k ts) es = None" if "\<not> b" using b(2) that by (auto simp: find_None_iff)
    then show ?thesis
      using get_loop_blocks [OF mm(2,3,1), of k ts] L b(1) ix by (simp add: get_entry_at_def)
  qed
  ultimately show thesis using that opened L(4) by blast
qed

text \<open>
  The reader as a versioned store: a reader opened on a written file keeps the promise of a
  snapshot read, whether its blocks come from the mapping or from the buffer pool.
\<close>

definition sst_wf :: "(bytes \<Rightarrow> u64) \<Rightarrow> page_source \<Rightarrow> sst_reader \<Rightarrow> bool" where
  "sst_wf xxh pool r \<longleftrightarrow>
     (\<exists>t es bs f. sst_write xxh t es bs = Inr f \<and> bloom_bit_count (length es) < 2 ^ 32 \<and>
        pool_serves f pool \<and> sst_open xxh f = Inr r)"

definition sst_versions :: "(bytes \<Rightarrow> u64) \<Rightarrow> page_source \<Rightarrow> sst_reader \<Rightarrow> entry set" where
  "sst_versions xxh pool r = (case sst_entries xxh pool r of Inl _ \<Rightarrow> {} | Inr es \<Rightarrow> set es)"

definition sst_lookup :: "(bytes \<Rightarrow> u64) \<Rightarrow> page_source \<Rightarrow> sst_reader \<Rightarrow> key \<Rightarrow> commit_ts \<Rightarrow> entry option" where
  "sst_lookup xxh pool r k ts = (case get_entry_at xxh pool r k ts of Inl _ \<Rightarrow> None | Inr v \<Rightarrow> v)"

lemma sst_wf_reads:
  assumes "sst_wf xxh pool r"
  obtains es where "sst_entries xxh pool r = Inr es" "version_sorted es"
    "\<And>k ts. get_entry_at xxh pool r k ts = Inr (find (visible k ts) es)"
proof -
  obtain t es bs f where w: "sst_write xxh t es bs = Inr f" "bloom_bit_count (length es) < 2 ^ 32"
      "pool_serves f pool" and r: "sst_open xxh f = Inr r"
    using assms unfolding sst_wf_def by blast
  show thesis by (rule sst_written_reads [OF w]) (use that r in auto)
qed

interpretation sst_read: versioned_read "sst_versions xxh pool" "sst_wf xxh pool" "sst_lookup xxh pool" for xxh pool
proof unfold_locales
  fix r k ts assume "sst_wf xxh pool r"
  then obtain es where es: "sst_entries xxh pool r = Inr es" "version_sorted es"
    "\<And>k ts. get_entry_at xxh pool r k ts = Inr (find (visible k ts) es)"
    by (rule sst_wf_reads) blast
  then show "versions_unique (sst_versions xxh pool r)" "newest (sst_versions xxh pool r) k ts (sst_lookup xxh pool r k ts)"
    by (simp_all add: sst_versions_def sst_lookup_def version_sorted_unique newest_find)
qed

lemma bloom_bits_width: "bloom_bit_count n < 2 ^ 32 \<longleftrightarrow> n < 429496729"
proof -
  have "(max (n * 10) 64 + 7) div 8 * 8 < 4294967296 \<longleftrightarrow> (max (n * 10) 64 + 7) div 8 < (536870912 :: nat)" by linarith
  then show ?thesis by (auto simp: bloom_bit_count_def BLOOM_BITS_PER_KEY_def div_less_iff_less_mult max_def)
qed

lemma length_encode_filter: "length (encode_filter xxh es) = 5 + bloom_bit_count (length es) div 8"
proof -
  have "length (foldl (\<lambda>bits e. foldl set_bit_at bits (g e)) bits es) = length bits" for g and bits :: bytes
    by (induction es arbitrary: bits) auto
  then show ?thesis by (simp add: encode_filter_def Let_def)
qed

text \<open>
  C30. A table that was written reads back, through the mapping or through the buffer pool: it
  opens, it lists exactly the entries written, and a lookup of any key at any timestamp gives
  the newest version at or below it (the bloom filter never hides a key, and the block walk
  never stops short). The bound on the number of entries is the largest for which the bit count
  of the filter fits its 32-bit field.
\<close>

theorem sst_roundtrip:
  assumes "sst_write xxh tmp_exists es block_size = Inr f" "length es < 429496729" "pool_serves f pool"
  shows "\<exists>r. sst_open xxh f = Inr r \<and> sst_entries xxh pool r = Inr es \<and>
    (\<forall>k ts. \<exists>v. get_entry_at xxh pool r k ts = Inr v \<and> newest (set es) k ts v)"
  by (rule sst_written_reads [OF assms(1) _ assms(3)])
    (use assms(2) bloom_bits_width [of "length es"] in \<open>auto intro: newest_find\<close>)

definition sst_sample :: "entry list" where
  "sst_sample = [entry_put [97] [1] 9, entry_delete [97] 4, entry_put [98] [2, 3] 7]"

lemma sst_sample_written:
  "\<exists>f. sst_write (\<lambda>_. 11) False sst_sample 8 = Inr f"
  by (simp add: sst_write_def sst_sample_def validate_entries_def entry_put_def entry_delete_def Let_def
      write_data_block_def encoded_entry_len_def encode_entry_def checked_u32_def encode_index_def encode_meta_def
      length_encode_filter bloom_bit_count_def BLOOM_BITS_PER_KEY_def CHECKSUM_LEN_def SST_MAGIC_def)

lemma pool_serves_pages: "0 < ps \<Longrightarrow> pool_serves f (Some (ps, \<lambda>i. Inr (take ps (drop (i * ps) f))))"
  by (auto simp: pool_serves_def min_def)

theorem sst_roundtrip_witness:
  "\<exists>f r. sst_write (\<lambda>_. 11) False sst_sample 8 = Inr f \<and> sst_open (\<lambda>_. 11) f = Inr r \<and>
     sst_entries (\<lambda>_. 11) (Some (16, \<lambda>i. Inr (take 16 (drop (i * 16) f)))) r = Inr sst_sample \<and>
     get_entry_at (\<lambda>_. 11) (Some (16, \<lambda>i. Inr (take 16 (drop (i * 16) f)))) r [97] 5 = Inr (Some (entry_delete [97] 4))"
proof -
  obtain f where f: "sst_write (\<lambda>_. 11) False sst_sample 8 = Inr f"
    using sst_sample_written by blast
  have u: "newest (set sst_sample) [97] 5 v \<Longrightarrow> v = Some (entry_delete [97] 4)" for v
    by (rule newest_unique [of "set sst_sample"])
      (auto simp: sst_sample_def newest_def versions_unique_def ikey_def entry_put_def entry_delete_def)
  have "length sst_sample < 429496729" by (simp add: sst_sample_def)
  then show ?thesis
    using sst_roundtrip [OF f _ pool_serves_pages [of 16]] u f by fastforce
qed



end
