(* ===== verification/Sst_Registry.thy ===== *)
theory Sst_Registry
  imports Sst_Read
begin

text \<open>
  The registry of open tables (\<open>SstRegistry\<close> of \<open>sst.rs\<close>): tables that accept readers, retired
  tables that wait for their last reader, and the read pins in flight. A handle is shared by
  reference count: the registry holds one reference and every live \<open>SstPin\<close> one more.
\<close>

type_synonym sst_id = u64
type_synonym path = string

record sst_handle =
  sh_id :: sst_id
  sh_path :: path
  sh_reader :: sst_reader

datatype delete_status = Deferred | Deleted | NotFound_sst

text \<open>
  \<open>rg_pins\<close> lists the live pins, clones included. \<open>rg_fs\<close> is the directory: what each path
  holds.
\<close>

record registry =
  rg_active :: "sst_id \<rightharpoonup> sst_handle"
  rg_retired :: "sst_id \<rightharpoonup> sst_handle"
  rg_pins :: "sst_handle list"
  rg_fs :: "path \<rightharpoonup> bytes"

definition registry_new :: "(path \<rightharpoonup> bytes) \<Rightarrow> registry" where
  "registry_new fs = \<lparr>rg_active = Map.empty, rg_retired = Map.empty, rg_pins = [], rg_fs = fs\<rparr>"

definition rg_register :: "(bytes \<Rightarrow> u64) \<Rightarrow> sst_id \<Rightarrow> path \<Rightarrow> registry \<Rightarrow> unit result \<times> registry" where
  "rg_register xxh i p s =
     (if rg_active s i \<noteq> None \<or> rg_retired s i \<noteq> None
      then (Inl (Integrity ''SST id is already registered''), s)
      else
        case rg_fs s p of
          None \<Rightarrow> (Inl (Io NotFound), s)
        | Some bs \<Rightarrow>
            (case sst_open xxh bs of
               Inl e \<Rightarrow> (Inl e, s)
             | Inr r \<Rightarrow> (Inr (), s\<lparr>rg_active := (rg_active s)(i \<mapsto> \<lparr>sh_id = i, sh_path = p, sh_reader = r\<rparr>)\<rparr>)))"

definition rg_pin :: "sst_id \<Rightarrow> registry \<Rightarrow> sst_handle option \<times> registry" where
  "rg_pin i s = (case rg_active s i of None \<Rightarrow> (None, s) | Some h \<Rightarrow> (Some h, s\<lparr>rg_pins := h # rg_pins s\<rparr>))"

text \<open>Dropping a pin and cloning one, the two other operations on the reference count.\<close>

definition pin_drop :: "sst_handle \<Rightarrow> registry \<Rightarrow> registry" where
  "pin_drop h s = s\<lparr>rg_pins := remove1 h (rg_pins s)\<rparr>"

definition pin_clone :: "sst_handle \<Rightarrow> registry \<Rightarrow> registry" where
  "pin_clone h s = s\<lparr>rg_pins := h # rg_pins s\<rparr>"

definition strong_count :: "registry \<Rightarrow> sst_handle \<Rightarrow> nat" where
  "strong_count s h = Suc (count_list (rg_pins s) h)"

text \<open>
  \<open>unlink_err\<close> is the outcome of \<open>remove_file\<close>: \<open>None\<close> when it succeeds or finds no file.
\<close>

definition rg_reap :: "io_error option \<Rightarrow> sst_id \<Rightarrow> registry \<Rightarrow> delete_status result \<times> registry" where
  "rg_reap unlink_err i s =
     (case rg_retired s i of
        None \<Rightarrow> (Inr NotFound_sst, s)
      | Some h \<Rightarrow>
          if strong_count s h \<noteq> 1 then (Inr Deferred, s)
          else
            let s = s\<lparr>rg_retired := (rg_retired s)(i := None)\<rparr> in
            case unlink_err of
              None \<Rightarrow> (Inr Deleted, s\<lparr>rg_fs := (rg_fs s)(sh_path h := None)\<rparr>)
            | Some e \<Rightarrow> (Inl (Io e), s))"

text \<open>\<open>retire\<close> is two critical sections: the move to the retired set, and then \<open>reap\<close>.\<close>

definition rg_retire_begin :: "sst_id \<Rightarrow> registry \<Rightarrow> delete_status option \<times> registry" where
  "rg_retire_begin i s =
     (case rg_active s i of
        Some h \<Rightarrow> (None, s\<lparr>rg_active := (rg_active s)(i := None), rg_retired := (rg_retired s)(i \<mapsto> h)\<rparr>)
      | None \<Rightarrow> if rg_retired s i = None then (Some NotFound_sst, s) else (None, s))"

definition rg_retire :: "io_error option \<Rightarrow> sst_id \<Rightarrow> registry \<Rightarrow> delete_status result \<times> registry" where
  "rg_retire unlink_err i s =
     (case rg_retire_begin i s of
        (Some st, s) \<Rightarrow> (Inr st, s)
      | (None, s) \<Rightarrow> rg_reap unlink_err i s)"

section \<open>Interleavings\<close>

text \<open>
  Threads interleave at the registry's critical sections. A caller registers and creates files
  at paths no registered table uses, as the table manager does by naming files after fresh ids.
\<close>

definition rg_handles :: "registry \<Rightarrow> sst_handle set" where
  "rg_handles s = ran (rg_active s) \<union> ran (rg_retired s)"

inductive reg_step :: "(bytes \<Rightarrow> u64) \<Rightarrow> registry \<Rightarrow> registry \<Rightarrow> bool" for xxh where
  create: "p \<notin> sh_path ` rg_handles s \<Longrightarrow> reg_step xxh s (s\<lparr>rg_fs := (rg_fs s)(p \<mapsto> bs)\<rparr>)"
| register: "p \<notin> sh_path ` rg_handles s \<Longrightarrow> reg_step xxh s (snd (rg_register xxh i p s))"
| pin: "reg_step xxh s (snd (rg_pin i s))"
| clone: "h \<in> set (rg_pins s) \<Longrightarrow> reg_step xxh s (pin_clone h s)"
| unpin: "reg_step xxh s (pin_drop h s)"
| retire: "reg_step xxh s (snd (rg_retire_begin i s))"
| reap: "reg_step xxh s (snd (rg_reap unlink_err i s))"

definition reg_inv :: "(bytes \<Rightarrow> u64) \<Rightarrow> registry \<Rightarrow> bool" where
  "reg_inv xxh s \<longleftrightarrow>
     set (rg_pins s) \<subseteq> rg_handles s \<and>
     (\<forall>i h. rg_active s i = Some h \<or> rg_retired s i = Some h \<longrightarrow> sh_id h = i) \<and>
     dom (rg_active s) \<inter> dom (rg_retired s) = {} \<and>
     inj_on sh_path (rg_handles s) \<and>
     (\<forall>h \<in> rg_handles s. \<exists>bs. rg_fs s (sh_path h) = Some bs \<and> sst_open xxh bs = Inr (sh_reader h))"

lemma reg_invD:
  assumes "reg_inv xxh s"
  shows "set (rg_pins s) \<subseteq> rg_handles s"
    "rg_active s i = Some h \<or> rg_retired s i = Some h \<Longrightarrow> i = sh_id h"
    "rg_active s i = Some h \<Longrightarrow> rg_retired s i = None" "rg_retired s i = Some h \<Longrightarrow> rg_active s i = None"
    "inj_on sh_path (rg_handles s)"
    "h \<in> rg_handles s \<Longrightarrow> \<exists>bs. rg_fs s (sh_path h) = Some bs \<and> sst_open xxh bs = Inr (sh_reader h)"
  using assms unfolding reg_inv_def by blast+

lemma reg_inv_new: "reg_inv xxh (registry_new fs)"
  by (simp add: reg_inv_def registry_new_def rg_handles_def)

lemma rg_handles_simps [simp]:
  "rg_handles (s\<lparr>rg_pins := ps\<rparr>) = rg_handles s" "rg_handles (s\<lparr>rg_fs := fs\<rparr>) = rg_handles s"
  by (simp_all add: rg_handles_def)

lemma ran_upd_None:
  assumes "m i = Some h" "\<And>j. m j = Some h \<Longrightarrow> j = i"
  shows "ran (m(i := None)) = ran m - {h}"
proof
  show "ran (m(i := None)) \<subseteq> ran m - {h}"
    using assms(2) by (auto simp: ran_def split: if_splits)
  show "ran m - {h} \<subseteq> ran (m(i := None))"
  proof
    fix g assume "g \<in> ran m - {h}"
    then obtain j where "m j = Some g" "g \<noteq> h" by (auto simp: ran_def)
    then have "(m(i := None)) j = Some g" using assms(1) by auto
    then show "g \<in> ran (m(i := None))" by (rule ranI)
  qed
qed

lemma reg_inv_register:
  assumes "reg_inv xxh s" "p \<notin> sh_path ` rg_handles s"
  shows "reg_inv xxh (snd (rg_register xxh i p s))"
proof (cases "rg_active s i = None \<and> rg_retired s i = None \<and> (\<exists>bs r. rg_fs s p = Some bs \<and> sst_open xxh bs = Inr r)")
  case True
  then obtain bs r where r: "rg_active s i = None" "rg_retired s i = None" "rg_fs s p = Some bs" "sst_open xxh bs = Inr r"
    by blast
  let ?h = "\<lparr>sh_id = i, sh_path = p, sh_reader = r\<rparr>"
  let ?s = "s\<lparr>rg_active := (rg_active s)(i \<mapsto> ?h)\<rparr>"
  have "rg_handles ?s = insert ?h (rg_handles s)" using r(1) by (auto simp: rg_handles_def)
  then have "reg_inv xxh ?s"
    using assms r by (auto simp: reg_inv_def inj_on_insert)
  then show ?thesis using r by (simp add: rg_register_def)
next
  case False
  then show ?thesis using assms(1) by (auto simp: rg_register_def split: option.splits sum.splits)
qed

lemma reg_inv_retire:
  assumes "reg_inv xxh s"
  shows "reg_inv xxh (snd (rg_retire_begin i s))"
proof (cases "rg_active s i")
  case (Some h)
  let ?s = "s\<lparr>rg_active := (rg_active s)(i := None), rg_retired := (rg_retired s)(i \<mapsto> h)\<rparr>"
  have un: "rg_retired s i = None" using reg_invD(3) [OF assms Some] .
  have "j = i" if "rg_active s j = Some h" for j using reg_invD(2) [OF assms, of _ h] that Some by metis
  note gone = ran_upd_None [of "rg_active s", OF Some this]
  have "rg_handles ?s = rg_handles s"
    using Some un by (auto simp: rg_handles_def gone intro: ranI)
  then have "reg_inv xxh ?s" using assms Some by (auto simp: reg_inv_def)
  then show ?thesis using Some by (simp add: rg_retire_begin_def)
qed (use assms in \<open>simp add: rg_retire_begin_def\<close>)

lemma reg_inv_reap:
  assumes "reg_inv xxh s"
  shows "reg_inv xxh (snd (rg_reap unlink_err i s))"
proof (cases "\<exists>h. rg_retired s i = Some h \<and> strong_count s h = 1")
  case True
  then obtain h where h: "rg_retired s i = Some h" "h \<notin> set (rg_pins s)"
    by (auto simp: strong_count_def count_list_0_iff)
  let ?s = "s\<lparr>rg_retired := (rg_retired s)(i := None)\<rparr>"
  have only: "j = i" if "rg_active s j = Some h \<or> rg_retired s j = Some h" for j
    using reg_invD(2) [OF assms, of _ h] that h(1) by metis
  have gone: "ran ((rg_retired s)(i := None)) = ran (rg_retired s) - {h}"
    by (rule ran_upd_None [of "rg_retired s", OF h(1)]) (use only in blast)
  have "rg_active s j \<noteq> Some h" for j using only [of j] reg_invD(4) [OF assms h(1)] by auto
  then have "h \<notin> ran (rg_active s)" by (auto simp: ran_def)
  then have hs: "rg_handles ?s = rg_handles s - {h}" by (auto simp: rg_handles_def gone)
  have inh: "h \<in> rg_handles s" using h(1) by (auto simp: rg_handles_def ran_def)
  have I: "reg_inv xxh ?s"
    using assms hs h(2) by (auto simp: reg_inv_def inj_on_diff split: if_splits)
  moreover have "sh_path g \<noteq> sh_path h" if "g \<in> rg_handles ?s" for g
    using assms that inh unfolding hs reg_inv_def inj_on_def by blast
  ultimately have "reg_inv xxh (?s\<lparr>rg_fs := (rg_fs ?s)(sh_path h := None)\<rparr>)"
    by (auto simp: reg_inv_def)
  then show ?thesis using I True h(1) by (auto simp: rg_reap_def Let_def split: option.splits)
next
  case False
  then show ?thesis using assms by (auto simp: rg_reap_def split: option.splits)
qed

lemma reg_inv_step:
  assumes "reg_step xxh s s'" "reg_inv xxh s"
  shows "reg_inv xxh s'"
  using assms
proof cases
  case (create p bs)
  then show ?thesis using assms(2) by (fastforce simp: reg_inv_def image_iff)
next
  case (pin i)
  then show ?thesis using assms(2)
    by (auto simp: rg_pin_def reg_inv_def rg_handles_def intro: ranI split: option.splits)
next
  case (unpin h)
  then show ?thesis using assms(2) set_remove1_subset [of h "rg_pins s"] by (auto simp: pin_drop_def reg_inv_def)
next
  case (clone h)
  then show ?thesis using assms(2) by (auto simp: pin_clone_def reg_inv_def)
qed (use assms(2) reg_inv_register reg_inv_retire reg_inv_reap in auto)

lemma reg_inv_reachable: "(reg_step xxh)\<^sup>*\<^sup>* (registry_new fs) s \<Longrightarrow> reg_inv xxh s"
  by (induction rule: rtranclp_induct) (auto intro: reg_inv_new reg_inv_step)

lemma retire_registered:
  assumes "reg_inv xxh s" "h \<in> rg_handles s"
  shows "rg_retire e (sh_id h) s = rg_reap e (sh_id h) (snd (rg_retire_begin (sh_id h) s))"
    "rg_retired (snd (rg_retire_begin (sh_id h) s)) (sh_id h) = Some h"
    "rg_active (snd (rg_retire_begin (sh_id h) s)) (sh_id h) = None"
    "rg_pins (snd (rg_retire_begin (sh_id h) s)) = rg_pins s"
proof -
  obtain j where j: "rg_active s j = Some h \<or> rg_retired s j = Some h"
    using assms(2) by (auto simp: rg_handles_def ran_def)
  have ji: "sh_id h = j" using reg_invD(2) [OF assms(1) j] by simp
  consider "rg_active s j = Some h" | "rg_active s j = None" "rg_retired s j = Some h"
    using j reg_invD(4) [OF assms(1)] by auto
  then show "rg_retire e (sh_id h) s = rg_reap e (sh_id h) (snd (rg_retire_begin (sh_id h) s))"
    "rg_retired (snd (rg_retire_begin (sh_id h) s)) (sh_id h) = Some h"
    "rg_active (snd (rg_retire_begin (sh_id h) s)) (sh_id h) = None"
    "rg_pins (snd (rg_retire_begin (sh_id h) s)) = rg_pins s"
    unfolding ji by (cases; simp add: rg_retire_def rg_retire_begin_def)+
qed



end
