(* ===== verification/Kway_Merge.thy ===== *)
theory Kway_Merge
  imports Sst_Read "HOL-Library.Multiset"
begin

text \<open>
  Merging sorted runs (\<open>compaction.rs\<close>): splitting a run by size, the entry sources and the k-way
  merge iterator that drops versions no snapshot can see. The iterator is written against the
  interface \<open>EntrySource\<close>; a source is a state and a function \<open>nxt\<close> that pulls its next entry.
  A loop that could run for ever is a partial function, whose value \<open>None\<close> is not returning.
\<close>

section \<open>Splitting a run\<close>

definition estimate_entry_bytes :: "entry \<Rightarrow> u64" where
  "estimate_entry_bytes e =
     48 + word_of_nat (length (e_key e)) + (case e_value e of None \<Rightarrow> 0 | Some v \<Rightarrow> word_of_nat (length v))"

text \<open>The loop over the entries: \<open>cur\<close> is the slice from \<open>start\<close> to the current index.\<close>

fun split_loop :: "u64 \<Rightarrow> entry list \<Rightarrow> entry list \<Rightarrow> u64 \<Rightarrow> entry list list" where
  "split_loop budget [] cur acc = [cur]"
| "split_loop budget (e # es) cur acc =
     (let sz = estimate_entry_bytes e; would = sat_add acc sz;
          same_user = cur \<noteq> [] \<and> e_key e = e_key (last cur)
      in if cur \<noteq> [] \<and> \<not> same_user \<and> budget < would then cur # split_loop budget es [e] sz
         else split_loop budget es (cur @ [e]) would)"

definition split_budget :: "u64 \<Rightarrow> u64" where
  "split_budget max_bytes = max (max (sat_sub max_bytes 4096) (max_bytes div 2)) 1"

definition split_entries_by_max_bytes :: "entry list \<Rightarrow> u64 \<Rightarrow> entry list list" where
  "split_entries_by_max_bytes es max_bytes =
     (if es = [] then [] else if max_bytes = 0 then [es] else split_loop (split_budget max_bytes) es [] 0)"

section \<open>The merge iterator\<close>

record heap_item =
  hi_entry :: entry
  hi_source :: nat

text \<open>\<open>Ord for HeapItem\<close>: smaller keys rank higher, then newer versions, then later sources.\<close>

definition hi_le :: "heap_item \<Rightarrow> heap_item \<Rightarrow> bool" where
  "hi_le a b \<longleftrightarrow>
     (let ka = e_key (hi_entry a); kb = e_key (hi_entry b); sa = e_seq (hi_entry a); sb = e_seq (hi_entry b)
      in kb < ka \<or> ka = kb \<and> (sa < sb \<or> sa = sb \<and> hi_source a \<le> hi_source b))"

text \<open>The binary heap as the bag of its items; \<open>peek\<close> gives an item of highest rank.\<close>

fun heap_peek :: "heap_item list \<Rightarrow> heap_item option" where
  "heap_peek [] = None"
| "heap_peek (x # xs) = (case heap_peek xs of None \<Rightarrow> Some x | Some y \<Rightarrow> Some (if hi_le y x then x else y))"

type_synonym 's source = "'s \<Rightarrow> (entry option \<times> 's) result"

record 's kway =
  kw_sources :: "'s list"
  kw_heap :: "heap_item list"
  kw_watermark :: u64
  kw_pending :: "entry list"

definition push_current :: "'s source \<Rightarrow> nat \<Rightarrow> 's kway \<Rightarrow> 's kway result" where
  "push_current nxt i it =
     rbind (nxt (kw_sources it ! i)) (\<lambda>(e, s).
       let it = it\<lparr>kw_sources := (kw_sources it)[i := s]\<rparr>
       in Inr (case e of None \<Rightarrow> it | Some e \<Rightarrow> it\<lparr>kw_heap := \<lparr>hi_entry = e, hi_source = i\<rparr> # kw_heap it\<rparr>))"

primrec push_all :: "'s source \<Rightarrow> nat list \<Rightarrow> 's kway \<Rightarrow> 's kway result" where
  "push_all nxt [] it = Inr it"
| "push_all nxt (i # is) it = rbind (push_current nxt i it) (push_all nxt is)"

definition kway_new :: "'s source \<Rightarrow> 's list \<Rightarrow> u64 \<Rightarrow> 's kway result" where
  "kway_new nxt sources watermark =
     push_all nxt [0 ..< length sources]
       \<lparr>kw_sources = sources, kw_heap = [], kw_watermark = watermark, kw_pending = []\<rparr>"

text \<open>The versions of the current key, pulled while the top of the heap has that key.\<close>

partial_function (option) kway_versions ::
  "'s source \<Rightarrow> key \<Rightarrow> 's kway \<Rightarrow> entry list \<Rightarrow> (entry list \<times> 's kway) result option"
where
  "kway_versions nxt k it versions =
     (case heap_peek (kw_heap it) of
        None \<Rightarrow> Some (Inr (versions, it))
      | Some item \<Rightarrow>
          if e_key (hi_entry item) = k
          then (case push_current nxt (hi_source item) (it\<lparr>kw_heap := remove1 item (kw_heap it)\<rparr>) of
                  Inl e \<Rightarrow> Some (Inl e)
                | Inr it \<Rightarrow> kway_versions nxt k it (versions @ [hi_entry item]))
          else Some (Inr (versions, it)))"

text \<open>\<open>sort_by_key(Reverse(seq))\<close>, stable, and \<open>dedup_by\<close> on equal timestamps.\<close>

definition sort_newest :: "entry list \<Rightarrow> entry list" where
  "sort_newest vs = rev (sort_key e_seq (rev vs))"

fun dedup_seq :: "entry list \<Rightarrow> entry list" where
  "dedup_seq (a # b # vs) = (if e_seq b = e_seq a then dedup_seq (a # vs) else a # dedup_seq (b # vs))"
| "dedup_seq vs = vs"

fun kept_versions :: "u64 \<Rightarrow> bool \<Rightarrow> entry list \<Rightarrow> entry list" where
  "kept_versions watermark kept_below [] = []"
| "kept_versions watermark kept_below (v # vs) =
     (if watermark \<le> e_seq v then v # kept_versions watermark kept_below vs
      else if \<not> kept_below then v # kept_versions watermark True vs
      else kept_versions watermark kept_below vs)"

text \<open>\<open>Vec::pop\<close> takes the last element.\<close>

definition pop_pending :: "'s kway \<Rightarrow> entry option \<times> 's kway" where
  "pop_pending it =
     (if kw_pending it = [] then (None, it)
      else (Some (last (kw_pending it)), it\<lparr>kw_pending := butlast (kw_pending it)\<rparr>))"

definition kway_next :: "'s source \<Rightarrow> 's kway \<Rightarrow> (entry option \<times> 's kway) result option" where
  "kway_next nxt it =
     (if kw_pending it \<noteq> [] then Some (Inr (pop_pending it))
      else
        case heap_peek (kw_heap it) of
          None \<Rightarrow> Some (Inr (None, it))
        | Some item \<Rightarrow>
            (case push_current nxt (hi_source item) (it\<lparr>kw_heap := remove1 item (kw_heap it)\<rparr>) of
               Inl e \<Rightarrow> Some (Inl e)
             | Inr it \<Rightarrow>
                 map_option
                   (\<lambda>r. rbind r (\<lambda>(versions, it).
                      let kept = kept_versions (kw_watermark it) False (dedup_seq (sort_newest versions))
                      in Inr (pop_pending (it\<lparr>kw_pending := rev (sort_newest kept)\<rparr>))))
                   (kway_versions nxt (e_key (hi_entry item)) it [hi_entry item])))"

text \<open>The loop of the callers: pull until the iterator is empty.\<close>

partial_function (option) kway_drain :: "'s source \<Rightarrow> 's kway \<Rightarrow> entry list \<Rightarrow> entry list result option" where
  "kway_drain nxt it merged =
     Option.bind (kway_next nxt it) (\<lambda>r.
       case r of
         Inl e \<Rightarrow> Some (Inl e)
       | Inr (None, it) \<Rightarrow> Some (Inr merged)
       | Inr (Some e, it) \<Rightarrow> kway_drain nxt it (merged @ [e]))"

definition kway_merge :: "'s source \<Rightarrow> 's list \<Rightarrow> u64 \<Rightarrow> entry list result option" where
  "kway_merge nxt sources watermark =
     (case kway_new nxt sources watermark of Inl e \<Rightarrow> Some (Inl e) | Inr it \<Rightarrow> kway_drain nxt it [])"

section \<open>Sources\<close>

text \<open>\<open>VecSource\<close>: the rest of a vector.\<close>

fun vec_next :: "entry list source" where
  "vec_next [] = Inr (None, [])"
| "vec_next (e # es) = Inr (Some e, es)"

text \<open>\<open>SstCursor\<close>: a pinned table read block by block.\<close>

record sst_cursor =
  cu_reader :: sst_reader
  cu_next_block :: nat
  cu_entries :: "entry list"

definition cursor_new :: "sst_reader \<Rightarrow> sst_cursor" where
  "cursor_new r = \<lparr>cu_reader = r, cu_next_block = 0, cu_entries = []\<rparr>"

text \<open>\<open>pools\<close> gives the page source attached to a reader.\<close>

function cursor_next :: "(bytes \<Rightarrow> u64) \<Rightarrow> (sst_reader \<Rightarrow> page_source) \<Rightarrow> sst_cursor source" where
  "cursor_next xxh pools c =
     (case cu_entries c of
        e # es \<Rightarrow> Inr (Some e, c\<lparr>cu_entries := es\<rparr>)
      | [] \<Rightarrow>
          if length (sr_index (cu_reader c)) \<le> cu_next_block c then Inr (None, c)
          else
            case block_entries xxh (pools (cu_reader c)) (cu_reader c) (cu_next_block c) of
              Inl e \<Rightarrow> Inl e
            | Inr block \<Rightarrow> cursor_next xxh pools (c\<lparr>cu_next_block := Suc (cu_next_block c), cu_entries := block\<rparr>))"
  by pat_completeness auto
termination
  by (relation "measure (\<lambda>(_, _, c). 2 * (length (sr_index (cu_reader c)) - cu_next_block c))") auto

declare cursor_next.simps [simp del]

end
