(* ===== verification/Kway_Proofs.thy ===== *)
theory Kway_Proofs
  imports Kway_Merge
begin

text \<open>
  The k-way merge ends, sorts its sources and keeps exactly what snapshots at or above the
  watermark can see. The proofs are made once for any entry source that obeys its contract and
  hold for vectors and for pinned tables.
\<close>

section \<open>The heap\<close>

lemma hi_le_refl: "hi_le a a"
  by (simp add: hi_le_def)

lemma hi_le_total: "hi_le a b \<or> hi_le b a"
  by (auto simp: hi_le_def Let_def)

lemma hi_le_trans: "hi_le a b \<Longrightarrow> hi_le b c \<Longrightarrow> hi_le a c"
  unfolding hi_le_def Let_def by auto

lemma heap_peek_None [simp]: "heap_peek xs = None \<longleftrightarrow> xs = []"
  by (cases xs) (auto split: option.splits)

lemma heap_peek_Some:
  "heap_peek xs = Some x \<Longrightarrow> x \<in> set xs \<and> (\<forall>y \<in> set xs. hi_le y x)"
proof (induction xs arbitrary: x)
  case (Cons a xs)
  show ?case
  proof (cases "heap_peek xs")
    case None
    then show ?thesis using Cons.prems by (auto simp: hi_le_refl)
  next
    case (Some y)
    then show ?thesis
      using Cons.prems Cons.IH [OF Some] hi_le_total [of a y] hi_le_trans [of _ y a]
      by (auto simp: hi_le_refl split: if_splits)
  qed
qed simp

section \<open>Groups of versions\<close>

lemma set_sort_newest [simp]: "set (sort_newest vs) = set vs"
  by (simp add: sort_newest_def)

lemma sorted_sort_newest: "sorted_wrt (\<lambda>a b. e_seq b \<le> e_seq a) (sort_newest vs)"
  unfolding sort_newest_def sorted_wrt_rev using sorted_sort_key [of e_seq "rev vs"] by (simp add: sorted_map)

lemma sort_newest_sorted:
  assumes "sorted_wrt (\<lambda>a b. e_seq b < e_seq a) vs"
  shows "sort_newest vs = vs"
proof -
  have "sorted (map e_seq (rev vs))"
    using assms by (auto simp: sorted_map sorted_wrt_rev intro: sorted_wrt_mono_rel [rotated])
  then show ?thesis by (simp add: sort_newest_def sort_key_id_if_sorted)
qed

lemma dedup_seq_spec:
  "sorted_wrt (\<lambda>a b. e_seq b \<le> e_seq a) vs \<Longrightarrow>
   sorted_wrt (\<lambda>a b. e_seq b < e_seq a) (dedup_seq vs) \<and> set (dedup_seq vs) \<subseteq> set vs \<and>
   e_seq ` set (dedup_seq vs) = e_seq ` set vs \<and> (vs \<noteq> [] \<longrightarrow> hd (dedup_seq vs) = hd vs \<and> dedup_seq vs \<noteq> [])"
proof (induction vs rule: dedup_seq.induct)
  case (1 a b vs)
  show ?case
  proof (cases "e_seq b = e_seq a")
    case True
    then have "sorted_wrt (\<lambda>a b. e_seq b \<le> e_seq a) (a # vs)" using 1(3) by simp
    then show ?thesis using 1(1) True by auto
  next
    case False
    then have lt: "e_seq b < e_seq a" using 1(3) by (simp add: less_le)
    have IH: "sorted_wrt (\<lambda>a b. e_seq b < e_seq a) (dedup_seq (b # vs))" "set (dedup_seq (b # vs)) \<subseteq> set (b # vs)"
      "e_seq ` set (dedup_seq (b # vs)) = e_seq ` set (b # vs)"
      using 1(2) False 1(3) by simp_all
    have "e_seq c < e_seq a" if "c \<in> set (b # vs)" for c using 1(3) that lt by force
    then show ?thesis using IH False by auto
  qed
qed auto

lemma dedup_seq_set:
  assumes "sorted_wrt (\<lambda>a b. e_seq b \<le> e_seq a) vs" "versions_unique (set vs)" "\<forall>v \<in> set vs. e_key v = k"
  shows "set (dedup_seq vs) = set vs"
proof
  show "set vs \<subseteq> set (dedup_seq vs)"
  proof
    fix v assume v: "v \<in> set vs"
    then obtain w where "w \<in> set (dedup_seq vs)" "e_seq w = e_seq v"
      using dedup_seq_spec [OF assms(1)] by (metis (mono_tags, lifting) imageE imageI)
    moreover from this have "w \<in> set vs" using dedup_seq_spec [OF assms(1)] by blast
    ultimately show "v \<in> set (dedup_seq vs)"
      using versions_uniqueD [OF assms(2) v, of w] v assms(3) by auto
  qed
qed (use dedup_seq_spec [OF assms(1)] in blast)

lemma kept_versions_subset: "set (kept_versions wm b vs) \<subseteq> set vs"
  by (induction vs arbitrary: b) auto

lemma kept_versions_sorted: "sorted_wrt P vs \<Longrightarrow> sorted_wrt P (kept_versions wm b vs)"
  using kept_versions_subset by (induction vs arbitrary: b) fastforce+

lemma kept_versions_above: "v \<in> set vs \<Longrightarrow> wm \<le> e_seq v \<Longrightarrow> v \<in> set (kept_versions wm b vs)"
  by (induction vs arbitrary: b) auto

lemma kept_versions_floor:
  "sorted_wrt (\<lambda>a b. e_seq b < e_seq a) vs \<Longrightarrow> v \<in> set vs \<Longrightarrow> e_seq v < wm \<Longrightarrow>
   (\<forall>w \<in> set vs. e_seq w < wm \<longrightarrow> e_seq w \<le> e_seq v) \<Longrightarrow> v \<in> set (kept_versions wm False vs)"
  by (induction vs) (auto simp: not_le)

lemma kept_versions_Nil: "kept_versions wm False vs = [] \<longleftrightarrow> vs = []"
  by (cases vs) auto

text \<open>What the iterator emits for one key.\<close>

definition kept_group :: "u64 \<Rightarrow> entry list \<Rightarrow> entry list" where
  "kept_group wm vs = kept_versions wm False (dedup_seq (sort_newest vs))"

lemma kept_group_spec:
  assumes "versions_unique (set vs)" "\<forall>v \<in> set vs. e_key v = k"
  shows "sorted_wrt (\<lambda>a b. e_seq b < e_seq a) (kept_group wm vs)" "gc_keeps (set vs) wm (set (kept_group wm vs))"
    "sort_newest (kept_group wm vs) = kept_group wm vs"
proof -
  note D = dedup_seq_spec [OF sorted_sort_newest [of vs]]
  have eq: "set (dedup_seq (sort_newest vs)) = set vs"
    using dedup_seq_set [OF sorted_sort_newest, of vs k] assms by simp
  show s: "sorted_wrt (\<lambda>a b. e_seq b < e_seq a) (kept_group wm vs)"
    unfolding kept_group_def by (rule kept_versions_sorted) (use D in blast)
  show "gc_keeps (set vs) wm (set (kept_group wm vs))"
    unfolding gc_keeps_def kept_group_def
  proof (intro conjI ballI impI)
    show "set (kept_versions wm False (dedup_seq (sort_newest vs))) \<subseteq> set vs" using kept_versions_subset eq by metis
    fix e assume e: "e \<in> set vs"
    show "e \<in> set (kept_versions wm False (dedup_seq (sort_newest vs)))" if "wm \<le> e_seq e"
      using e that eq kept_versions_above by metis
    assume "e_seq e < wm" "\<forall>e' \<in> set vs. e_key e' = e_key e \<longrightarrow> e_seq e' < wm \<longrightarrow> e_seq e' \<le> e_seq e"
    then show "e \<in> set (kept_versions wm False (dedup_seq (sort_newest vs)))"
      using D e eq assms(2) by (intro kept_versions_floor) auto
  qed
  show "sort_newest (kept_group wm vs) = kept_group wm vs" by (rule sort_newest_sorted [OF s])
qed

lemma kept_group_Nil: "vs \<noteq> [] \<Longrightarrow> kept_group wm vs \<noteq> []"
proof -
  assume "vs \<noteq> []"
  then have "sort_newest vs \<noteq> []" by (metis set_empty set_sort_newest)
  then show ?thesis using dedup_seq_spec [OF sorted_sort_newest [of vs]] by (simp add: kept_group_def kept_versions_Nil)
qed

lemma gc_keeps_by_key:
  assumes "gc_keeps {e \<in> V. e_key e = k} wm A" "gc_keeps {e \<in> V. e_key e \<noteq> k} wm B"
  shows "gc_keeps V wm (A \<union> B)"
  unfolding gc_keeps_def
proof (intro conjI ballI impI)
  show "A \<union> B \<subseteq> V" using assms by (auto simp: gc_keeps_def)
  fix e assume e: "e \<in> V"
  show "e \<in> A \<union> B" if "wm \<le> e_seq e" using assms e that by (auto simp: gc_keeps_def)
  assume f: "e_seq e < wm" "\<forall>e' \<in> V. e_key e' = e_key e \<longrightarrow> e_seq e' < wm \<longrightarrow> e_seq e' \<le> e_seq e"
  show "e \<in> A \<union> B"
    using assms e f by (cases "e_key e = k") (auto simp: gc_keeps_def)
qed

section \<open>The iterator over sources that keep their contract\<close>

text \<open>A source stands for a run: it yields the entries of the run one by one and then nothing.\<close>

locale entry_source =
  fixes nxt :: "'s source"
    and run :: "'s \<Rightarrow> entry list"
    and ok :: "'s \<Rightarrow> bool"
  assumes next_run: "ok s \<Longrightarrow>
    \<exists>s'. nxt s = Inr (case run s of [] \<Rightarrow> None | e # _ \<Rightarrow> Some e, s') \<and> ok s' \<and> run s' = tl (run s)"

text \<open>What source \<open>i\<close> has left: its entry on the heap and then the rest of its run.\<close>

definition kw_stream :: "('s \<Rightarrow> entry list) \<Rightarrow> 's kway \<Rightarrow> nat \<Rightarrow> entry list" where
  "kw_stream run it i = map hi_entry (filter (\<lambda>h. hi_source h = i) (kw_heap it)) @ run (kw_sources it ! i)"

definition kw_all :: "('s \<Rightarrow> entry list) \<Rightarrow> 's kway \<Rightarrow> entry set" where
  "kw_all run it = (\<Union>i < length (kw_sources it). set (kw_stream run it i))"

definition kw_total :: "('s \<Rightarrow> entry list) \<Rightarrow> 's kway \<Rightarrow> nat" where
  "kw_total run it = (\<Sum>i < length (kw_sources it). length (kw_stream run it i))"

text \<open>Every source but those in \<open>miss\<close> that is not exhausted has exactly its next entry on the heap.\<close>

definition kw_ok :: "('s \<Rightarrow> entry list) \<Rightarrow> ('s \<Rightarrow> bool) \<Rightarrow> nat set \<Rightarrow> 's kway \<Rightarrow> bool" where
  "kw_ok run ok miss it \<longleftrightarrow>
     (\<forall>s \<in> set (kw_sources it). ok s) \<and>
     distinct (map hi_source (kw_heap it)) \<and>
     hi_source ` set (kw_heap it) \<subseteq> {..< length (kw_sources it)} - miss \<and>
     (\<forall>i < length (kw_sources it). i \<notin> miss \<longrightarrow> i \<notin> hi_source ` set (kw_heap it) \<longrightarrow> run (kw_sources it ! i) = []) \<and>
     (\<forall>i < length (kw_sources it). version_sorted (kw_stream run it i))"

lemma filter_source_distinct:
  "distinct (map hi_source hs) \<Longrightarrow> h \<in> set hs \<Longrightarrow> filter (\<lambda>g. hi_source g = hi_source h) hs = [h]"
  by (induction hs) (auto simp: filter_empty_conv image_iff)

lemma filter_source_none: "i \<notin> hi_source ` set hs \<Longrightarrow> filter (\<lambda>g. hi_source g = i) hs = []"
  by (auto simp: filter_empty_conv)

lemma filter_remove1_source:
  "distinct (map hi_source hs) \<Longrightarrow> h \<in> set hs \<Longrightarrow>
   filter (\<lambda>g. hi_source g = i) (remove1 h hs) = (if i = hi_source h then [] else filter (\<lambda>g. hi_source g = i) hs)"
  by (induction hs) (auto simp: filter_empty_conv image_iff)

lemma source_remove1:
  "distinct (map hi_source hs) \<Longrightarrow> h \<in> set hs \<Longrightarrow>
   distinct (map hi_source (remove1 h hs)) \<and> hi_source ` set (remove1 h hs) = hi_source ` set hs - {hi_source h}"
proof (induction hs)
  case (Cons a hs)
  then show ?case by (cases "a = h") (auto simp: image_iff dest: notin_set_remove1)
qed simp

context entry_source
begin

abbreviation stream :: "'s kway \<Rightarrow> nat \<Rightarrow> entry list" where
  "stream \<equiv> kw_stream run"

lemma push_current_ok:
  assumes "kw_ok run ok (insert i miss) it" "i < length (kw_sources it)" "i \<notin> miss"
  shows "\<exists>it'. push_current nxt i it = Inr it' \<and> kw_ok run ok miss it' \<and>
    (\<forall>j < length (kw_sources it). stream it' j = stream it j) \<and>
    length (kw_sources it') = length (kw_sources it) \<and> kw_watermark it' = kw_watermark it \<and> kw_pending it' = kw_pending it"
proof -
  let ?s = "kw_sources it ! i"
  have ok: "ok ?s" using assms(1,2) by (simp add: kw_ok_def)
  obtain s' where s': "nxt ?s = Inr (case run ?s of [] \<Rightarrow> None | e # _ \<Rightarrow> Some e, s')" "ok s'" "run s' = tl (run ?s)"
    using next_run [OF ok] by blast
  let ?src = "(kw_sources it)[i := s']"
  let ?it = "(case run ?s of [] \<Rightarrow> it\<lparr>kw_sources := ?src\<rparr>
     | e # _ \<Rightarrow> it\<lparr>kw_sources := ?src, kw_heap := \<lparr>hi_entry = e, hi_source = i\<rparr> # kw_heap it\<rparr>)"
  have push: "push_current nxt i it = Inr ?it"
    using s'(1) by (auto simp: push_current_def split: list.splits)
  have ni: "i \<notin> hi_source ` set (kw_heap it)" using assms(1) by (auto simp: kw_ok_def)
  have len: "length (kw_sources ?it) = length (kw_sources it)" by (auto split: list.splits)
  have str: "stream ?it j = stream it j" if "j < length (kw_sources it)" for j
    using that ni s'(3) assms(2) filter_source_none [OF ni]
    by (cases "run ?s") (auto simp: kw_stream_def nth_list_update)
  have "set ?src \<subseteq> insert s' (set (kw_sources it))" by (rule set_update_subset_insert)
  then have oks: "\<forall>s \<in> set (kw_sources ?it). ok s"
    using assms(1) s'(2) by (auto simp: kw_ok_def split: list.splits)
  have "kw_ok run ok miss ?it"
    unfolding kw_ok_def len
  proof (intro conjI allI impI)
    show "\<forall>s \<in> set (kw_sources ?it). ok s" by (rule oks)
    show "distinct (map hi_source (kw_heap ?it))"
      using assms(1) ni by (auto simp: kw_ok_def split: list.splits)
    show "hi_source ` set (kw_heap ?it) \<subseteq> {..< length (kw_sources it)} - miss"
      using assms by (auto simp: kw_ok_def split: list.splits)
    fix j assume j: "j < length (kw_sources it)"
    show "version_sorted (stream ?it j)" using str [OF j] assms(1) j by (simp add: kw_ok_def)
    assume "j \<notin> miss" "j \<notin> hi_source ` set (kw_heap ?it)"
    then show "run (kw_sources ?it ! j) = []"
      using assms(1,2) j s'(3) by (cases "run ?s") (auto simp: kw_ok_def nth_list_update)
  qed
  then show ?thesis using push str len by (intro exI [of _ ?it]) (auto split: list.splits)
qed

lemma heap_pop_ok:
  assumes "kw_ok run ok {} it" "heap_peek (kw_heap it) = Some item"
  defines "popped \<equiv> it\<lparr>kw_heap := remove1 item (kw_heap it)\<rparr>"
  shows "kw_ok run ok {hi_source item} popped" "hi_source item < length (kw_sources it)"
    "stream it (hi_source item) = hi_entry item # run (kw_sources it ! hi_source item)"
    "stream popped j = (if j = hi_source item then tl (stream it j) else stream it j)"
    "i < length (kw_sources it) \<Longrightarrow> x \<in> set (stream it i) \<Longrightarrow> e_key (hi_entry item) \<le> e_key x"
proof -
  have inh: "item \<in> set (kw_heap it)" and top: "\<And>h. h \<in> set (kw_heap it) \<Longrightarrow> hi_le h item"
    using heap_peek_Some [OF assms(2)] by auto
  have dist: "distinct (map hi_source (kw_heap it))" using assms(1) by (simp add: kw_ok_def)
  show lt: "hi_source item < length (kw_sources it)" using assms(1) inh by (auto simp: kw_ok_def)
  show st: "stream it (hi_source item) = hi_entry item # run (kw_sources it ! hi_source item)"
    by (simp add: kw_stream_def filter_source_distinct [OF dist inh])
  show pop: "stream popped j = (if j = hi_source item then tl (stream it j) else stream it j)" for j
    using st by (simp add: kw_stream_def popped_def filter_remove1_source [OF dist inh])
  have srt: "version_sorted (stream popped j)" if "j < length (kw_sources it)" for j
    using assms(1) that unfolding pop by (cases "stream it j") (auto simp: kw_ok_def)
  show "kw_ok run ok {hi_source item} popped"
    unfolding kw_ok_def
  proof (intro conjI)
    show "\<forall>i < length (kw_sources popped). version_sorted (stream popped i)" using srt by (simp add: popped_def)
  qed (use assms(1) source_remove1 [OF dist inh] in \<open>auto simp: kw_ok_def popped_def\<close>)
  show "e_key (hi_entry item) \<le> e_key x" if i: "i < length (kw_sources it)" and x: "x \<in> set (stream it i)" for i x
  proof -
    have "i \<in> hi_source ` set (kw_heap it)"
      using assms(1) i x by (auto simp: kw_ok_def kw_stream_def filter_source_none)
    then obtain h where h: "h \<in> set (kw_heap it)" "hi_source h = i" by auto
    have "stream it i = hi_entry h # run (kw_sources it ! i)"
      unfolding h(2) [symmetric] by (simp add: kw_stream_def filter_source_distinct [OF dist h(1)])
    then have "x = hi_entry h \<or> ikey (hi_entry h) < ikey x"
      using assms(1) i x by (auto simp: kw_ok_def)
    then have "e_key (hi_entry h) \<le> e_key x" by (auto simp: ikey_def)
    moreover have "e_key (hi_entry item) \<le> e_key (hi_entry h)" using top [OF h(1)] by (auto simp: hi_le_def Let_def)
    ultimately show ?thesis by (rule order.trans [rotated])
  qed
qed

lemma kway_pop:
  assumes "kw_ok run ok {} it" "heap_peek (kw_heap it) = Some item"
  obtains it' where "push_current nxt (hi_source item) (it\<lparr>kw_heap := remove1 item (kw_heap it)\<rparr>) = Inr it'"
    "kw_ok run ok {} it'" "length (kw_sources it') = length (kw_sources it)"
    "kw_watermark it' = kw_watermark it" "kw_pending it' = kw_pending it"
    "\<And>j. j < length (kw_sources it) \<Longrightarrow> stream it' j = (if j = hi_source item then tl (stream it j) else stream it j)"
proof -
  let ?p = "it\<lparr>kw_heap := remove1 item (kw_heap it)\<rparr>"
  note P = heap_pop_ok [OF assms]
  obtain it' where "push_current nxt (hi_source item) ?p = Inr it'" "kw_ok run ok {} it'"
    "\<forall>j < length (kw_sources ?p). stream it' j = stream ?p j" "length (kw_sources it') = length (kw_sources ?p)"
    "kw_watermark it' = kw_watermark ?p" "kw_pending it' = kw_pending ?p"
    using push_current_ok [of "hi_source item" "{}" ?p] P(1,2) by auto
  then show thesis using that [of it'] P(4) by simp
qed

lemma total_pop:
  fixes i n :: nat
  assumes "i < n" "f i = x # xs" "\<And>j. j < n \<Longrightarrow> g j = (if j = i then tl (f j) else f j)"
  shows "Suc (\<Sum>j<n. length (g j)) = (\<Sum>j<n. length (f j :: entry list))"
proof -
  have "(\<Sum>j<n. length (f j)) = length (f i) + (\<Sum>j\<in>{..<n} - {i}. length (f j))"
    using sum.remove [of "{..<n}" i "\<lambda>j. length (f j)"] assms(1) by simp
  moreover have "(\<Sum>j<n. length (g j)) = length (g i) + (\<Sum>j\<in>{..<n} - {i}. length (g j))"
    using sum.remove [of "{..<n}" i "\<lambda>j. length (g j)"] assms(1) by simp
  moreover have "(\<Sum>j\<in>{..<n} - {i}. length (g j)) = (\<Sum>j\<in>{..<n} - {i}. length (f j))"
    by (rule sum.cong) (use assms(3) in auto)
  ultimately show ?thesis using assms(1-3) by simp
qed

lemma heap_empty_all:
  assumes "kw_ok run ok {} it" "heap_peek (kw_heap it) = None"
  shows "kw_all run it = {}"
  using assms by (auto simp: kw_ok_def kw_all_def kw_stream_def)

lemma kway_versions_spec:
  assumes "kw_ok run ok {} it" "\<forall>i < length (kw_sources it). \<forall>x \<in> set (stream it i). k \<le> e_key x"
  shows "\<exists>vs' it'. kway_versions nxt k it vs = Some (Inr (vs @ vs', it')) \<and> kw_ok run ok {} it' \<and>
    set vs' = {e \<in> kw_all run it. e_key e = k} \<and>
    length (kw_sources it') = length (kw_sources it) \<and> kw_watermark it' = kw_watermark it \<and> kw_pending it' = kw_pending it \<and>
    (\<forall>j < length (kw_sources it). stream it' j = filter (\<lambda>e. e_key e \<noteq> k) (stream it j))"
  using assms
proof (induction "kw_total run it" arbitrary: it vs rule: less_induct)
  case less
  show ?case
  proof (cases "heap_peek (kw_heap it)")
    case None
    then have "kw_all run it = {}" using heap_empty_all less.prems(1) by blast
    moreover from this have "stream it j = []" if "j < length (kw_sources it)" for j
      using that by (auto simp: kw_all_def)
    ultimately show ?thesis
      using less.prems(1) None by (intro exI [of _ "[]"] exI [of _ it]) (simp add: kway_versions.simps [of nxt k it])
  next
    case (Some item)
    note P = heap_pop_ok [OF less.prems(1) Some]
    show ?thesis
    proof (cases "e_key (hi_entry item) = k")
      case True
      obtain it' where it': "push_current nxt (hi_source item) (it\<lparr>kw_heap := remove1 item (kw_heap it)\<rparr>) = Inr it'"
        "kw_ok run ok {} it'" "length (kw_sources it') = length (kw_sources it)"
        "kw_watermark it' = kw_watermark it" "kw_pending it' = kw_pending it"
        "\<And>j. j < length (kw_sources it) \<Longrightarrow> stream it' j = (if j = hi_source item then tl (stream it j) else stream it j)"
        using kway_pop [OF less.prems(1) Some] by blast
      have "Suc (kw_total run it') = kw_total run it"
        unfolding kw_total_def it'(3) by (rule total_pop [OF P(2) P(3) it'(6)])
      moreover have "\<forall>i < length (kw_sources it'). \<forall>x \<in> set (stream it' i). k \<le> e_key x"
      proof (intro allI impI ballI)
        fix i x assume that: "i < length (kw_sources it')" "x \<in> set (stream it' i)"
        have "x \<in> set (stream it i)" using that it'(3) it'(6) [of i] P(3) by (auto split: if_splits)
        then show "k \<le> e_key x" using that(1) it'(3) less.prems(2) by simp
      qed
      ultimately obtain vs' it'' where R: "kway_versions nxt k it' (vs @ [hi_entry item]) = Some (Inr ((vs @ [hi_entry item]) @ vs', it''))"
        "kw_ok run ok {} it''" "set vs' = {e \<in> kw_all run it'. e_key e = k}"
        "length (kw_sources it'') = length (kw_sources it)" "kw_watermark it'' = kw_watermark it" "kw_pending it'' = kw_pending it"
        "\<And>j. j < length (kw_sources it) \<Longrightarrow> stream it'' j = filter (\<lambda>e. e_key e \<noteq> k) (stream it' j)"
        using less.hyps [of it' "vs @ [hi_entry item]"] it' by auto
      have fl: "stream it'' j = filter (\<lambda>e. e_key e \<noteq> k) (stream it j)" if "j < length (kw_sources it)" for j
        using R(7) [OF that] it'(6) [OF that] P(3) True by auto
      have "kw_all run it = insert (hi_entry item) (kw_all run it')"
      proof -
        have "set (stream it j) = (if j = hi_source item then insert (hi_entry item) (set (stream it' j)) else set (stream it' j))"
          if "j < length (kw_sources it)" for j using it'(6) [OF that] P(3) by auto
        then show ?thesis unfolding kw_all_def it'(3) using P(2) by (auto split: if_splits)
      qed
      then have "set (hi_entry item # vs') = {e \<in> kw_all run it. e_key e = k}" using R(3) True by auto
      moreover have "kway_versions nxt k it vs = Some (Inr (vs @ (hi_entry item # vs'), it''))"
        using R(1) it'(1) Some True by (simp add: kway_versions.simps [of nxt k it])
      ultimately show ?thesis using R(2,4-6) fl by blast
    next
      case False
      have ne: "e_key x \<noteq> k" if "i < length (kw_sources it)" "x \<in> set (stream it i)" for i x
        using P(5) [OF that] less.prems(2) P(2,3) False by fastforce
      then have "{e \<in> kw_all run it. e_key e = k} = {}" by (auto simp: kw_all_def)
      moreover have "filter (\<lambda>e. e_key e \<noteq> k) (stream it j) = stream it j" if "j < length (kw_sources it)" for j
        using ne [OF that] by (simp add: filter_id_conv)
      moreover have "kway_versions nxt k it vs = Some (Inr (vs @ [], it))"
        using Some False by (simp add: kway_versions.simps [of nxt k it])
      ultimately show ?thesis using less.prems(1) by (intro exI [of _ "[]"] exI [of _ it]) simp
    qed
  qed
qed

lemma pending_id: "kw_pending it = [] \<Longrightarrow> it\<lparr>kw_pending := []\<rparr> = it"
  by (cases it) simp

lemma kway_drain_pending:
  "kway_drain nxt it merged = kway_drain nxt (it\<lparr>kw_pending := []\<rparr>) (merged @ rev (kw_pending it))"
proof (induction "kw_pending it" arbitrary: it merged rule: rev_induct)
  case Nil
  then show ?case by (simp add: pending_id)
next
  case (snoc e es)
  have next_e: "kway_next nxt it = Some (Inr (Some e, it\<lparr>kw_pending := es\<rparr>))"
    using snoc.hyps(2) [symmetric] by (simp add: kway_next_def pop_pending_def)
  have "kway_drain nxt it merged = kway_drain nxt (it\<lparr>kw_pending := es\<rparr>) (merged @ [e])"
    by (subst kway_drain.simps) (simp add: next_e)
  also have "\<dots> = kway_drain nxt (it\<lparr>kw_pending := []\<rparr>) ((merged @ [e]) @ rev es)"
    using snoc.hyps(1) [of "it\<lparr>kw_pending := es\<rparr>" "merged @ [e]"] by simp
  finally show ?case using snoc.hyps(2) [symmetric] by simp
qed

lemma kway_next_group:
  assumes "kw_ok run ok {} it" "kw_pending it = []" "heap_peek (kw_heap it) = Some item" "versions_unique (kw_all run it)"
  defines "k \<equiv> e_key (hi_entry item)"
  obtains vs it' where "kway_next nxt it = Some (Inr (pop_pending (it'\<lparr>kw_pending := rev (kept_group (kw_watermark it) vs)\<rparr>)))"
    "vs \<noteq> []" "set vs = {e \<in> kw_all run it. e_key e = k}" "kw_ok run ok {} it'" "kw_pending it' = []"
    "kw_watermark it' = kw_watermark it" "kw_total run it' < kw_total run it"
    "kw_all run it' = {e \<in> kw_all run it. e_key e \<noteq> k}" "\<And>e. e \<in> kw_all run it' \<Longrightarrow> k < e_key e"
proof -
  note P = heap_pop_ok [OF assms(1,3)]
  obtain it1 where it1: "push_current nxt (hi_source item) (it\<lparr>kw_heap := remove1 item (kw_heap it)\<rparr>) = Inr it1"
    "kw_ok run ok {} it1" "length (kw_sources it1) = length (kw_sources it)"
    "kw_watermark it1 = kw_watermark it" "kw_pending it1 = kw_pending it"
    "\<And>j. j < length (kw_sources it) \<Longrightarrow> stream it1 j = (if j = hi_source item then tl (stream it j) else stream it j)"
    using kway_pop [OF assms(1,3)] by blast
  have min: "k \<le> e_key x" if "i < length (kw_sources it)" "x \<in> set (stream it i)" for i x
    unfolding k_def by (rule P(5) [OF that])
  have sub: "set (stream it1 i) \<subseteq> set (stream it i)" if "i < length (kw_sources it)" for i
    using it1(6) [OF that] P(3) by auto
  obtain vs' it' where R: "kway_versions nxt k it1 [hi_entry item] = Some (Inr ([hi_entry item] @ vs', it'))"
    "kw_ok run ok {} it'" "set vs' = {e \<in> kw_all run it1. e_key e = k}"
    "length (kw_sources it') = length (kw_sources it)" "kw_watermark it' = kw_watermark it" "kw_pending it' = []"
    "\<And>j. j < length (kw_sources it) \<Longrightarrow> stream it' j = filter (\<lambda>e. e_key e \<noteq> k) (stream it1 j)"
  proof -
    have "\<forall>i < length (kw_sources it1). \<forall>x \<in> set (stream it1 i). k \<le> e_key x"
      using min sub it1(3) by auto
    from kway_versions_spec [OF it1(2) this, of "[hi_entry item]"] show thesis
      using that it1(3-5) assms(2) by auto
  qed
  have all: "kw_all run it = insert (hi_entry item) (kw_all run it1)"
  proof -
    have "set (stream it j) = (if j = hi_source item then insert (hi_entry item) (set (stream it1 j)) else set (stream it1 j))"
      if "j < length (kw_sources it)" for j using it1(6) [OF that] P(3) by auto
    then show ?thesis unfolding kw_all_def it1(3) using P(2) by (auto split: if_splits)
  qed
  let ?vs = "hi_entry item # vs'"
  have vs: "set ?vs = {e \<in> kw_all run it. e_key e = k}" using R(3) all by (auto simp: k_def)
  have grp: "sort_newest (kept_group wm ?vs) = kept_group wm ?vs" for wm
    by (rule kept_group_spec(3) [of _ k]) (use vs versions_unique_subset [OF assms(4)] in auto)
  have "kway_next nxt it = Some (Inr (pop_pending (it'\<lparr>kw_pending := rev (kept_group (kw_watermark it) ?vs)\<rparr>)))"
    using assms(2,3) it1(1) R(1,5) grp [unfolded kept_group_def]
    by (simp add: kway_next_def k_def [symmetric] kept_group_def Let_def)
  moreover have rest: "kw_all run it' = {e \<in> kw_all run it. e_key e \<noteq> k}"
    using R(4,7) all it1(3) by (auto simp: kw_all_def k_def)
  moreover have "kw_total run it' < kw_total run it"
  proof -
    have "kw_total run it' \<le> kw_total run it1"
      unfolding kw_total_def R(4) it1(3) by (rule sum_mono) (use R(7) in simp)
    moreover have "Suc (kw_total run it1) = kw_total run it"
      unfolding kw_total_def it1(3) by (rule total_pop [OF P(2) P(3) it1(6)])
    ultimately show ?thesis by simp
  qed
  moreover have "k < e_key e" if "e \<in> kw_all run it'" for e
    using that min unfolding rest by (auto simp: kw_all_def order.order_iff_strict)
  ultimately show thesis using that [of ?vs it'] vs R(2,5,6) by blast
qed

lemma kway_drain_spec:
  assumes "kw_ok run ok {} it" "kw_pending it = []" "versions_unique (kw_all run it)"
  shows "\<exists>out. kway_drain nxt it merged = Some (Inr (merged @ out)) \<and> version_sorted out \<and>
    gc_keeps (kw_all run it) (kw_watermark it) (set out)"
  using assms
proof (induction "kw_total run it" arbitrary: it merged rule: less_induct)
  case less
  show ?case
  proof (cases "heap_peek (kw_heap it)")
    case None
    then have "kw_all run it = {}" using heap_empty_all less.prems(1) by blast
    moreover have "kway_drain nxt it merged = Some (Inr (merged @ []))"
      using None less.prems(2) by (subst kway_drain.simps) (simp add: kway_next_def)
    ultimately show ?thesis by (intro exI [of _ "[]"]) (simp add: gc_keeps_def)
  next
    case (Some item)
    let ?k = "e_key (hi_entry item)" and ?wm = "kw_watermark it"
    obtain vs it' where G: "kway_next nxt it = Some (Inr (pop_pending (it'\<lparr>kw_pending := rev (kept_group ?wm vs)\<rparr>)))"
      "vs \<noteq> []" "set vs = {e \<in> kw_all run it. e_key e = ?k}" "kw_ok run ok {} it'" "kw_pending it' = []"
      "kw_watermark it' = ?wm" "kw_total run it' < kw_total run it"
      "kw_all run it' = {e \<in> kw_all run it. e_key e \<noteq> ?k}" "\<And>e. e \<in> kw_all run it' \<Longrightarrow> ?k < e_key e"
      using kway_next_group [OF less.prems(1,2) Some less.prems(3)] by blast
    let ?g = "kept_group ?wm vs"
    have key: "\<forall>v \<in> set vs. e_key v = ?k" and uq: "versions_unique (set vs)"
      using G(3) versions_unique_subset [OF less.prems(3)] by auto
    note K = kept_group_spec [OF uq key, of ?wm]
    have gk: "e_key e = ?k" if "e \<in> set ?g" for e using K(2) key that by (auto simp: gc_keeps_def)
    obtain x xs where g: "?g = x # xs" using kept_group_Nil [OF G(2), of ?wm] by (cases ?g) auto
    have "versions_unique (kw_all run it')" unfolding G(8) by (rule versions_unique_subset [OF less.prems(3)]) auto
    then obtain out where out: "kway_drain nxt it' (merged @ ?g) = Some (Inr ((merged @ ?g) @ out))" "version_sorted out"
      "gc_keeps (kw_all run it') ?wm (set out)"
      using less.hyps [OF G(7,4,5), of "merged @ ?g"] G(6) by auto
    have "kway_drain nxt it merged = kway_drain nxt (it'\<lparr>kw_pending := rev xs\<rparr>) (merged @ [x])"
      by (subst kway_drain.simps) (simp add: G(1) g pop_pending_def)
    also have "\<dots> = kway_drain nxt it' (merged @ ?g)"
      by (subst kway_drain_pending) (simp add: g pending_id [OF G(5)])
    finally have "kway_drain nxt it merged = Some (Inr (merged @ (?g @ out)))" using out(1) by simp
    moreover have "version_sorted (?g @ out)"
    proof -
      have "version_sorted ?g"
        using K(1) gk by (rule_tac sorted_wrt_mono_rel [rotated]) (auto simp: ikey_def)
      moreover have "?k < e_key e" if "e \<in> set out" for e using out(3) that G(9) by (auto simp: gc_keeps_def)
      ultimately show ?thesis using out(2) gk by (auto simp: sorted_wrt_append ikey_def)
    qed
    moreover have "gc_keeps (kw_all run it) ?wm (set (?g @ out))"
      using gc_keeps_by_key [of "kw_all run it" ?k ?wm "set ?g" "set out"] K(2) out(3) G(3,8) by simp
    ultimately show ?thesis by blast
  qed
qed

lemma push_all_ok:
  assumes "kw_ok run ok {m..<n} it" "n = length (kw_sources it)" "m \<le> n"
  shows "\<exists>it'. push_all nxt [m ..< n] it = Inr it' \<and> kw_ok run ok {} it' \<and>
    (\<forall>j < n. stream it' j = stream it j) \<and> length (kw_sources it') = n \<and>
    kw_watermark it' = kw_watermark it \<and> kw_pending it' = kw_pending it"
  using assms
proof (induction "n - m" arbitrary: m it)
  case 0
  then show ?case by simp
next
  case (Suc d)
  then have m: "m < n" "{m..<n} = insert m {Suc m..<n}" "[m ..< n] = m # [Suc m ..< n]"
    by (auto simp: upt_conv_Cons)
  obtain it1 where it1: "push_current nxt m it = Inr it1" "kw_ok run ok {Suc m..<n} it1"
    "\<forall>j < n. stream it1 j = stream it j" "length (kw_sources it1) = n"
    "kw_watermark it1 = kw_watermark it" "kw_pending it1 = kw_pending it"
    using push_current_ok [of m "{Suc m..<n}" it] Suc.prems m by auto
  have "d = n - Suc m" using Suc.hyps(2) by simp
  from Suc.hyps(1) [OF this it1(2) it1(4) [symmetric]] m(1) it1 show ?case by (auto simp: m(3))
qed

lemma kway_merge_spec:
  assumes "\<forall>s \<in> set ss. ok s \<and> version_sorted (run s)" "versions_unique (\<Union>s \<in> set ss. set (run s))"
  shows "\<exists>out. kway_merge nxt ss wm = Some (Inr out) \<and> version_sorted out \<and>
    gc_keeps (\<Union>s \<in> set ss. set (run s)) wm (set out)"
proof -
  let ?it = "\<lparr>kw_sources = ss, kw_heap = [], kw_watermark = wm, kw_pending = []\<rparr>" and ?n = "length ss"
  have str: "stream ?it j = run (ss ! j)" for j by (simp add: kw_stream_def)
  have "kw_ok run ok {0..<?n} ?it" using assms(1) unfolding kw_ok_def by (simp add: str)
  from push_all_ok [OF this] obtain it where it: "kway_new nxt ss wm = Inr it" "kw_ok run ok {} it" "\<forall>j < ?n. stream it j = stream ?it j"
    "length (kw_sources it) = ?n" "kw_watermark it = wm" "kw_pending it = []"
    unfolding kway_new_def by fastforce
  have all: "kw_all run it = (\<Union>s \<in> set ss. set (run s))"
  proof -
    have "(\<Union>i<?n. set (stream it i)) = (\<Union>i<?n. set (run (ss ! i)))" using it(3) by (simp add: str)
    also have "\<dots> = (\<Union>s \<in> (!) ss ` {..<?n}. set (run s))" by simp
    also have "(!) ss ` {..<?n} = set ss" by (auto simp: in_set_conv_nth)
    finally show ?thesis by (simp add: kw_all_def it(4))
  qed
  show ?thesis
    using kway_drain_spec [OF it(2,6), of "[]"] assms(2) it(1,5) all by (simp add: kway_merge_def)
qed

end

section \<open>Vectors and tables as sources\<close>

interpretation vec_source: entry_source vec_next "\<lambda>es. es" "\<lambda>_. True"
proof unfold_locales
  fix es :: "entry list"
  show "\<exists>s'. vec_next es = Inr (case es of [] \<Rightarrow> None | e # _ \<Rightarrow> Some e, s') \<and> True \<and> s' = tl es"
    by (cases es) auto
qed

definition cursor_rest :: "(bytes \<Rightarrow> u64) \<Rightarrow> (sst_reader \<Rightarrow> page_source) \<Rightarrow> sst_cursor \<Rightarrow> entry list result" where
  "cursor_rest xxh pools c =
     all_block_entries xxh (pools (cu_reader c)) (cu_reader c) [cu_next_block c ..< length (sr_index (cu_reader c))]"

definition cursor_run :: "(bytes \<Rightarrow> u64) \<Rightarrow> (sst_reader \<Rightarrow> page_source) \<Rightarrow> sst_cursor \<Rightarrow> entry list" where
  "cursor_run xxh pools c = cu_entries c @ (case cursor_rest xxh pools c of Inl _ \<Rightarrow> [] | Inr es \<Rightarrow> es)"

lemma cursor_next_run:
  assumes "cursor_rest xxh pools c = Inr es"
  shows "\<exists>c'. cursor_next xxh pools c = Inr (case cursor_run xxh pools c of [] \<Rightarrow> None | e # _ \<Rightarrow> Some e, c') \<and>
    (\<exists>es'. cursor_rest xxh pools c' = Inr es') \<and> cursor_run xxh pools c' = tl (cursor_run xxh pools c)"
  using assms
proof (induction xxh pools c arbitrary: es rule: cursor_next.induct)
  case (1 xxh pools c)
  show ?case
  proof (cases "cu_entries c")
    case (Cons e rest)
    then show ?thesis using 1(2) by (subst cursor_next.simps) (simp add: cursor_run_def cursor_rest_def)
  next
    case Nil
    show ?thesis
    proof (cases "length (sr_index (cu_reader c)) \<le> cu_next_block c")
      case True
      then show ?thesis using 1(2) Nil by (subst cursor_next.simps) (auto simp: cursor_run_def cursor_rest_def)
    next
      case False
      let ?c = "\<lambda>b. c\<lparr>cu_next_block := Suc (cu_next_block c), cu_entries := b\<rparr>"
      have "[cu_next_block c ..< length (sr_index (cu_reader c))] =
          cu_next_block c # [Suc (cu_next_block c) ..< length (sr_index (cu_reader c))]"
        using False by (simp add: upt_conv_Cons)
      then obtain b rest where b: "block_entries xxh (pools (cu_reader c)) (cu_reader c) (cu_next_block c) = Inr b"
        "cursor_rest xxh pools (?c b) = Inr rest" "es = b @ rest"
        using 1(2) by (auto simp: cursor_rest_def rbind_eq_Inr)
      have "cursor_run xxh pools (?c b) = cursor_run xxh pools c" using Nil 1(2) b(2,3) by (simp add: cursor_run_def)
      moreover have "cursor_next xxh pools c = cursor_next xxh pools (?c b)"
        using Nil False b(1) by (subst cursor_next.simps) simp
      ultimately show ?thesis using 1(1) [OF Nil False b(1) b(2)] by simp
    qed
  qed
qed

interpretation cursor_source: entry_source "cursor_next xxh pools" "cursor_run xxh pools"
    "\<lambda>c. \<exists>es. cursor_rest xxh pools c = Inr es" for xxh pools
  by unfold_locales (use cursor_next_run in blast)

lemma sst_wf_cursor:
  assumes "sst_wf xxh (pools r) r"
  shows "\<exists>es. cursor_rest xxh pools (cursor_new r) = Inr es" "version_sorted (cursor_run xxh pools (cursor_new r))"
    "set (cursor_run xxh pools (cursor_new r)) = sst_versions xxh (pools r) r"
proof -
  obtain es where es: "sst_entries xxh (pools r) r = Inr es" "version_sorted es"
    using assms by (rule sst_wf_reads) blast
  then have "cursor_rest xxh pools (cursor_new r) = Inr es"
    by (auto simp: sst_entries_def cursor_rest_def cursor_new_def rbind_eq_Inr split: if_splits)
  then show "\<exists>es. cursor_rest xxh pools (cursor_new r) = Inr es" "version_sorted (cursor_run xxh pools (cursor_new r))"
    "set (cursor_run xxh pools (cursor_new r)) = sst_versions xxh (pools r) r"
    using es by (simp_all add: cursor_run_def cursor_new_def sst_versions_def)
qed

lemma kway_merge_tables:
  assumes "\<forall>r \<in> set rs. sst_wf xxh (pools r) r" "versions_unique (\<Union>r \<in> set rs. sst_versions xxh (pools r) r)"
  obtains out where "kway_merge (cursor_next xxh pools) (map cursor_new rs) wm = Some (Inr out)" "version_sorted out"
    "gc_keeps (\<Union>r \<in> set rs. sst_versions xxh (pools r) r) wm (set out)"
proof -
  let ?cs = "map cursor_new rs" and ?V = "\<Union>r \<in> set rs. sst_versions xxh (pools r) r"
  have V: "(\<Union>c \<in> set ?cs. set (cursor_run xxh pools c)) = ?V"
    using sst_wf_cursor(3) assms(1) by simp
  have "\<forall>c \<in> set ?cs. (\<exists>es. cursor_rest xxh pools c = Inr es) \<and> version_sorted (cursor_run xxh pools c)"
    using sst_wf_cursor(1,2) assms(1) by simp
  from cursor_source.kway_merge_spec [OF this, of wm, unfolded V, OF assms(2)] show thesis using that by blast
qed

text \<open>
  C39. Compaction merges tables without losing anything a snapshot can see: the loop over the
  k-way merge ends, its output is ordered as a table must be, it keeps every version at or above
  the watermark and the newest one below it, and every read at or above the watermark finds in
  the output what it found in the inputs. The inputs may share versions but not disagree on one.
\<close>

theorem compaction_merge_keeps_reads:
  assumes "\<forall>r \<in> set rs. sst_wf xxh (pools r) r" "versions_unique (\<Union>r \<in> set rs. sst_versions xxh (pools r) r)"
  shows "\<exists>out. kway_merge (cursor_next xxh pools) (map cursor_new rs) wm = Some (Inr out) \<and> version_sorted out \<and>
    gc_keeps (\<Union>r \<in> set rs. sst_versions xxh (pools r) r) wm (set out) \<and>
    (\<forall>k ts v. wm \<le> ts \<longrightarrow> newest (\<Union>r \<in> set rs. sst_versions xxh (pools r) r) k ts v \<longrightarrow> newest (set out) k ts v)"
proof (rule kway_merge_tables [OF assms])
  fix out assume out: "kway_merge (cursor_next xxh pools) (map cursor_new rs) wm = Some (Inr out)" "version_sorted out"
    "gc_keeps (\<Union>r \<in> set rs. sst_versions xxh (pools r) r) wm (set out)"
  show ?thesis
    by (intro exI [of _ out] conjI allI impI) (use out gc_keeps_newest [OF out(3)] in auto)
qed

lemma sst_sample_reader:
  obtains r where "sst_wf (\<lambda>_. 11) None r" "sst_versions (\<lambda>_. 11) None r = set sst_sample"
proof -
  obtain f where f: "sst_write (\<lambda>_. 11) False sst_sample 8 = Inr f"
    using sst_sample_written by blast
  have b: "bloom_bit_count (length sst_sample) < 2 ^ 32" unfolding bloom_bits_width by (simp add: sst_sample_def)
  have p: "pool_serves f None" by (simp add: pool_serves_def)
  show thesis
  proof (rule sst_written_reads [OF f b p])
    fix r assume "sst_open (\<lambda>_. 11) f = Inr r" "sst_entries (\<lambda>_. 11) None r = Inr sst_sample"
    then show thesis using that [of r] f b p unfolding sst_wf_def sst_versions_def by auto
  qed
qed

theorem compaction_merge_keeps_reads_witness:
  "\<exists>r out. sst_wf (\<lambda>_. 11) None r \<and>
     kway_merge (cursor_next (\<lambda>_. 11) (\<lambda>_. None)) (map cursor_new [r, r]) 10 = Some (Inr out) \<and>
     newest (set out) [97] 12 (Some (entry_put [97] [1] 9)) \<and> set out \<subseteq> set sst_sample"
proof -
  obtain r where r: "sst_wf (\<lambda>_. 11) None r" "sst_versions (\<lambda>_. 11) None r = set sst_sample"
    by (rule sst_sample_reader)
  have "versions_unique (set sst_sample)" "newest (set sst_sample) [97] 12 (Some (entry_put [97] [1] 9))"
    by (auto simp: sst_sample_def versions_unique_def newest_def ikey_def entry_put_def entry_delete_def)
  then show ?thesis
    using compaction_merge_keeps_reads [of "[r, r]" "\<lambda>_. 11" "\<lambda>_. None" 10] r by (auto simp: gc_keeps_def)
qed

section \<open>Slices\<close>

definition est_sum :: "entry list \<Rightarrow> nat" where
  "est_sum es = sum_list (map (\<lambda>e. unat (estimate_entry_bytes e)) es)"

text \<open>A slice without the versions of its last key.\<close>

definition before_last_key :: "entry list \<Rightarrow> entry list" where
  "before_last_key s = filter (\<lambda>e. e_key e \<noteq> e_key (last s)) s"

lemma est_sum_filter: "est_sum (filter P es) \<le> est_sum es"
  by (induction es) (auto simp: est_sum_def)

lemma unat_sat_add_min:
  assumes "unat acc = min n (2 ^ 64 - 1)" "m = n + unat sz"
  shows "unat (sat_add acc sz) = min m (2 ^ 64 - 1)"
proof (cases "unat acc + unat sz < 2 ^ 64")
  case True
  then have "unat (acc + sz) = unat acc + unat sz" using unat_add_lem [of acc sz] by simp
  then show ?thesis using True assms by (simp add: sat_add_nat min_def split: if_splits)
next
  case False
  then show ?thesis using assms by (simp add: sat_add_nat min_def split: if_splits)
qed

lemma split_loop_spec:
  assumes "unat acc = min (est_sum cur) (2 ^ 64 - 1)" "unat budget < 2 ^ 64 - 1" "cur \<noteq> [] \<or> es \<noteq> []"
    and "est_sum (before_last_key cur) \<le> unat budget"
  defines "ss \<equiv> split_loop budget es cur acc"
  shows "concat ss = cur @ es \<and> [] \<notin> set ss \<and> keys_apart ss \<and> (cur \<noteq> [] \<longrightarrow> e_key (hd (hd ss)) = e_key (hd cur)) \<and>
    (\<forall>s \<in> set ss. est_sum (before_last_key s) \<le> unat budget)"
  using assms(1-4) unfolding ss_def
proof (induction budget es cur acc rule: split_loop.induct)
  case (1 budget cur acc)
  then show ?case by simp
next
  case (2 budget e es cur acc)
  let ?sz = "estimate_entry_bytes e"
  have would: "unat (sat_add acc ?sz) = min (est_sum (cur @ [e])) (2 ^ 64 - 1)"
    by (rule unat_sat_add_min [OF 2(3)]) (simp add: est_sum_def)
  show ?case
  proof (cases "cur \<noteq> [] \<and> e_key e \<noteq> e_key (last cur) \<and> budget < sat_add acc ?sz")
    case True
    have "before_last_key [e] = []" by (simp add: before_last_key_def)
    then show ?thesis using 2(1) [OF refl refl refl] True 2(4-6) unat_lt2p [of ?sz]
      by (auto simp: Let_def est_sum_def successively_Cons)
  next
    case False
    have "est_sum (before_last_key (cur @ [e])) \<le> unat budget"
    proof (cases "cur \<noteq> [] \<and> e_key e = e_key (last cur)")
      case True
      then have "before_last_key (cur @ [e]) = before_last_key cur" by (simp add: before_last_key_def)
      then show ?thesis using 2(6) by simp
    next
      case other: False
      show ?thesis
      proof (cases "cur = []")
        case True
        then show ?thesis by (simp add: before_last_key_def est_sum_def)
      next
        case ne: False
        then have "unat (sat_add acc ?sz) \<le> unat budget" using False other by (simp add: word_less_nat_alt not_less)
        then have "est_sum (cur @ [e]) \<le> unat budget" using would 2(4) by (simp add: min_def split: if_splits)
        moreover have "est_sum (before_last_key (cur @ [e])) \<le> est_sum cur"
          using est_sum_filter [of _ cur] by (simp add: before_last_key_def)
        ultimately show ?thesis by (simp add: est_sum_def)
      qed
    qed
    then show ?thesis using 2(2) [OF refl refl refl] False would 2(4) by (auto simp: Let_def)
  qed
qed

lemma slices_ordered:
  assumes "version_sorted (concat ss)" "[] \<notin> set ss" "keys_apart ss"
  shows "sorted_wrt (\<lambda>a b. \<forall>x \<in> set a. \<forall>y \<in> set b. e_key x < e_key y) ss"
  using assms
proof (induction ss)
  case (Cons b ss)
  have "e_key (last b) < e_key y" if "y \<in> set (concat ss)" for y
    using keys_apart_next [OF Cons.prems(1) _ Cons.prems(3) that] Cons.prems(2) by fastforce
  moreover have "e_key x \<le> e_key (last b)" if "x \<in> set b" for x
    using sorted_block_keys [of b] Cons.prems(1,2) that by (auto simp: sorted_wrt_append)
  ultimately have "\<forall>b' \<in> set ss. \<forall>x \<in> set b. \<forall>y \<in> set b'. e_key x < e_key y" by fastforce
  then show ?case using Cons by (auto simp: sorted_wrt_append successively_Cons)
qed simp

lemma split_budget_bounds:
  assumes "max_bytes \<noteq> 0"
  shows "split_budget max_bytes \<le> max_bytes" "unat (split_budget max_bytes) < 2 ^ 64 - 1"
proof -
  have "max_bytes div 2 \<le> max_bytes" by (simp add: word_le_nat_alt unat_div)
  moreover have "sat_sub max_bytes 4096 \<le> max_bytes" by (simp add: sat_sub_def word_sub_le)
  moreover have "1 \<le> max_bytes" using assms by (simp add: word_le_nat_alt Suc_le_eq unat_gt_0)
  ultimately show "split_budget max_bytes \<le> max_bytes" by (simp add: split_budget_def)
  have "unat (sat_sub max_bytes 4096) < 2 ^ 64 - 1"
    using unat_u64_bound [of max_bytes] by (auto simp: sat_sub_def word_le_nat_alt unat_sub)
  moreover have "unat (max_bytes div 2) < 2 ^ 64 - 1" using unat_u64_bound [of max_bytes] by (simp add: unat_div)
  ultimately show "unat (split_budget max_bytes) < 2 ^ 64 - 1" by (simp add: split_budget_def max_def)
qed

lemma split_entries_parts:
  "concat (split_entries_by_max_bytes es m) = es" "[] \<notin> set (split_entries_by_max_bytes es m)"
  "keys_apart (split_entries_by_max_bytes es m)"
  "m \<noteq> 0 \<Longrightarrow> s \<in> set (split_entries_by_max_bytes es m) \<Longrightarrow> est_sum (before_last_key s) \<le> unat (split_budget m)"
proof -
  have L: "concat (split_loop (split_budget m) es [] 0) = [] @ es \<and> [] \<notin> set (split_loop (split_budget m) es [] 0) \<and>
      keys_apart (split_loop (split_budget m) es [] 0) \<and>
      (\<forall>s \<in> set (split_loop (split_budget m) es [] 0). est_sum (before_last_key s) \<le> unat (split_budget m))"
    if "m \<noteq> 0" "es \<noteq> []"
    using split_loop_spec [of 0 "[]" "split_budget m" es] split_budget_bounds(2) [OF that(1)] that(2)
    by (simp add: est_sum_def before_last_key_def)
  show "concat (split_entries_by_max_bytes es m) = es" "[] \<notin> set (split_entries_by_max_bytes es m)"
    "keys_apart (split_entries_by_max_bytes es m)"
    "m \<noteq> 0 \<Longrightarrow> s \<in> set (split_entries_by_max_bytes es m) \<Longrightarrow> est_sum (before_last_key s) \<le> unat (split_budget m)"
    using L by (auto simp: split_entries_by_max_bytes_def split: if_splits)
qed

text \<open>
  Splitting a sorted run for tables loses nothing and keeps every key in one slice: the
  slices concatenate to the run, none is empty, all keys of a slice are below all keys of the
  next, and without the versions of its last key a slice is within the budget, which is within
  the cap. No sum wraps, whatever the sizes.
\<close>

theorem split_slices_bounded:
  assumes "version_sorted es" "max_bytes \<noteq> 0"
  defines "ss \<equiv> split_entries_by_max_bytes es max_bytes"
  shows "concat ss = es \<and> [] \<notin> set ss \<and>
    sorted_wrt (\<lambda>a b. \<forall>x \<in> set a. \<forall>y \<in> set b. e_key x < e_key y) ss \<and>
    (\<forall>s \<in> set ss. est_sum (before_last_key s) \<le> unat (split_budget max_bytes)) \<and>
    split_budget max_bytes \<le> max_bytes"
  using split_entries_parts(1-3) [of es max_bytes] split_entries_parts(4) [of max_bytes _ es] slices_ordered [of ss] assms split_budget_bounds(1)
  unfolding ss_def by simp

theorem split_slices_bounded_witness:
  "concat (split_entries_by_max_bytes [entry_put [1] [7] 5, entry_put [1] [8] 4, entry_put [2] [] 3] 60) =
     [entry_put [1] [7] 5, entry_put [1] [8] 4, entry_put [2] [] 3] \<and>
   split_entries_by_max_bytes [entry_put [1] [7] 5, entry_put [1] [8] 4, entry_put [2] [] 3] 60 =
     [[entry_put [1] [7] 5, entry_put [1] [8] 4], [entry_put [2] [] 3]]"
proof -
  have "version_sorted [entry_put [1] [7] 5, entry_put [1] [8] 4, entry_put [2] [] 3]"
    by (simp add: ikey_def entry_put_def)
  from split_slices_bounded [OF this, of 60] show ?thesis
    by (simp add: split_entries_by_max_bytes_def split_budget_def sat_sub_def sat_add_def estimate_entry_bytes_def
        entry_put_def Let_def word_le_nat_alt word_less_nat_alt)
qed

end
