(* ===== verification/Sst_Manager.thy ===== *)
theory Sst_Manager
  imports Sst_Registry Kway_Proofs
begin

text \<open>
  The leveled catalog of tables (\<open>SstManager\<close> of \<open>compaction.rs\<close>): adding and recovering tables,
  picking a compaction and reserving its inputs, installing its outputs. One lock guards the
  catalog, so an operation is one step; the registry of open tables is part of the state.
\<close>

record sst_meta =
  fm_id :: sst_id
  fm_level :: nat
  fm_path :: path
  fm_smallest :: key
  fm_largest :: key
  fm_file_size :: u64

record sst_info =
  in_id :: sst_id
  in_path :: path
  in_entry_count :: u64
  in_file_size :: u64

definition meta_from_info :: "nat \<Rightarrow> sst_info \<Rightarrow> key \<Rightarrow> key \<Rightarrow> sst_meta result" where
  "meta_from_info level info smallest largest =
     (if largest < smallest then Inl (Compaction ''SST smallest key exceeds largest key'')
      else if in_entry_count info = 0 then Inl (Compaction ''empty SSTs are not added to the leveled catalog'')
      else Inr \<lparr>fm_id = in_id info, fm_level = level, fm_path = in_path info, fm_smallest = smallest,
                fm_largest = largest, fm_file_size = in_file_size info\<rparr>)"

definition overlaps :: "sst_meta \<Rightarrow> key \<Rightarrow> key \<Rightarrow> bool" where
  "overlaps f smallest largest \<longleftrightarrow> fm_smallest f \<le> largest \<and> smallest \<le> fm_largest f"

record plan =
  pl_source_level :: nat
  pl_output_level :: nat
  pl_inputs :: "sst_meta list"
  pl_reserved :: "sst_id set"
  pl_output_id :: sst_id

record sst_manager =
  mg_levels :: "sst_meta list list"
  mg_reserved :: "sst_id set"
  mg_registry :: registry
  mg_block_size :: nat
  mg_next_id :: u64
  mg_l0_generation :: u64
  mg_watermark :: u64
  mg_max_sst_bytes :: u64

definition DEFAULT_MAX_SST_BYTES :: u64 where
  "DEFAULT_MAX_SST_BYTES = 1024 * 1024 * 1024"

definition manager_new :: "registry \<Rightarrow> nat \<Rightarrow> nat \<Rightarrow> sst_id \<Rightarrow> sst_manager result" where
  "manager_new registry block_size level_count next_sst_id =
     (if level_count < 2 then Inl (Config ''compaction requires at least two levels'')
      else if block_size = 0 then Inl (Config ''compaction block_size must be > 0'')
      else Inr \<lparr>mg_levels = replicate level_count [], mg_reserved = {}, mg_registry = registry,
                mg_block_size = block_size, mg_next_id = next_sst_id, mg_l0_generation = 0, mg_watermark = 0,
                mg_max_sst_bytes = DEFAULT_MAX_SST_BYTES\<rparr>)"

definition set_max_sst_bytes :: "u64 \<Rightarrow> sst_manager \<Rightarrow> sst_manager" where
  "set_max_sst_bytes max_bytes m = (if 0 < max_bytes then m\<lparr>mg_max_sst_bytes := max_bytes\<rparr> else m)"

definition set_mvcc_watermark :: "u64 \<Rightarrow> sst_manager \<Rightarrow> sst_manager" where
  "set_mvcc_watermark wm m = m\<lparr>mg_watermark := wm\<rparr>"

text \<open>
  The object store is a parameter: \<open>put\<close> is the outcome of writing an object, \<open>None\<close> when no
  store is attached, and likewise \<open>fetch\<close> for reading one.
\<close>

type_synonym object_put = "(nat \<Rightarrow> sst_id \<Rightarrow> bytes \<Rightarrow> unit result) option"

definition AWS_S3_PUT_OBJECT_MAX_BYTES :: nat where
  "AWS_S3_PUT_OBJECT_MAX_BYTES = 5 * 1024 * 1024 * 1024"

definition assert_put_object_size :: "nat \<Rightarrow> unit result" where
  "assert_put_object_size len =
     (if AWS_S3_PUT_OBJECT_MAX_BYTES \<le> len then Inl (Engine ''object size exceeds the PutObject limit'') else Inr ())"

definition upload_sst :: "object_put \<Rightarrow> sst_meta \<Rightarrow> sst_manager \<Rightarrow> unit result" where
  "upload_sst put f m =
     (case put of
        None \<Rightarrow> Inr ()
      | Some write \<Rightarrow>
          (case rg_fs (mg_registry m) (fm_path f) of
             None \<Rightarrow> Inl (Io NotFound)
           | Some bs \<Rightarrow> rbind (assert_put_object_size (length bs)) (\<lambda>_. write (fm_level f) (fm_id f) bs)))"

definition download_sst :: "bytes result option \<Rightarrow> path \<Rightarrow> sst_manager \<Rightarrow> unit result \<times> sst_manager" where
  "download_sst fetch p m =
     (if rg_fs (mg_registry m) p \<noteq> None then (Inr (), m)
      else
        case fetch of
          None \<Rightarrow> (Inl (Engine ''cannot hydrate SST: no remote object store''), m)
        | Some (Inl e) \<Rightarrow> (Inl e, m)
        | Some (Inr bs) \<Rightarrow>
            (Inr (), m\<lparr>mg_registry := (mg_registry m)\<lparr>rg_fs := (rg_fs (mg_registry m))(p \<mapsto> bs)\<rparr>\<rparr>))"

definition sort_level :: "nat \<Rightarrow> sst_meta list \<Rightarrow> sst_meta list" where
  "sort_level level files = (if level = 0 then sort_key fm_id files else sort_key fm_smallest files)"

definition notify_l0_changed :: "sst_manager \<Rightarrow> sst_manager" where
  "notify_l0_changed m = m\<lparr>mg_l0_generation := mg_l0_generation m + 1\<rparr>"

definition all_files :: "sst_manager \<Rightarrow> sst_meta list" where
  "all_files m = concat (mg_levels m)"

definition level_files :: "sst_manager \<Rightarrow> nat \<Rightarrow> sst_meta list" where
  "level_files m level = (if level < length (mg_levels m) then mg_levels m ! level else [])"

definition l0_file_count :: "sst_manager \<Rightarrow> nat" where
  "l0_file_count m = length (mg_levels m ! 0)"

text \<open>The checks shared by \<open>add_sst\<close> and \<open>recover_sst_file\<close>, and the insertion both end with.\<close>

definition check_new_file :: "sst_meta \<Rightarrow> sst_manager \<Rightarrow> unit result" where
  "check_new_file f m =
     (if length (mg_levels m) \<le> fm_level f then Inl (Compaction ''level is out of range'')
      else if fm_id f \<in> fm_id ` set (all_files m) then Inl (Compaction ''SST already exists in catalog'')
      else if 0 < fm_level f \<and> (\<exists>g \<in> set (mg_levels m ! fm_level f). overlaps g (fm_smallest f) (fm_largest f))
      then Inl (Compaction ''SST overlaps an existing file in level'')
      else Inr ())"

definition insert_file :: "sst_meta \<Rightarrow> sst_manager \<Rightarrow> sst_manager" where
  "insert_file f m =
     (let l = fm_level f;
          m = m\<lparr>mg_levels := (mg_levels m)[l := sort_level l (mg_levels m ! l @ [f])]\<rparr>
      in if l = 0 then notify_l0_changed m else m)"

definition add_sst :: "(bytes \<Rightarrow> u64) \<Rightarrow> object_put \<Rightarrow> sst_meta \<Rightarrow> sst_manager \<Rightarrow> unit result \<times> sst_manager" where
  "add_sst xxh put f m =
     (case upload_sst put f m of
        Inl e \<Rightarrow> (Inl e, m)
      | Inr _ \<Rightarrow>
          (case check_new_file f m of
             Inl e \<Rightarrow> (Inl e, m)
           | Inr _ \<Rightarrow>
               (case rg_register xxh (fm_id f) (fm_path f) (mg_registry m) of
                  (Inl e, rg) \<Rightarrow> (Inl e, m\<lparr>mg_registry := rg\<rparr>)
                | (Inr _, rg) \<Rightarrow> (Inr (), insert_file f (m\<lparr>mg_registry := rg\<rparr>)))))"

definition allocate_sst_id :: "sst_manager \<Rightarrow> sst_id \<times> sst_manager" where
  "allocate_sst_id m = (mg_next_id m, m\<lparr>mg_next_id := mg_next_id m + 1\<rparr>)"

definition ensure_next_sst_id_at_least :: "sst_id \<Rightarrow> sst_manager \<Rightarrow> sst_manager" where
  "ensure_next_sst_id_at_least min_next m = (if mg_next_id m < min_next then m\<lparr>mg_next_id := min_next\<rparr> else m)"

text \<open>\<open>unl\<close> gives the outcome of unlinking the file of a table.\<close>

definition retire_all :: "(sst_id \<Rightarrow> io_error option) \<Rightarrow> sst_id list \<Rightarrow> registry \<Rightarrow> registry" where
  "retire_all unl is rg = foldl (\<lambda>rg i. snd (rg_retire (unl i) i rg)) rg is"

definition clear_all :: "(sst_id \<Rightarrow> io_error option) \<Rightarrow> sst_manager \<Rightarrow> sst_manager" where
  "clear_all unl m =
     notify_l0_changed
       (m\<lparr>mg_levels := map (\<lambda>_. []) (mg_levels m), mg_reserved := {},
          mg_registry := retire_all unl (map fm_id (all_files m)) (mg_registry m)\<rparr>)"

primrec add_all :: "(bytes \<Rightarrow> u64) \<Rightarrow> object_put \<Rightarrow> sst_meta list \<Rightarrow> sst_manager \<Rightarrow> unit result \<times> sst_manager" where
  "add_all xxh put [] m = (Inr (), m)"
| "add_all xxh put (f # fs) m =
     (case add_sst xxh put f m of (Inl e, m) \<Rightarrow> (Inl e, m) | (Inr _, m) \<Rightarrow> add_all xxh put fs m)"

definition replace_all ::
  "(bytes \<Rightarrow> u64) \<Rightarrow> object_put \<Rightarrow> (sst_id \<Rightarrow> io_error option) \<Rightarrow> sst_meta list \<Rightarrow> sst_manager \<Rightarrow> unit result \<times> sst_manager"
where
  "replace_all xxh put unl metas m =
     (case add_all xxh put metas (clear_all unl m) of
        (Inl e, m) \<Rightarrow> (Inl e, m)
      | (Inr _, m) \<Rightarrow> (Inr (), ensure_next_sst_id_at_least (sat_add (foldl max 0 (map fm_id metas)) 1) m))"

definition recover_sst_file ::
  "(bytes \<Rightarrow> u64) \<Rightarrow> (sst_reader \<Rightarrow> page_source) \<Rightarrow> nat \<Rightarrow> sst_id \<Rightarrow> path \<Rightarrow> sst_manager \<Rightarrow> unit result \<times> sst_manager"
where
  "recover_sst_file xxh pools level i p m =
     (case rg_fs (mg_registry m) p of
        None \<Rightarrow> (Inl (Io NotFound), m)
      | Some bs \<Rightarrow>
          (case rg_register xxh i p (mg_registry m) of
             (Inl e, rg) \<Rightarrow> (Inl e, m\<lparr>mg_registry := rg\<rparr>)
           | (Inr _, rg) \<Rightarrow>
               let m = m\<lparr>mg_registry := rg\<rparr> in
               case rg_active rg i of
                 None \<Rightarrow> (Inl (Compaction ''recovered SST could not be pinned''), m)
               | Some h \<Rightarrow>
                   (case sst_entries xxh (pools (sh_reader h)) (sh_reader h) of
                      Inl e \<Rightarrow> (Inl e, m)
                    | Inr [] \<Rightarrow> (Inl (Compaction ''recovered SST is empty''), m)
                    | Inr (e # es) \<Rightarrow>
                        let f = \<lparr>fm_id = i, fm_level = level, fm_path = p, fm_smallest = e_key e,
                                 fm_largest = e_key (last (e # es)), fm_file_size = word_of_nat (length bs)\<rparr>
                        in (case check_new_file f m of
                              Inl err \<Rightarrow> (Inl err, m)
                            | Inr _ \<Rightarrow> (Inr (), ensure_next_sst_id_at_least (sat_add i 1) (insert_file f m))))))"

section \<open>Picking a compaction\<close>

text \<open>
  One pass over the files of level 0 extends the selection by every file that overlaps its
  range; a reserved file gives the candidate up. Passes repeat until one changes nothing.
\<close>

fun closure_pass ::
  "sst_id set \<Rightarrow> sst_meta list \<Rightarrow> sst_meta list \<times> key \<times> key \<times> bool \<Rightarrow> (sst_meta list \<times> key \<times> key \<times> bool) option"
where
  "closure_pass reserved [] st = Some st"
| "closure_pass reserved (f # fs) (sel, lo, hi, changed) =
     (if fm_id f \<in> fm_id ` set sel then closure_pass reserved fs (sel, lo, hi, changed)
      else if overlaps f lo hi then
        (if fm_id f \<in> reserved then None
         else closure_pass reserved fs (sel @ [f], min lo (fm_smallest f), max hi (fm_largest f), True))
      else closure_pass reserved fs (sel, lo, hi, changed))"

definition unselected :: "sst_meta list \<Rightarrow> sst_meta list \<Rightarrow> sst_meta list" where
  "unselected files sel = filter (\<lambda>f. fm_id f \<notin> fm_id ` set sel) files"

lemma closure_pass_grows:
  "closure_pass reserved fs (sel, lo, hi, changed) = Some (sel', lo', hi', changed') \<Longrightarrow>
   \<exists>new. sel' = sel @ new \<and> set new \<subseteq> set fs \<and> (changed' \<longleftrightarrow> changed \<or> new \<noteq> []) \<and>
     (\<forall>f \<in> set new. fm_id f \<notin> fm_id ` set sel)"
proof (induction fs arbitrary: sel lo hi changed)
  case (Cons f fs)
  then show ?case by (fastforce split: if_splits)
qed simp

function closure_loop ::
  "sst_id set \<Rightarrow> sst_meta list \<Rightarrow> sst_meta list \<Rightarrow> key \<Rightarrow> key \<Rightarrow> (sst_meta list \<times> key \<times> key) option"
where
  "closure_loop reserved files sel lo hi =
     (case closure_pass reserved files (sel, lo, hi, False) of
        None \<Rightarrow> None
      | Some (sel', lo', hi', changed) \<Rightarrow>
          if changed then closure_loop reserved files sel' lo' hi' else Some (sel', lo', hi'))"
  by pat_completeness auto
termination
proof (relation "measure (\<lambda>(_, files, sel, _). length (unselected files sel))")
  fix reserved files sel lo hi a sel' b lo' c hi' changed
  assume eq: "closure_pass reserved files (sel, lo, hi, False) = Some a" "(sel', b) = a" "(lo', c) = b" "(hi', changed) = c"
    and changed: "changed"
  obtain new where new: "sel' = sel @ new" "set new \<subseteq> set files" "new \<noteq> []" "\<forall>f \<in> set new. fm_id f \<notin> fm_id ` set sel"
    using closure_pass_grows [of reserved files sel lo hi False sel' lo' hi' True] eq changed by auto
  obtain f where f: "f \<in> set new" using new(3) by (cases new) auto
  have "unselected files sel' = filter (\<lambda>g. fm_id g \<notin> fm_id ` set new) (unselected files sel)"
    using new(1) by (auto simp: unselected_def image_Un intro: filter_cong)
  moreover have "f \<in> set (unselected files sel)" using f new(2,4) by (auto simp: unselected_def)
  ultimately have "length (unselected files sel') < length (unselected files sel)"
    using f by (auto intro!: length_filter_less [of f])
  then show "((reserved, files, sel', lo', hi'), reserved, files, sel, lo, hi)
      \<in> measure (\<lambda>(_, files, sel, _). length (unselected files sel))"
    by simp
qed simp

declare closure_loop.simps [simp del]

text \<open>The candidate selected with its range, or nothing when a reserved file is in the way.\<close>

definition select_source :: "nat \<Rightarrow> sst_meta \<Rightarrow> sst_manager \<Rightarrow> (sst_meta list \<times> key \<times> key) option" where
  "select_source source_level c m =
     (if source_level = 0 then closure_loop (mg_reserved m) (mg_levels m ! 0) [c] (fm_smallest c) (fm_largest c)
      else Some ([c], fm_smallest c, fm_largest c))"

fun pick_loop :: "nat \<Rightarrow> sst_meta list \<Rightarrow> sst_manager \<Rightarrow> plan option \<times> sst_manager" where
  "pick_loop source_level [] m = (None, m)"
| "pick_loop source_level (c # cs) m =
     (if fm_id c \<in> mg_reserved m then pick_loop source_level cs m
      else
        case select_source source_level c m of
          None \<Rightarrow> pick_loop source_level cs m
        | Some (sel, lo, hi) \<Rightarrow>
            let target = filter (\<lambda>f. overlaps f lo hi) (mg_levels m ! Suc source_level) in
            if \<exists>f \<in> set target. fm_id f \<in> mg_reserved m then pick_loop source_level cs m
            else
              let inputs = sel @ target; reserved = set (map fm_id inputs) in
              (Some \<lparr>pl_source_level = source_level, pl_output_level = Suc source_level, pl_inputs = inputs,
                     pl_reserved = reserved, pl_output_id = mg_next_id m\<rparr>,
               m\<lparr>mg_reserved := mg_reserved m \<union> reserved, mg_next_id := mg_next_id m + 1\<rparr>))"

definition pick :: "nat \<Rightarrow> sst_manager \<Rightarrow> plan option result \<times> sst_manager" where
  "pick source_level m =
     (if length (mg_levels m) \<le> Suc source_level then (Inl (Compaction ''cannot compact terminal level''), m)
      else map_prod Inr id (pick_loop source_level (mg_levels m ! source_level) m))"

definition abort_plan :: "plan \<Rightarrow> sst_manager \<Rightarrow> sst_manager" where
  "abort_plan pl m = m\<lparr>mg_reserved := mg_reserved m - pl_reserved pl\<rparr>"

section \<open>Installing outputs\<close>

fun check_outputs :: "plan \<Rightarrow> sst_manager \<Rightarrow> sst_meta list \<Rightarrow> unit result" where
  "check_outputs pl m [] = Inr ()"
| "check_outputs pl m (out # outs) =
     (if fm_level out \<noteq> pl_output_level pl then Inl (Compaction ''compaction output level does not match plan'')
      else if \<exists>f \<in> set (mg_levels m ! fm_level out). fm_id f \<notin> pl_reserved pl \<and> overlaps f (fm_smallest out) (fm_largest out)
      then Inl (Compaction ''compaction output overlaps an unreserved target file'')
      else check_outputs pl m outs)"

fun outputs_overlap :: "sst_meta list \<Rightarrow> bool" where
  "outputs_overlap [] \<longleftrightarrow> False"
| "outputs_overlap (a # outs) \<longleftrightarrow> (\<exists>b \<in> set outs. overlaps a (fm_smallest b) (fm_largest b)) \<or> outputs_overlap outs"

definition replace_inputs :: "plan \<Rightarrow> sst_meta list \<Rightarrow> sst_meta list list \<Rightarrow> sst_meta list list" where
  "replace_inputs pl outs levels =
     (let levels = map (filter (\<lambda>f. fm_id f \<notin> pl_reserved pl)) levels; l = pl_output_level pl
      in levels[l := sort_level l (levels ! l @ outs)])"

definition install_outputs :: "plan \<Rightarrow> sst_meta list \<Rightarrow> sst_manager \<Rightarrow> unit result \<times> sst_manager" where
  "install_outputs pl outs m =
     (if outs = [] then (Inl (Compaction ''compaction install requires at least one output''), m)
      else if \<not> pl_reserved pl \<subseteq> mg_reserved m then (Inl (Compaction ''reservation lost before compaction install''), m)
      else if fm_id ` {f \<in> set (all_files m). fm_id f \<in> pl_reserved pl} \<noteq> pl_reserved pl
      then (Inl (Compaction ''compaction inputs changed before install''), m)
      else
        case check_outputs pl m outs of
          Inl e \<Rightarrow> (Inl e, m)
        | Inr _ \<Rightarrow>
            if 0 < pl_output_level pl \<and> outputs_overlap outs
            then (Inl (Compaction ''compaction split outputs overlap each other''), m)
            else
              let m = m\<lparr>mg_levels := replace_inputs pl outs (mg_levels m), mg_reserved := mg_reserved m - pl_reserved pl\<rparr>
              in (Inr (), if pl_source_level pl = 0 then notify_l0_changed m else m))"

end
