(* ===== verification/Raft_Node.thy ===== *)
theory Raft_Node
  imports Raft_Sm Group_Commit
begin

text \<open>
  The single-node stand-in \<open>LocalRaftNode\<close> of \<open>raft.rs\<close>: proposals take the next index, become
  durable through the group-commit flusher and are published by its apply hook. The hook's
  calls are replayed into the memtable and the applied index. Counters of operations
  (\<open>record_op\<close>) are not kept.
\<close>

section \<open>State and operations\<close>

record raft_node =
  rn_group_wal :: group_commit
  rn_memtable :: memtable
  rn_next_index :: u64
  rn_last_applied :: u64

definition rn_new :: "disk_file \<Rightarrow> memtable \<Rightarrow> u64 \<Rightarrow> raft_node" where
  "rn_new wal m next_index =
     \<lparr>rn_group_wal = gc_start wal, rn_memtable = m, rn_next_index = max next_index 1,
      rn_last_applied = sat_sub next_index 1\<rparr>"

text \<open>The apply hook installed by \<open>new\<close>: publish each entry, then raise the applied index to its timestamp.\<close>

definition rn_hook :: "memtable \<times> u64 \<Rightarrow> entry list \<Rightarrow> memtable \<times> u64" where
  "rn_hook st entries = foldl (\<lambda>(m, la) e. (mt_apply m e, max la (e_seq e))) st entries"

text \<open>Submitting through the flusher: the hook runs on the batches the flusher passed to it.\<close>

definition rn_submit ::
  "(bytes \<Rightarrow> u64) \<Rightarrow> nat option \<Rightarrow> gc_request \<Rightarrow> raft_node \<Rightarrow> raft_node \<times> unit result option"
where
  "rn_submit xxh io req n =
     (let (g, r) = gc_submit xxh io True req (rn_group_wal n);
          calls = drop (length (gc_hook_calls (rn_group_wal n))) (gc_hook_calls g);
          (m, la) = foldl rn_hook (rn_memtable n, rn_last_applied n) calls
      in (n\<lparr>rn_group_wal := g, rn_memtable := m, rn_last_applied := la\<rparr>, r))"

definition rn_propose ::
  "(bytes \<Rightarrow> u64) \<Rightarrow> nat option \<Rightarrow> raft_command \<Rightarrow> raft_node \<Rightarrow> raft_node \<times> u64 result option"
where
  "rn_propose xxh io command n =
     (let index = rn_next_index n; n1 = n\<lparr>rn_next_index := rn_next_index n + 1\<rparr>
      in if is_meta command then
           (n1\<lparr>rn_last_applied := max (rn_last_applied n1) index\<rparr>, Some (Inr index))
         else case to_entries command index of
                Inl err \<Rightarrow> (n1, Some (Inl err))
              | Inr entries \<Rightarrow>
                  let (n2, r) = rn_submit xxh io
                        (if length entries = 1 then ReqSubmit (hd entries) else ReqBatch entries) n1
                  in (n2, map_option (\<lambda>r. rbind r (\<lambda>_. Inr index)) r))"

primrec apply_log_loop ::
  "committed_entry list \<Rightarrow> u64 \<Rightarrow> u64 \<Rightarrow> nat \<Rightarrow> raft_node \<Rightarrow> raft_node \<times> nat result"
where
  "apply_log_loop [] current expected applied n = (n, Inr applied)"
| "apply_log_loop (c # cs) current expected applied n =
     (if ce_index c \<le> current then apply_log_loop cs current expected applied n
      else if ce_index c \<noteq> expected then (n, Inl (Raft ''apply_log gap''))
      else if is_meta (ce_command c) then
        apply_log_loop cs current (sat_add expected 1) (applied + 1)
          (n\<lparr>rn_last_applied := max (rn_last_applied n) (ce_index c)\<rparr>)
      else case to_entries (ce_command c) (ce_index c) of
             Inl err \<Rightarrow> (n, Inl err)
           | Inr es \<Rightarrow>
               apply_log_loop cs current (sat_add expected 1) (applied + 1)
                 (n\<lparr>rn_memtable := foldl mt_apply (rn_memtable n) es,
                    rn_last_applied := max (rn_last_applied n) (ce_index c)\<rparr>))"

definition rn_apply_log :: "committed_entry list \<Rightarrow> raft_node \<Rightarrow> raft_node \<times> batch_apply_result result" where
  "rn_apply_log cs n =
     (let current = rn_last_applied n
      in case apply_log_loop cs current (sat_add current 1) 0 n of
           (n', Inl err) \<Rightarrow> (n', Inl err)
         | (n', Inr applied) \<Rightarrow> (n', Inr \<lparr>br_applied = applied, br_last_applied = rn_last_applied n'\<rparr>))"

definition rn_set_last_applied :: "u64 \<Rightarrow> raft_node \<Rightarrow> raft_node" where
  "rn_set_last_applied index n =
     n\<lparr>rn_last_applied := index, rn_next_index := max (sat_add index 1) 1\<rparr>"

definition rn_snapshot :: "raft_node \<Rightarrow> raft_snapshot" where
  "rn_snapshot n = \<lparr>sn_last_included_index = rn_last_applied n, sn_data = u64_le (rn_last_applied n)\<rparr>"

text \<open>\<open>RaftStateMachineApi::apply_committed\<close> of the node; the write outcomes are one per command.\<close>

primrec rn_committed_loop ::
  "(bytes \<Rightarrow> u64) \<Rightarrow> (u64 \<Rightarrow> nat option) \<Rightarrow> committed_entry list \<Rightarrow> nat \<Rightarrow> raft_node \<Rightarrow> raft_node \<times> nat result option"
where
  "rn_committed_loop xxh io [] applied n = (n, Some (Inr applied))"
| "rn_committed_loop xxh io (c # cs) applied n =
     (if is_meta (ce_command c) then
        rn_committed_loop xxh io cs (applied + 1)
          (n\<lparr>rn_last_applied := max (rn_last_applied n) (ce_index c)\<rparr>)
      else case to_entries (ce_command c) (ce_index c) of
             Inl err \<Rightarrow> (n, Some (Inl err))
           | Inr batch \<Rightarrow>
               (case rn_submit xxh (io (ce_index c)) (ReqBatch batch) n of
                  (n', None) \<Rightarrow> (n', None)
                | (n', Some (Inl err)) \<Rightarrow> (n', Some (Inl err))
                | (n', Some (Inr _)) \<Rightarrow> rn_committed_loop xxh io cs (applied + 1) n'))"

definition rn_apply_committed ::
  "(bytes \<Rightarrow> u64) \<Rightarrow> (u64 \<Rightarrow> nat option) \<Rightarrow> committed_entry list \<Rightarrow> raft_node \<Rightarrow>
   raft_node \<times> batch_apply_result result option"
where
  "rn_apply_committed xxh io cs n =
     (if cs = [] then (n, Some (Inr \<lparr>br_applied = 0, br_last_applied = rn_last_applied n\<rparr>))
      else
        let current = rn_last_applied n
        in case rn_committed_loop xxh io (filter (\<lambda>e. current < ce_index e) cs) 0 n of
             (n', None) \<Rightarrow> (n', None)
           | (n', Some (Inl err)) \<Rightarrow> (n', Some (Inl err))
           | (n', Some (Inr applied)) \<Rightarrow>
               (n', Some (Inr \<lparr>br_applied = applied, br_last_applied = rn_last_applied n'\<rparr>)))"

definition rn_apply_snapshot :: "raft_snapshot \<Rightarrow> raft_node \<Rightarrow> raft_node" where
  "rn_apply_snapshot snap n =
     (if sn_last_included_index snap < rn_last_applied n then n
      else n\<lparr>rn_last_applied := sn_last_included_index snap\<rparr>)"

section \<open>Proposals\<close>

lemma rn_hook_eq:
  "rn_hook (m, la) es = (foldl mt_apply m es, foldl (\<lambda>a e. max a (e_seq e)) la es)"
  by (induction es arbitrary: m la) (auto simp: rn_hook_def)

lemma rn_submit_ok:
  assumes "gc_idle (rn_group_wal n)" "req = ReqSubmit e \<or> req = ReqBatch es" "request_entries req \<noteq> []"
  obtains g where "rn_submit xxh None req n =
      (n\<lparr>rn_group_wal := g, rn_memtable := foldl mt_apply (rn_memtable n) (request_entries req),
         rn_last_applied := foldl (\<lambda>a e. max a (e_seq e)) (rn_last_applied n) (request_entries req)\<rparr>,
       Some (Inr ()))"
    "gc_idle g" "gc_wal g = wal_append_batch_sync xxh (gc_wal (rn_group_wal n)) (request_entries req)"
proof -
  obtain g where g: "gc_submit xxh None True req (rn_group_wal n) = (g, Some (Inr ()))" "gc_idle g"
    "gc_wal g = wal_append_batch_sync xxh (gc_wal (rn_group_wal n)) (request_entries req)"
    "gc_hook_calls g = gc_hook_calls (rn_group_wal n) @ [request_entries req]"
    by (rule gc_submit_ok [OF assms])
  then have "rn_submit xxh None req n =
      (n\<lparr>rn_group_wal := g, rn_memtable := foldl mt_apply (rn_memtable n) (request_entries req),
         rn_last_applied := foldl (\<lambda>a e. max a (e_seq e)) (rn_last_applied n) (request_entries req)\<rparr>,
       Some (Inr ()))"
    by (simp add: rn_submit_def rn_hook_eq)
  with g show ?thesis by (intro that)
qed

lemma foldl_max_const:
  "es \<noteq> [] \<Longrightarrow> \<forall>e \<in> set es. e_seq e = t \<Longrightarrow> foldl (\<lambda>a e. max a (e_seq e)) (n :: u64) es = max n t"
proof (induction es arbitrary: n)
  case (Cons e es)
  then show ?case by (cases "es = []") auto
qed simp

section \<open>Properties\<close>

text \<open>
  A proposal on an idle node with a working device returns the index it was assigned; before
  it returns, its entries are in the synced WAL and in the memtable.
\<close>

theorem rn_propose_durable_and_visible:
  assumes "gc_idle (rn_group_wal n)" "to_entries command (rn_next_index n) = Inr es" "es \<noteq> []"
  shows "\<exists>n'. rn_propose xxh None command n = (n', Some (Inr (rn_next_index n))) \<and>
    gc_idle (rn_group_wal n') \<and> rn_next_index n' = rn_next_index n + 1 \<and>
    rn_memtable n' = foldl mt_apply (rn_memtable n) es \<and>
    gc_wal (rn_group_wal n') = wal_append_batch_sync xxh (gc_wal (rn_group_wal n)) es"
proof -
  let ?n1 = "n\<lparr>rn_next_index := rn_next_index n + 1\<rparr>"
  let ?req = "if length es = 1 then ReqSubmit (hd es) else ReqBatch es"
  have req: "?req = ReqSubmit (hd es) \<or> ?req = ReqBatch es" by simp
  have es: "request_entries ?req = es" using assms(3) by (cases es) auto
  have nm: "\<not> is_meta command" using assms(2) by (cases command) auto
  obtain g where g: "rn_submit xxh None ?req ?n1 =
      (?n1\<lparr>rn_group_wal := g, rn_memtable := foldl mt_apply (rn_memtable ?n1) es,
         rn_last_applied := foldl (\<lambda>a e. max a (e_seq e)) (rn_last_applied ?n1) es\<rparr>, Some (Inr ()))"
    "gc_idle g" "gc_wal g = wal_append_batch_sync xxh (gc_wal (rn_group_wal ?n1)) es"
    using rn_submit_ok [of ?n1 ?req "hd es" es xxh] assms(1,3) req es by auto
  show ?thesis using g assms(2) nm by (simp add: rn_propose_def Let_def split del: if_split)
qed

lemma rn_propose_durable_and_visible_witness:
  "\<forall>(xxh :: bytes \<Rightarrow> u64) (w :: disk_file). \<exists>n'. rn_propose xxh None (CmdPut [1] [2]) (rn_new w mt_new 1) = (n', Some (Inr 1)) \<and>
    mt_get (rn_memtable n') [1] = Some [2]"
    (is "\<forall>xxh w. ?P xxh w")
proof (intro allI)
  fix xxh :: "bytes \<Rightarrow> u64" and w :: disk_file
  let ?n = "rn_new w mt_new 1"
  have "mt_get (foldl mt_apply mt_new [entry_put [1] [2] 1]) [1] = Some [2]" by code_simp
  with rn_propose_durable_and_visible [of ?n "CmdPut [1] [2]" "[entry_put [1] [2] 1]" xxh] show "?P xxh w"
    by (auto simp: rn_new_def gc_idle_def gc_start_def)
qed

text \<open>
  The node's applied index follows commit timestamps, not log indices: delivering a 2PC
  commit with timestamp 100 at index 1 moves it to 100, and the committed put at index 2 is then
  silently dropped, although the call reports success.
\<close>

theorem rn_apply_committed_drops_after_txn_commit:
  fixes xxh :: "bytes \<Rightarrow> u64" and w :: disk_file
  shows "\<exists>n1 n2 r. rn_apply_committed xxh (\<lambda>_. None) [\<lparr>ce_index = 1, ce_command = CmdTxnCommit 7 100 [([1], Some [2])]\<rparr>]
      (rn_new w mt_new 1) = (n1, Some (Inr r)) \<and> rn_last_applied n1 = 100 \<and>
    rn_apply_committed xxh (\<lambda>_. None) [\<lparr>ce_index = 2, ce_command = CmdPut [3] [4]\<rparr>] n1 =
      (n2, Some (Inr \<lparr>br_applied = 0, br_last_applied = 100\<rparr>)) \<and>
    mt_get (rn_memtable n2) [3] = None"
proof -
  let ?n = "rn_new w mt_new 1" and ?es = "[entry_put [1] [2] 100]"
  have "gc_idle (rn_group_wal ?n)" by (simp add: rn_new_def gc_idle_def gc_start_def)
  from rn_submit_ok [OF this, of "ReqBatch ?es" _ ?es xxh] obtain g where
    g: "rn_submit xxh None (ReqBatch ?es) ?n =
      (?n\<lparr>rn_group_wal := g, rn_memtable := foldl mt_apply mt_new ?es, rn_last_applied := 100\<rparr>, Some (Inr ()))"
    by (auto simp: rn_new_def sat_sub_def)
  let ?n1 = "?n\<lparr>rn_group_wal := g, rn_memtable := foldl mt_apply mt_new ?es, rn_last_applied := 100\<rparr>"
  have la: "rn_last_applied ?n = 0" by (simp add: rn_new_def sat_sub_def)
  have 1: "rn_apply_committed xxh (\<lambda>_. None) [\<lparr>ce_index = 1, ce_command = CmdTxnCommit 7 100 [([1], Some [2])]\<rparr>] ?n =
      (?n1, Some (Inr \<lparr>br_applied = 1, br_last_applied = 100\<rparr>))"
    by (simp add: rn_apply_committed_def la g op_entry_def)
  have 2: "rn_apply_committed xxh (\<lambda>_. None) [\<lparr>ce_index = 2, ce_command = CmdPut [3] [4]\<rparr>] ?n1 =
      (?n1, Some (Inr \<lparr>br_applied = 0, br_last_applied = 100\<rparr>))"
    by (simp add: rn_apply_committed_def)
  have "mt_get (foldl mt_apply mt_new ?es) [3] = None" by code_simp
  with 1 2 show ?thesis by (intro exI [of _ ?n1]) auto
qed

end
