(* ===== verification/Lsm_Engine.thy ===== *)
theory Lsm_Engine
  imports Sst_Manager Raft_Node Snapshot_Codec
begin

text \<open>
  The engine's storage path (\<open>engine.rs\<close>, \<open>compaction.rs\<close>): point reads over the memtable and the
  levels, flushing the memtable into level 0, running a compaction plan, recovering the tables of
  a directory and installing a snapshot. A read takes no lock: it looks at the catalog and the
  registry once per level and once per table, and other threads work in between. \<open>obs n\<close> is the
  catalog at the read's \<open>n\<close>-th look.
\<close>

section \<open>Point reads\<close>

definition newer_of :: "entry option \<Rightarrow> entry option \<Rightarrow> entry option" where
  "newer_of best found =
     (case found of
        None \<Rightarrow> best
      | Some e \<Rightarrow> (case best of Some b \<Rightarrow> if e_seq e \<le> e_seq b then best else found | None \<Rightarrow> found))"

fun probe_files ::
  "(bytes \<Rightarrow> u64) \<Rightarrow> (sst_reader \<Rightarrow> page_source) \<Rightarrow> (nat \<Rightarrow> sst_manager) \<Rightarrow> key \<Rightarrow> commit_ts \<Rightarrow> nat \<Rightarrow>
   sst_meta list \<Rightarrow> nat \<Rightarrow> entry option \<Rightarrow> (entry option \<times> nat) result"
where
  "probe_files xxh pools obs k ts level [] n best = Inr (best, n)"
| "probe_files xxh pools obs k ts level (f # fs) n best =
     (if 0 < level \<and> (k < fm_smallest f \<or> fm_largest f < k) then probe_files xxh pools obs k ts level fs n best
      else
        case rg_active (mg_registry (obs n)) (fm_id f) of
          None \<Rightarrow> probe_files xxh pools obs k ts level fs (Suc n) best
        | Some h \<Rightarrow>
            rbind (get_entry_at xxh (pools (sh_reader h)) (sh_reader h) k ts) (\<lambda>e.
              probe_files xxh pools obs k ts level fs (Suc n) (newer_of best e)))"

text \<open>Level 0 is searched from the newest file on.\<close>

definition probe_order :: "nat \<Rightarrow> sst_meta list \<Rightarrow> sst_meta list" where
  "probe_order level files = (if level = 0 then rev (sort_key fm_id files) else files)"

primrec probe_levels ::
  "(bytes \<Rightarrow> u64) \<Rightarrow> (sst_reader \<Rightarrow> page_source) \<Rightarrow> (nat \<Rightarrow> sst_manager) \<Rightarrow> key \<Rightarrow> commit_ts \<Rightarrow> nat list \<Rightarrow>
   nat \<Rightarrow> entry option \<Rightarrow> entry option result"
where
  "probe_levels xxh pools obs k ts [] n best = Inr best"
| "probe_levels xxh pools obs k ts (l # ls) n best =
     rbind (probe_files xxh pools obs k ts l (probe_order l (level_files (obs n) l)) (Suc n) best)
       (\<lambda>(best, n). probe_levels xxh pools obs k ts ls n best)"

definition lsm_get_at ::
  "(bytes \<Rightarrow> u64) \<Rightarrow> (sst_reader \<Rightarrow> page_source) \<Rightarrow> memtable \<Rightarrow> (nat \<Rightarrow> sst_manager) \<Rightarrow> key \<Rightarrow> commit_ts \<Rightarrow> entry option result"
where
  "lsm_get_at xxh pools mem obs k ts =
     probe_levels xxh pools obs k ts [0 ..< length (mg_levels (obs 0))] 1 (mt_get_at mem k ts)"

text \<open>The value and the timestamp it was written at, 0 for an absent key.\<close>

definition get_at_with_ts ::
  "(bytes \<Rightarrow> u64) \<Rightarrow> (sst_reader \<Rightarrow> page_source) \<Rightarrow> memtable \<Rightarrow> (nat \<Rightarrow> sst_manager) \<Rightarrow> key \<Rightarrow> commit_ts \<Rightarrow> (val option \<times> commit_ts) result"
where
  "get_at_with_ts xxh pools mem obs k ts =
     rbind (lsm_get_at xxh pools mem obs k ts) (\<lambda>best.
       Inr (case best of None \<Rightarrow> (None, 0) | Some e \<Rightarrow> (if e_tombstone e then None else e_value e, e_seq e)))"

section \<open>Flush\<close>

text \<open>
  \<open>sst_path\<close> names the file of a table, \<open>tmp\<close> tells whether a stale temporary file is in the way of
  writing it.
\<close>

type_synonym sst_paths = "nat \<Rightarrow> sst_id \<Rightarrow> path"

definition write_table ::
  "(bytes \<Rightarrow> u64) \<Rightarrow> sst_paths \<Rightarrow> (sst_id \<Rightarrow> bool) \<Rightarrow> nat \<Rightarrow> sst_id \<Rightarrow> entry list \<Rightarrow> sst_manager \<Rightarrow> sst_meta result \<times> sst_manager"
where
  "write_table xxh sst_path tmp level i es m =
     (case sst_write xxh (tmp i) es (mg_block_size m) of
        Inl e \<Rightarrow> (Inl e, m)
      | Inr bs \<Rightarrow>
          let p = sst_path level i; rg = mg_registry m;
              m = m\<lparr>mg_registry := rg\<lparr>rg_fs := (rg_fs rg)(p \<mapsto> bs)\<rparr>\<rparr>
          in (meta_from_info level
                \<lparr>in_id = i, in_path = p, in_entry_count = word_of_nat (length es), in_file_size = word_of_nat (length bs)\<rparr>
                (e_key (hd es)) (e_key (last es)), m))"

primrec flush_slices ::
  "(bytes \<Rightarrow> u64) \<Rightarrow> object_put \<Rightarrow> sst_paths \<Rightarrow> (sst_id \<Rightarrow> bool) \<Rightarrow> entry list list \<Rightarrow> sst_manager \<Rightarrow> unit result \<times> sst_manager"
where
  "flush_slices xxh put sst_path tmp [] m = (Inr (), m)"
| "flush_slices xxh put sst_path tmp (s # ss) m =
     (let (i, m) = allocate_sst_id m in
      case write_table xxh sst_path tmp 0 i s m of
        (Inl e, m) \<Rightarrow> (Inl e, m)
      | (Inr f, m) \<Rightarrow>
          (case add_sst xxh put f m of
             (Inl e, m) \<Rightarrow> (Inl e, m)
           | (Inr _, m) \<Rightarrow> flush_slices xxh put sst_path tmp ss m))"

text \<open>
  \<open>flush_node\<close> drains the memtable in one step and adds the tables afterwards; rotating the
  write-ahead log follows.
\<close>

definition flush_node ::
  "(bytes \<Rightarrow> u64) \<Rightarrow> object_put \<Rightarrow> sst_paths \<Rightarrow> (sst_id \<Rightarrow> bool) \<Rightarrow> memtable \<Rightarrow> sst_manager \<Rightarrow>
   unit result \<times> memtable \<times> sst_manager"
where
  "flush_node xxh put sst_path tmp mem m =
     (if mt_is_empty mem then (Inr (), mem, m)
      else
        let (mem, es) = mt_drain_entries mem;
            (r, m) = flush_slices xxh put sst_path tmp (split_entries_by_max_bytes es (mg_max_sst_bytes m)) m
        in (r, mem, m))"

section \<open>Running a plan\<close>

record compaction_result =
  cr_outputs :: "sst_meta list"
  cr_input_ids :: "sst_id list"
  cr_deferred_deletes :: "sst_id list"

primrec pin_inputs :: "sst_meta list \<Rightarrow> registry \<Rightarrow> sst_handle list result \<times> registry" where
  "pin_inputs [] rg = (Inr [], rg)"
| "pin_inputs (f # fs) rg =
     (case rg_pin (fm_id f) rg of
        (None, rg) \<Rightarrow> (Inl (Compaction ''SST could not be pinned''), rg)
      | (Some h, rg) \<Rightarrow>
          (case pin_inputs fs rg of
             (Inl e, rg) \<Rightarrow> (Inl e, pin_drop h rg)
           | (Inr hs, rg) \<Rightarrow> (Inr (h # hs), rg)))"

definition drop_pins :: "sst_handle list \<Rightarrow> registry \<Rightarrow> registry" where
  "drop_pins hs rg = foldl (\<lambda>rg h. pin_drop h rg) rg hs"

definition remove_file :: "path \<Rightarrow> registry \<Rightarrow> registry" where
  "remove_file p rg = rg\<lparr>rg_fs := (rg_fs rg)(p := None)\<rparr>"

text \<open>
  The loop over the slices. A failed registration removes the new file, a failed upload retires
  the new table, and both retire the tables before it; a failed write keeps those.
\<close>

fun build_outputs ::
  "(bytes \<Rightarrow> u64) \<Rightarrow> object_put \<Rightarrow> (sst_id \<Rightarrow> io_error option) \<Rightarrow> sst_paths \<Rightarrow> (sst_id \<Rightarrow> bool) \<Rightarrow> plan \<Rightarrow>
   entry list list \<Rightarrow> bool \<Rightarrow> sst_meta list \<Rightarrow> sst_manager \<Rightarrow> sst_meta list result \<times> sst_manager"
where
  "build_outputs xxh put unl sst_path tmp pl [] first outs m = (Inr outs, m)"
| "build_outputs xxh put unl sst_path tmp pl (s # ss) first outs m =
     (let (i, m) = (if first then (pl_output_id pl, m) else allocate_sst_id m) in
      case write_table xxh sst_path tmp (pl_output_level pl) i s m of
        (Inl e, m) \<Rightarrow> (Inl e, m)
      | (Inr f, m) \<Rightarrow>
          (case rg_register xxh (fm_id f) (fm_path f) (mg_registry m) of
             (Inl e, rg) \<Rightarrow> (Inl e, m\<lparr>mg_registry := retire_all unl (map fm_id outs) (remove_file (fm_path f) rg)\<rparr>)
           | (Inr _, rg) \<Rightarrow>
               let m = m\<lparr>mg_registry := rg\<rparr> in
               case upload_sst put f m of
                 Inl e \<Rightarrow> (Inl e, m\<lparr>mg_registry := retire_all unl (fm_id f # map fm_id outs) rg\<rparr>)
               | Inr _ \<Rightarrow> build_outputs xxh put unl sst_path tmp pl ss False (outs @ [f]) m))"

fun retire_inputs :: "(sst_id \<Rightarrow> io_error option) \<Rightarrow> sst_id list \<Rightarrow> registry \<Rightarrow> sst_id list result \<times> registry" where
  "retire_inputs unl [] rg = (Inr [], rg)"
| "retire_inputs unl (i # is) rg =
     (case rg_retire (unl i) i rg of
        (Inl e, rg) \<Rightarrow> (Inl e, rg)
      | (Inr st, rg) \<Rightarrow>
          (case retire_inputs unl is rg of
             (Inl e, rg) \<Rightarrow> (Inl e, rg)
           | (Inr ds, rg) \<Rightarrow> (Inr (if st = Deferred then i # ds else ds), rg)))"

text \<open>\<open>None\<close> is a merge that does not return.\<close>

definition execute_plan ::
  "(bytes \<Rightarrow> u64) \<Rightarrow> (sst_reader \<Rightarrow> page_source) \<Rightarrow> object_put \<Rightarrow> (sst_id \<Rightarrow> io_error option) \<Rightarrow> sst_paths \<Rightarrow>
   (sst_id \<Rightarrow> bool) \<Rightarrow> plan \<Rightarrow> sst_manager \<Rightarrow> (compaction_result result \<times> sst_manager) option"
where
  "execute_plan xxh pools put unl sst_path tmp pl m =
     (case pin_inputs (pl_inputs pl) (mg_registry m) of
        (Inl e, rg) \<Rightarrow> Some (Inl e, m\<lparr>mg_registry := rg\<rparr>)
      | (Inr hs, rg) \<Rightarrow>
          let m = m\<lparr>mg_registry := rg\<rparr>;
              unpin = (\<lambda>m. m\<lparr>mg_registry := drop_pins hs (mg_registry m)\<rparr>)
          in case kway_merge (cursor_next xxh pools) (map (cursor_new \<circ> sh_reader) hs) (mg_watermark m) of
               None \<Rightarrow> None
             | Some (Inl e) \<Rightarrow> Some (Inl e, unpin m)
             | Some (Inr merged) \<Rightarrow>
                 if merged = [] then Some (Inl (Compaction ''compaction produced an empty output''), unpin m)
                 else
                   (case build_outputs xxh put unl sst_path tmp pl
                       (split_entries_by_max_bytes merged (mg_max_sst_bytes m)) True [] m of
                      (Inl e, m) \<Rightarrow> Some (Inl e, unpin m)
                    | (Inr outs, m) \<Rightarrow>
                        (case install_outputs pl outs m of
                           (Inl e, m) \<Rightarrow>
                             Some (Inl e, unpin (m\<lparr>mg_registry := retire_all unl (map fm_id outs) (mg_registry m)\<rparr>))
                         | (Inr _, m) \<Rightarrow>
                             let m = unpin m; ids = map fm_id (pl_inputs pl) in
                             case retire_inputs unl ids (mg_registry m) of
                               (Inl e, rg) \<Rightarrow> Some (Inl e, m\<lparr>mg_registry := rg\<rparr>)
                             | (Inr ds, rg) \<Rightarrow>
                                 Some (Inr \<lparr>cr_outputs = outs, cr_input_ids = ids, cr_deferred_deletes = ds\<rparr>,
                                       m\<lparr>mg_registry := rg\<rparr>))))"

section \<open>Recovery and snapshots\<close>

text \<open>\<open>recover_existing_ssts\<close>: per level the ids of the directory's tables, in ascending order.\<close>

primrec recover_level ::
  "(bytes \<Rightarrow> u64) \<Rightarrow> (sst_reader \<Rightarrow> page_source) \<Rightarrow> sst_paths \<Rightarrow> nat \<Rightarrow> sst_id list \<Rightarrow> sst_manager \<Rightarrow> unit result \<times> sst_manager"
where
  "recover_level xxh pools sst_path level [] m = (Inr (), m)"
| "recover_level xxh pools sst_path level (i # is) m =
     (case recover_sst_file xxh pools level i (sst_path level i) m of
        (Inl e, m) \<Rightarrow> (Inl e, m)
      | (Inr _, m) \<Rightarrow> recover_level xxh pools sst_path level is m)"

primrec recover_levels ::
  "(bytes \<Rightarrow> u64) \<Rightarrow> (sst_reader \<Rightarrow> page_source) \<Rightarrow> sst_paths \<Rightarrow> (nat \<Rightarrow> sst_id list) \<Rightarrow> nat list \<Rightarrow> sst_manager \<Rightarrow> unit result \<times> sst_manager"
where
  "recover_levels xxh pools sst_path dir [] m = (Inr (), m)"
| "recover_levels xxh pools sst_path dir (l # ls) m =
     (case recover_level xxh pools sst_path l (sort (dir l)) m of
        (Inl e, m) \<Rightarrow> (Inl e, m)
      | (Inr _, m) \<Rightarrow> recover_levels xxh pools sst_path dir ls m)"

definition recover_existing_ssts ::
  "(bytes \<Rightarrow> u64) \<Rightarrow> (sst_reader \<Rightarrow> page_source) \<Rightarrow> sst_paths \<Rightarrow> (nat \<Rightarrow> sst_id list) \<Rightarrow> sst_manager \<Rightarrow> unit result \<times> sst_manager"
where
  "recover_existing_ssts xxh pools sst_path dir m =
     recover_levels xxh pools sst_path dir [0 ..< length (mg_levels m)] m"

text \<open>
  \<open>install_sst_snapshot\<close>: the tables of the payload are written under the names the local tables
  use, then the catalog is replaced. Rotating the write-ahead log follows.
\<close>

definition snapshot_metas :: "sst_paths \<Rightarrow> snapshot_sst list \<Rightarrow> sst_meta list" where
  "snapshot_metas sst_path fs =
     map (\<lambda>s. \<lparr>fm_id = ss_id s, fm_level = ss_level s, fm_path = sst_path (ss_level s) (ss_id s),
               fm_smallest = ss_smallest s, fm_largest = ss_largest s, fm_file_size = word_of_nat (length (ss_data s))\<rparr>) fs"

definition write_snapshot_files :: "sst_paths \<Rightarrow> snapshot_sst list \<Rightarrow> registry \<Rightarrow> registry" where
  "write_snapshot_files sst_path fs rg =
     foldl (\<lambda>rg s. rg\<lparr>rg_fs := (rg_fs rg)(sst_path (ss_level s) (ss_id s) \<mapsto> ss_data s)\<rparr>) rg fs"

definition install_sst_snapshot ::
  "(bytes \<Rightarrow> u64) \<Rightarrow> object_put \<Rightarrow> (sst_id \<Rightarrow> io_error option) \<Rightarrow> sst_paths \<Rightarrow> bytes \<Rightarrow> u64 \<Rightarrow> u64 \<Rightarrow>
   raft_node \<Rightarrow> sst_manager \<Rightarrow> membership result \<times> raft_node \<times> sst_manager"
where
  "install_sst_snapshot xxh put unl sst_path data last_index last_term n m =
     (case payload_decode data of
        Inl e \<Rightarrow> (Inl e, n, m)
      | Inr payload \<Rightarrow>
          if sp_last_included_index payload \<noteq> last_index \<or> sp_last_included_term payload \<noteq> last_term
          then (Inl (Raft ''snapshot metadata mismatch with InstallSnapshot RPC''), n, m)
          else
            let n = n\<lparr>rn_memtable := mt_clear (rn_memtable n)\<rparr>;
                m = m\<lparr>mg_registry := write_snapshot_files sst_path (sp_files payload) (mg_registry m)\<rparr>
            in case replace_all xxh put unl (snapshot_metas sst_path (sp_files payload)) m of
                 (Inl e, m) \<Rightarrow> (Inl e, n, m)
               | (Inr _, m) \<Rightarrow> (Inr (sp_membership payload), rn_set_last_applied last_index n, m))"

end
