(* ===== verification/Compaction_Safety.thy ===== *)
theory Compaction_Safety
  imports Sst_Manager
begin

text \<open>
  Compactions that run at the same time: between the pick of a plan and its installation other
  threads flush tables, pick, abort and install. The levels below level 0 stay disjoint, plans
  in flight never share an input, and installing a plan never fails.
\<close>

section \<open>Key ranges\<close>

definition file_range :: "sst_meta \<Rightarrow> key set" where
  "file_range f = {x. fm_smallest f \<le> x \<and> x \<le> fm_largest f}"

definition pl_range :: "sst_meta list \<Rightarrow> key set" where
  "pl_range fs = (\<Union>f \<in> set fs. file_range f)"

definition key_convex :: "key set \<Rightarrow> bool" where
  "key_convex R \<longleftrightarrow> (\<forall>x \<in> R. \<forall>z \<in> R. \<forall>y. x \<le> y \<longrightarrow> y \<le> z \<longrightarrow> y \<in> R)"

definition file_ok :: "sst_meta \<Rightarrow> bool" where
  "file_ok f \<longleftrightarrow> fm_smallest f \<le> fm_largest f"

lemma overlaps_range:
  assumes "lo \<le> hi" "file_ok f"
  shows "overlaps f lo hi \<longleftrightarrow> file_range f \<inter> {x. lo \<le> x \<and> x \<le> hi} \<noteq> {}"
proof
  assume "overlaps f lo hi"
  then have "max lo (fm_smallest f) \<in> file_range f \<inter> {x. lo \<le> x \<and> x \<le> hi}"
    using assms by (auto simp: overlaps_def file_range_def file_ok_def max_def)
  then show "file_range f \<inter> {x. lo \<le> x \<and> x \<le> hi} \<noteq> {}" by blast
qed (auto simp: overlaps_def file_range_def)

lemma overlaps_files:
  "file_ok f \<Longrightarrow> file_ok g \<Longrightarrow> overlaps f (fm_smallest g) (fm_largest g) \<longleftrightarrow> file_range f \<inter> file_range g \<noteq> {}"
  using overlaps_range [of "fm_smallest g" "fm_largest g" f] by (simp add: file_ok_def file_range_def)

text \<open>A selection and its range: the files cover the interval, and lie in it.\<close>

definition covers :: "sst_meta list \<Rightarrow> key \<Rightarrow> key \<Rightarrow> bool" where
  "covers sel lo hi \<longleftrightarrow> lo \<le> hi \<and> pl_range sel = {x. lo \<le> x \<and> x \<le> hi}"

lemma covers_single: "file_ok c \<Longrightarrow> covers [c] (fm_smallest c) (fm_largest c)"
  by (auto simp: covers_def pl_range_def file_range_def file_ok_def)

lemma interval_un:
  fixes lo hi s l :: "'a :: linorder"
  assumes "s \<le> l" "s \<le> hi" "lo \<le> l" "lo \<le> hi"
  shows "{x. lo \<le> x \<and> x \<le> hi} \<union> {x. s \<le> x \<and> x \<le> l} = {x. min lo s \<le> x \<and> x \<le> max hi l}"
proof (intro set_eqI)
  fix x show "x \<in> {x. lo \<le> x \<and> x \<le> hi} \<union> {x. s \<le> x \<and> x \<le> l} \<longleftrightarrow> x \<in> {x. min lo s \<le> x \<and> x \<le> max hi l}"
    using assms linear [of lo x] linear [of x hi] order.trans [of x lo l] order.trans [of s hi x]
    by (simp add: min_le_iff_disj le_max_iff_disj) blast
qed
lemma covers_extend:
  assumes "covers sel lo hi" "file_ok f" "overlaps f lo hi"
  shows "covers (sel @ [f]) (min lo (fm_smallest f)) (max hi (fm_largest f))"
proof -
  have f: "fm_smallest f \<le> fm_largest f" "fm_smallest f \<le> hi" "lo \<le> fm_largest f" "lo \<le> hi"
    using assms by (simp_all add: file_ok_def overlaps_def covers_def)
  have "pl_range (sel @ [f]) = {x. lo \<le> x \<and> x \<le> hi} \<union> file_range f"
    using assms(1) by (auto simp: covers_def pl_range_def)
  also have "\<dots> = {x. min lo (fm_smallest f) \<le> x \<and> x \<le> max hi (fm_largest f)}"
    unfolding file_range_def by (rule interval_un [OF f])
  finally show ?thesis using f(4) by (simp add: covers_def min_le_iff_disj le_max_iff_disj)
qed

lemma covers_convex: "covers sel lo hi \<Longrightarrow> key_convex (pl_range sel)"
  unfolding covers_def key_convex_def by (metis (mono_tags, lifting) mem_Collect_eq order.trans)

section \<open>The overlap closure\<close>

lemma closure_pass_spec:
  assumes "closure_pass reserved fs (sel, lo, hi, changed) = Some (sel', lo', hi', changed')"
    and "\<forall>f \<in> set fs. file_ok f" "covers sel lo hi" "\<forall>f \<in> set sel. fm_id f \<notin> reserved"
  shows "covers sel' lo' hi'" "\<forall>f \<in> set sel'. fm_id f \<notin> reserved" "set sel' \<subseteq> set sel \<union> set fs" "set sel \<subseteq> set sel'"
    "\<not> changed' \<Longrightarrow> lo' = lo \<and> hi' = hi \<and> sel' = sel \<and> (\<forall>f \<in> set fs. fm_id f \<in> fm_id ` set sel \<or> \<not> overlaps f lo hi)"
proof -
  have "covers sel' lo' hi' \<and> (\<forall>f \<in> set sel'. fm_id f \<notin> reserved) \<and> set sel' \<subseteq> set sel \<union> set fs \<and> set sel \<subseteq> set sel' \<and>
    (\<not> changed' \<longrightarrow> lo' = lo \<and> hi' = hi \<and> sel' = sel \<and> \<not> changed \<and>
       (\<forall>f \<in> set fs. fm_id f \<in> fm_id ` set sel \<or> \<not> overlaps f lo hi))"
    using assms
  proof (induction fs arbitrary: sel lo hi changed)
    case (Cons f fs)
    show ?case
    proof (cases "fm_id f \<notin> fm_id ` set sel \<and> overlaps f lo hi")
      case True
      then have nr: "fm_id f \<notin> reserved" and rec: "closure_pass reserved fs
          (sel @ [f], min lo (fm_smallest f), max hi (fm_largest f), True) = Some (sel', lo', hi', changed')"
        using Cons.prems(1) by (auto split: if_splits)
      have cov: "covers (sel @ [f]) (min lo (fm_smallest f)) (max hi (fm_largest f))"
        by (rule covers_extend [OF Cons.prems(3)]) (use Cons.prems(2) True in auto)
      have ok: "\<forall>f \<in> set fs. file_ok f" "\<forall>g \<in> set (sel @ [f]). fm_id g \<notin> reserved"
        using Cons.prems(2,4) nr by auto
      show ?thesis using Cons.IH [OF rec ok(1) cov ok(2)] by auto
    next
      case False
      then have rec: "closure_pass reserved fs (sel, lo, hi, changed) = Some (sel', lo', hi', changed')"
        using Cons.prems(1) by (auto split: if_splits)
      have ok: "\<forall>f \<in> set fs. file_ok f" using Cons.prems(2) by simp
      show ?thesis using Cons.IH [OF rec ok Cons.prems(3,4)] False by auto
    qed
  qed simp
  then show "covers sel' lo' hi'" "\<forall>f \<in> set sel'. fm_id f \<notin> reserved" "set sel' \<subseteq> set sel \<union> set fs" "set sel \<subseteq> set sel'"
    "\<not> changed' \<Longrightarrow> lo' = lo \<and> hi' = hi \<and> sel' = sel \<and> (\<forall>f \<in> set fs. fm_id f \<in> fm_id ` set sel \<or> \<not> overlaps f lo hi)"
    by blast+
qed

lemma closure_loop_spec:
  assumes "closure_loop reserved files sel lo hi = Some (sel', lo', hi')"
    and "\<forall>f \<in> set files. file_ok f" "covers sel lo hi" "\<forall>f \<in> set sel. fm_id f \<notin> reserved" "set sel \<subseteq> set files"
  shows "covers sel' lo' hi' \<and> (\<forall>f \<in> set sel'. fm_id f \<notin> reserved) \<and> set sel' \<subseteq> set files \<and> set sel \<subseteq> set sel' \<and>
    (\<forall>f \<in> set files. fm_id f \<in> fm_id ` set sel' \<or> \<not> overlaps f lo' hi')"
  using assms
proof (induction reserved files sel lo hi rule: closure_loop.induct)
  case (1 reserved files sel lo hi)
  obtain sel1 lo1 hi1 changed where p: "closure_pass reserved files (sel, lo, hi, False) = Some (sel1, lo1, hi1, changed)"
    using 1(2) by (subst (asm) closure_loop.simps) (auto split: option.splits)
  note P = closure_pass_spec [OF p 1(3-5)]
  show ?case
  proof (cases changed)
    case True
    then have rec: "closure_loop reserved files sel1 lo1 hi1 = Some (sel', lo', hi')"
      using 1(2) p by (subst (asm) closure_loop.simps) simp
    have sub: "set sel1 \<subseteq> set files" using P(3) 1(6) by blast
    show ?thesis using 1(1) [OF p refl refl refl True rec 1(3) P(1,2) sub] P(4) by blast
  next
    case False
    then have eq: "sel' = sel1" "lo' = lo1" "hi' = hi1" using 1(2) p by (simp_all add: closure_loop.simps [of reserved files sel])
    show ?thesis unfolding eq using P(1-4) P(5) [OF False] 1(6) by blast
  qed
qed

section \<open>Plans in flight\<close>

definition levels_ok :: "sst_manager \<Rightarrow> bool" where
  "levels_ok m \<longleftrightarrow>
     inj_on fm_id (set (all_files m)) \<and>
     (\<forall>l < length (mg_levels m). distinct (mg_levels m ! l) \<and> (\<forall>f \<in> set (mg_levels m ! l). fm_level f = l \<and> file_ok f)) \<and>
     (\<forall>l < length (mg_levels m). 0 < l \<longrightarrow>
        (\<forall>f \<in> set (mg_levels m ! l). \<forall>g \<in> set (mg_levels m ! l). f \<noteq> g \<longrightarrow> file_range f \<inter> file_range g = {}))"

definition plan_ok :: "sst_manager \<Rightarrow> plan \<Rightarrow> bool" where
  "plan_ok m pl \<longleftrightarrow>
     pl_output_level pl = Suc (pl_source_level pl) \<and> pl_output_level pl < length (mg_levels m) \<and>
     pl_reserved pl = fm_id ` set (pl_inputs pl) \<and>
     set (pl_inputs pl) \<subseteq> set (mg_levels m ! pl_source_level pl) \<union> set (mg_levels m ! pl_output_level pl) \<and>
     key_convex (pl_range (pl_inputs pl)) \<and>
     (\<forall>f \<in> set (mg_levels m ! pl_output_level pl). fm_id f \<notin> pl_reserved pl \<longrightarrow> file_range f \<inter> pl_range (pl_inputs pl) = {})"

definition plans_apart :: "plan \<Rightarrow> plan \<Rightarrow> bool" where
  "plans_apart p q \<longleftrightarrow>
     pl_reserved p \<inter> pl_reserved q = {} \<and>
     (pl_output_level p = pl_output_level q \<longrightarrow> pl_range (pl_inputs p) \<inter> pl_range (pl_inputs q) = {})"

definition cat_inv :: "sst_manager \<Rightarrow> plan list \<Rightarrow> bool" where
  "cat_inv m ps \<longleftrightarrow>
     levels_ok m \<and> (\<forall>pl \<in> set ps. plan_ok m pl) \<and> mg_reserved m = (\<Union>pl \<in> set ps. pl_reserved pl) \<and>
     sorted_wrt plans_apart ps"

lemma levels_okD:
  assumes "levels_ok m"
  shows "f \<in> set (all_files m) \<Longrightarrow> g \<in> set (all_files m) \<Longrightarrow> fm_id f = fm_id g \<Longrightarrow> f = g"
    "l < length (mg_levels m) \<Longrightarrow> f \<in> set (mg_levels m ! l) \<Longrightarrow> fm_level f = l"
    "l < length (mg_levels m) \<Longrightarrow> f \<in> set (mg_levels m ! l) \<Longrightarrow> file_ok f"
    "l < length (mg_levels m) \<Longrightarrow> 0 < l \<Longrightarrow> f \<in> set (mg_levels m ! l) \<Longrightarrow> g \<in> set (mg_levels m ! l) \<Longrightarrow> f \<noteq> g \<Longrightarrow>
       file_range f \<inter> file_range g = {}"
    "l < length (mg_levels m) \<Longrightarrow> distinct (mg_levels m ! l)"
  using assms unfolding levels_ok_def inj_on_def by blast+

lemma levels_ok_cong: "mg_levels m' = mg_levels m \<Longrightarrow> levels_ok m' \<longleftrightarrow> levels_ok m"
  by (simp add: levels_ok_def all_files_def)

lemma plan_ok_cong: "mg_levels m' = mg_levels m \<Longrightarrow> plan_ok m' pl \<longleftrightarrow> plan_ok m pl"
  by (simp add: plan_ok_def)

lemma in_all_files: "f \<in> set (all_files m) \<longleftrightarrow> (\<exists>l < length (mg_levels m). f \<in> set (mg_levels m ! l))"
proof -
  have "f \<in> set (all_files m) \<longleftrightarrow> (\<exists>xs \<in> set (mg_levels m). f \<in> set xs)" by (simp add: all_files_def)
  also have "\<dots> \<longleftrightarrow> (\<exists>l < length (mg_levels m). f \<in> set (mg_levels m ! l))"
    by (metis in_set_conv_nth)
  finally show ?thesis .
qed

lemma select_source_spec:
  assumes "levels_ok m" "s < length (mg_levels m)" "c \<in> set (mg_levels m ! s)" "fm_id c \<notin> mg_reserved m"
    and "select_source s c m = Some (sel, lo, hi)"
  shows "covers sel lo hi" "\<forall>f \<in> set sel. fm_id f \<notin> mg_reserved m" "set sel \<subseteq> set (mg_levels m ! s)"
    "\<And>f. f \<in> set (mg_levels m ! s) \<Longrightarrow> f \<notin> set sel \<Longrightarrow> file_range f \<inter> pl_range sel = {}"
proof -
  have okc: "file_ok c" by (rule levels_okD(3) [OF assms(1-3)])
  have "covers sel lo hi \<and> (\<forall>f \<in> set sel. fm_id f \<notin> mg_reserved m) \<and> set sel \<subseteq> set (mg_levels m ! s) \<and>
      (\<forall>f \<in> set (mg_levels m ! s). f \<notin> set sel \<longrightarrow> file_range f \<inter> pl_range sel = {})"
  proof (cases "s = 0")
    case True
    have ok: "\<forall>f \<in> set (mg_levels m ! 0). file_ok f" using levels_okD(3) [OF assms(1,2)] True by blast
    have sel: "closure_loop (mg_reserved m) (mg_levels m ! 0) [c] (fm_smallest c) (fm_largest c) = Some (sel, lo, hi)"
      using assms(5) True by (simp add: select_source_def)
    have C: "covers sel lo hi" "\<forall>f \<in> set sel. fm_id f \<notin> mg_reserved m" "set sel \<subseteq> set (mg_levels m ! 0)"
      "\<forall>f \<in> set (mg_levels m ! 0). fm_id f \<in> fm_id ` set sel \<or> \<not> overlaps f lo hi"
      using closure_loop_spec [OF sel ok covers_single [OF okc]] assms(3,4) True by auto
    have "file_range f \<inter> pl_range sel = {}" if f: "f \<in> set (mg_levels m ! 0)" "f \<notin> set sel" for f
    proof -
      have "fm_id f \<notin> fm_id ` set sel"
        using levels_okD(1) [OF assms(1), of f] f C(3) assms(2) True by (auto simp: in_all_files)
      then have "\<not> overlaps f lo hi" using C(4) f(1) by blast
      then show ?thesis using overlaps_range [of lo hi f] C(1) ok f(1) by (auto simp: covers_def)
    qed
    then show ?thesis using C True by blast
  next
    case False
    then have sel: "sel = [c]" "lo = fm_smallest c" "hi = fm_largest c" using assms(5) by (simp_all add: select_source_def)
    have "file_range f \<inter> file_range c = {}" if "f \<in> set (mg_levels m ! s)" "f \<noteq> c" for f
      using levels_okD(4) [OF assms(1,2) _ that(1) assms(3) that(2)] False by simp
    then show ?thesis using covers_single [OF okc] assms(3,4) unfolding sel by (simp add: pl_range_def)
  qed
  then show "covers sel lo hi" "\<forall>f \<in> set sel. fm_id f \<notin> mg_reserved m" "set sel \<subseteq> set (mg_levels m ! s)"
    "\<And>f. f \<in> set (mg_levels m ! s) \<Longrightarrow> f \<notin> set sel \<Longrightarrow> file_range f \<inter> pl_range sel = {}"
    by blast+
qed

lemma covers_append:
  assumes "covers sel lo hi" "\<forall>f \<in> set ts. file_ok f \<and> overlaps f lo hi"
  shows "\<exists>lo' hi'. covers (sel @ ts) lo' hi' \<and> lo' \<le> lo \<and> hi \<le> hi'"
  using assms(2)
proof (induction ts rule: rev_induct)
  case Nil
  then show ?case using assms(1) by auto
next
  case (snoc t ts)
  then obtain lo' hi' where c: "covers (sel @ ts) lo' hi'" "lo' \<le> lo" "hi \<le> hi'" by auto
  have "overlaps t lo' hi'" using snoc.prems c(2,3) by (auto simp: overlaps_def)
  then have "covers ((sel @ ts) @ [t]) (min lo' (fm_smallest t)) (max hi' (fm_largest t))"
    using covers_extend [OF c(1)] snoc.prems by simp
  moreover have "min lo' (fm_smallest t) \<le> lo" "hi \<le> max hi' (fm_largest t)"
    using c(2,3) by (auto simp: min_le_iff_disj le_max_iff_disj)
  ultimately show ?case by auto
qed

definition plan_for :: "nat \<Rightarrow> sst_meta list \<Rightarrow> key \<Rightarrow> key \<Rightarrow> sst_manager \<Rightarrow> plan" where
  "plan_for s sel lo hi m =
     (let inputs = sel @ filter (\<lambda>f. overlaps f lo hi) (mg_levels m ! Suc s)
      in \<lparr>pl_source_level = s, pl_output_level = Suc s, pl_inputs = inputs, pl_reserved = fm_id ` set inputs,
          pl_output_id = mg_next_id m\<rparr>)"

lemma pick_loop_Some:
  "pick_loop s cs m = (Some pl, m') \<Longrightarrow>
   \<exists>c \<in> set cs. \<exists>sel lo hi. fm_id c \<notin> mg_reserved m \<and> select_source s c m = Some (sel, lo, hi) \<and>
     (\<forall>f \<in> set (mg_levels m ! Suc s). overlaps f lo hi \<longrightarrow> fm_id f \<notin> mg_reserved m) \<and>
     pl = plan_for s sel lo hi m \<and> m' = m\<lparr>mg_reserved := mg_reserved m \<union> pl_reserved pl, mg_next_id := mg_next_id m + 1\<rparr>"
proof (induction cs)
  case (Cons c cs)
  show ?case
  proof (cases "fm_id c \<notin> mg_reserved m \<and> (\<exists>sel lo hi. select_source s c m = Some (sel, lo, hi) \<and>
      (\<forall>f \<in> set (mg_levels m ! Suc s). overlaps f lo hi \<longrightarrow> fm_id f \<notin> mg_reserved m))")
    case True
    then obtain sel lo hi where T: "fm_id c \<notin> mg_reserved m" "select_source s c m = Some (sel, lo, hi)"
      "\<forall>f \<in> set (mg_levels m ! Suc s). overlaps f lo hi \<longrightarrow> fm_id f \<notin> mg_reserved m" by blast
    then have free: "(\<exists>f \<in> set (filter (\<lambda>f. overlaps f lo hi) (mg_levels m ! Suc s)). fm_id f \<in> mg_reserved m) \<longleftrightarrow> False" by auto
    have "pick_loop s (c # cs) m =
        (Some (plan_for s sel lo hi m), m\<lparr>mg_reserved := mg_reserved m \<union> pl_reserved (plan_for s sel lo hi m), mg_next_id := mg_next_id m + 1\<rparr>)"
      by (simp only: pick_loop.simps T(1,2) if_False option.case prod.case Let_def free) (simp add: plan_for_def image_Un)
    then have "pl = plan_for s sel lo hi m \<and> m' = m\<lparr>mg_reserved := mg_reserved m \<union> pl_reserved pl, mg_next_id := mg_next_id m + 1\<rparr>"
      using Cons.prems by (simp only: prod.inject option.inject)
    then show ?thesis using T by (intro bexI [of _ c]) auto
  next
    case False
    then have "pick_loop s cs m = (Some pl, m')"
      using Cons.prems by (auto simp: Let_def split: if_splits option.splits)
    then show ?thesis using Cons.IH by (simp only: list.set) blast
  qed
qed simp

lemma pick_inv:
  assumes "cat_inv m ps" "pick s m = (Inr (Some pl), m')"
  shows "cat_inv m' (pl # ps)"
proof -
  have lv: "levels_ok m" and plans: "\<forall>p \<in> set ps. plan_ok m p" and res: "mg_reserved m = (\<Union>p \<in> set ps. pl_reserved p)"
    and apart: "sorted_wrt plans_apart ps"
    using assms(1) by (auto simp: cat_inv_def)
  have s: "Suc s < length (mg_levels m)" and pk: "pick_loop s (mg_levels m ! s) m = (Some pl, m')"
    using assms(2) by (auto simp: pick_def map_prod_def split: if_splits prod.splits)
  obtain c sel lo hi where c: "c \<in> set (mg_levels m ! s)" "fm_id c \<notin> mg_reserved m" "select_source s c m = Some (sel, lo, hi)"
    and free: "\<forall>f \<in> set (mg_levels m ! Suc s). overlaps f lo hi \<longrightarrow> fm_id f \<notin> mg_reserved m"
    and pl: "pl = plan_for s sel lo hi m"
    and m': "m' = m\<lparr>mg_reserved := mg_reserved m \<union> pl_reserved pl, mg_next_id := mg_next_id m + 1\<rparr>"
    using pick_loop_Some [OF pk] by blast
  note S = select_source_spec [OF lv Suc_lessD [OF s] c]
  define ts where "ts = filter (\<lambda>f. overlaps f lo hi) (mg_levels m ! Suc s)"
  have inputs: "pl_inputs pl = sel @ ts" "pl_reserved pl = fm_id ` set (sel @ ts)" "pl_output_level pl = Suc s" "pl_source_level pl = s"
    by (simp_all add: pl plan_for_def ts_def Let_def)
  have ok: "file_ok f" if "f \<in> set (mg_levels m ! Suc s)" for f by (rule levels_okD(3) [OF lv s that])
  have far: "file_range f \<inter> pl_range sel = {}" if "f \<in> set (mg_levels m ! Suc s)" "f \<notin> set ts" for f
    using overlaps_range [of lo hi f] ok [OF that(1)] S(1) that by (auto simp: covers_def ts_def)
  have range: "pl_range (pl_inputs pl) = pl_range sel \<union> pl_range ts" by (auto simp: inputs(1) pl_range_def)
  have tsdis: "file_range f \<inter> file_range t = {}" if "f \<in> set (mg_levels m ! Suc s)" "f \<notin> set ts" "t \<in> set ts" for f t
    using levels_okD(4) [OF lv s _ that(1), of t] that by (auto simp: ts_def)
  have new_ok: "plan_ok m pl"
    unfolding plan_ok_def
  proof (intro conjI ballI impI)
    obtain lo' hi' where "covers (sel @ ts) lo' hi'" using covers_append [OF S(1), of ts] ok by (auto simp: ts_def)
    then show "key_convex (pl_range (pl_inputs pl))" unfolding inputs(1) by (rule covers_convex)
    show "set (pl_inputs pl) \<subseteq> set (mg_levels m ! pl_source_level pl) \<union> set (mg_levels m ! pl_output_level pl)"
      using S(3) by (auto simp: inputs ts_def)
    fix f assume f: "f \<in> set (mg_levels m ! pl_output_level pl)" "fm_id f \<notin> pl_reserved pl"
    then have nt: "f \<in> set (mg_levels m ! Suc s)" "f \<notin> set ts" by (auto simp: inputs)
    show "file_range f \<inter> pl_range (pl_inputs pl) = {}"
      unfolding range using far [OF nt] tsdis [OF nt] by (auto simp: pl_range_def)
  qed (use s in \<open>simp_all add: inputs\<close>)
  have new_apart: "plans_apart pl p" if p: "p \<in> set ps" for p
    unfolding plans_apart_def
  proof (intro conjI impI)
    have unres: "fm_id f \<notin> pl_reserved p" if "f \<in> set (sel @ ts)" for f
      using that S(2) free res p by (auto simp: ts_def)
    then show "pl_reserved pl \<inter> pl_reserved p = {}" by (auto simp: inputs(2))
    assume lev: "pl_output_level pl = pl_output_level p"
    have P: "pl_output_level p = Suc s" "pl_source_level p = s" "pl_reserved p = fm_id ` set (pl_inputs p)"
      "set (pl_inputs p) \<subseteq> set (mg_levels m ! s) \<union> set (mg_levels m ! Suc s)"
      "\<forall>f \<in> set (mg_levels m ! Suc s). fm_id f \<notin> pl_reserved p \<longrightarrow> file_range f \<inter> pl_range (pl_inputs p) = {}"
    proof -
      have "plan_ok m p" using plans p by blast
      then show "pl_output_level p = Suc s" "pl_source_level p = s" "pl_reserved p = fm_id ` set (pl_inputs p)"
        "set (pl_inputs p) \<subseteq> set (mg_levels m ! s) \<union> set (mg_levels m ! Suc s)"
        "\<forall>f \<in> set (mg_levels m ! Suc s). fm_id f \<notin> pl_reserved p \<longrightarrow> file_range f \<inter> pl_range (pl_inputs p) = {}"
        using lev inputs(3) unfolding plan_ok_def by auto
    qed
    have "file_range t \<inter> pl_range (pl_inputs p) = {}" if "t \<in> set ts" for t
      using P(5) unres [of t] that by (auto simp: ts_def)
    moreover have "file_range g \<inter> pl_range sel = {}" if g: "g \<in> set (pl_inputs p)" for g
    proof -
      have "g \<notin> set (sel @ ts)" using unres [of g] g P(3) by auto
      then show ?thesis using P(4) g S(4) [of g] far [of g] by auto
    qed
    ultimately show "pl_range (pl_inputs pl) \<inter> pl_range (pl_inputs p) = {}"
      unfolding range by (auto simp: pl_range_def)
  qed
  have same: "mg_levels m' = mg_levels m" by (simp add: m')
  have "levels_ok m'" "\<forall>p \<in> set (pl # ps). plan_ok m' p"
    using lv plans new_ok by (simp_all add: levels_ok_cong [OF same] plan_ok_cong [OF same])
  then show ?thesis using apart new_apart res by (auto simp: cat_inv_def m')
qed

section \<open>Installing\<close>

text \<open>
  What \<open>execute_plan\<close> hands to the installation: tables of the output level with fresh ids, whose
  bounds are keys of the inputs, in order and apart.
\<close>

definition outputs_ok :: "sst_manager \<Rightarrow> plan \<Rightarrow> sst_meta list \<Rightarrow> bool" where
  "outputs_ok m pl outs \<longleftrightarrow>
     outs \<noteq> [] \<and> distinct (map fm_id outs) \<and> fm_id ` set outs \<inter> fm_id ` set (all_files m) = {} \<and>
     (\<forall>f \<in> set outs. fm_level f = pl_output_level pl \<and> file_ok f \<and>
        fm_smallest f \<in> pl_range (pl_inputs pl) \<and> fm_largest f \<in> pl_range (pl_inputs pl)) \<and>
     sorted_wrt (\<lambda>a b. fm_largest a < fm_smallest b) outs"

lemma outputs_in_range:
  "plan_ok m pl \<Longrightarrow> outputs_ok m pl outs \<Longrightarrow> f \<in> set outs \<Longrightarrow> file_range f \<subseteq> pl_range (pl_inputs pl)"
  unfolding outputs_ok_def plan_ok_def key_convex_def file_range_def by blast

lemma outputs_apart:
  "sorted_wrt (\<lambda>a b. fm_largest a < fm_smallest b) outs \<Longrightarrow> \<forall>f \<in> set outs. file_ok f \<Longrightarrow>
   \<not> outputs_overlap outs \<and> (\<forall>f \<in> set outs. \<forall>g \<in> set outs. f \<noteq> g \<longrightarrow> file_range f \<inter> file_range g = {})"
proof (induction outs)
  case (Cons a outs)
  have a: "fm_largest a < fm_smallest b" "file_ok a" "file_ok b" if "b \<in> set outs" for b using Cons.prems that by auto
  have "\<not> overlaps a (fm_smallest b) (fm_largest b)" if "b \<in> set outs" for b
    using a(1) [OF that] by (simp add: overlaps_def not_le)
  moreover from this have "file_range a \<inter> file_range b = {}" if "b \<in> set outs" for b
    using overlaps_files [OF a(2,3)] that by blast
  ultimately show ?case using Cons by auto
qed simp

lemma check_outputs_Inr:
  "\<forall>out \<in> set outs. fm_level out = pl_output_level pl \<and>
     (\<forall>f \<in> set (mg_levels m ! fm_level out). fm_id f \<notin> pl_reserved pl \<longrightarrow> \<not> overlaps f (fm_smallest out) (fm_largest out)) \<Longrightarrow>
   check_outputs pl m outs = Inr ()"
  by (induction outs) auto

lemma install_succeeds:
  assumes "levels_ok m" "plan_ok m pl" "pl_reserved pl \<subseteq> mg_reserved m" "outputs_ok m pl outs"
  shows "fst (install_outputs pl outs m) = Inr ()"
    "mg_levels (snd (install_outputs pl outs m)) = replace_inputs pl outs (mg_levels m)"
    "mg_reserved (snd (install_outputs pl outs m)) = mg_reserved m - pl_reserved pl"
proof -
  have P: "pl_output_level pl = Suc (pl_source_level pl)" "pl_output_level pl < length (mg_levels m)"
    "pl_reserved pl = fm_id ` set (pl_inputs pl)"
    "set (pl_inputs pl) \<subseteq> set (mg_levels m ! pl_source_level pl) \<union> set (mg_levels m ! pl_output_level pl)"
    using assms(2) unfolding plan_ok_def by blast+
  have "set (pl_inputs pl) \<subseteq> set (all_files m)" 
  proof
    fix f assume "f \<in> set (pl_inputs pl)"
    then have "f \<in> set (mg_levels m ! pl_source_level pl) \<or> f \<in> set (mg_levels m ! pl_output_level pl)" using P(4) by blast
    then show "f \<in> set (all_files m)" using in_all_files [of f m] P(1,2) by (metis Suc_lessD)
  qed
  then have present: "fm_id ` {f \<in> set (all_files m). fm_id f \<in> pl_reserved pl} = pl_reserved pl"
    unfolding P(3) by auto
  have O: "\<forall>f \<in> set outs. fm_level f = pl_output_level pl \<and> file_ok f" "outs \<noteq> []"
    "\<not> outputs_overlap outs"
    using assms(4) outputs_apart [of outs] unfolding outputs_ok_def by auto
  have "\<not> overlaps f (fm_smallest out) (fm_largest out)"
    if "out \<in> set outs" "f \<in> set (mg_levels m ! pl_output_level pl)" "fm_id f \<notin> pl_reserved pl" for out f
  proof -
    have "file_range f \<inter> pl_range (pl_inputs pl) = {}" using assms(2) that(2,3) unfolding plan_ok_def by blast
    then have "file_range f \<inter> file_range out = {}" using outputs_in_range [OF assms(2,4) that(1)] by blast
    then show ?thesis
      using overlaps_files [of f out] levels_okD(3) [OF assms(1) P(2) that(2)] O(1) that(1) by blast
  qed
  then have chk: "check_outputs pl m outs = Inr ()" using O(1) by (intro check_outputs_Inr) auto
  show "fst (install_outputs pl outs m) = Inr ()"
    "mg_levels (snd (install_outputs pl outs m)) = replace_inputs pl outs (mg_levels m)"
    "mg_reserved (snd (install_outputs pl outs m)) = mg_reserved m - pl_reserved pl"
    using O assms(3) present chk by (simp_all add: install_outputs_def notify_l0_changed_def Let_def)
qed

lemma set_sort_level [simp]: "set (sort_level l fs) = set fs" "distinct (sort_level l fs) \<longleftrightarrow> distinct fs"
  by (simp_all add: sort_level_def distinct_sort)

lemma replace_inputs_level:
  assumes "l < length levels" "pl_output_level pl < length levels"
  shows "set (replace_inputs pl outs levels ! l) =
    {f \<in> set (levels ! l). fm_id f \<notin> pl_reserved pl} \<union> (if l = pl_output_level pl then set outs else {})"
    "length (replace_inputs pl outs levels) = length levels"
  using assms by (auto simp: replace_inputs_def Let_def nth_list_update)

lemma install_levels_ok:
  assumes "levels_ok m" "plan_ok m pl" "outputs_ok m pl outs" "mg_levels m' = replace_inputs pl outs (mg_levels m)"
  shows "levels_ok m'"
proof -
  let ?o = "pl_output_level pl"
  have o: "?o < length (mg_levels m)" using assms(2) by (simp add: plan_ok_def)
  note lvl = replace_inputs_level [OF _ o, of _ outs]
  have len: "length (mg_levels m') = length (mg_levels m)" using lvl(2) [OF o] assms(4) by simp
  have mem: "f \<in> set (mg_levels m' ! l) \<longleftrightarrow> f \<in> set (mg_levels m ! l) \<and> fm_id f \<notin> pl_reserved pl \<or> l = ?o \<and> f \<in> set outs"
    if "l < length (mg_levels m)" for l f using lvl(1) [OF that] assms(4) by auto
  have O: "distinct (map fm_id outs)" "fm_id ` set outs \<inter> fm_id ` set (all_files m) = {}"
    "\<And>f. f \<in> set outs \<Longrightarrow> fm_level f = ?o \<and> file_ok f"
    "\<And>f g. f \<in> set outs \<Longrightarrow> g \<in> set outs \<Longrightarrow> f \<noteq> g \<Longrightarrow> file_range f \<inter> file_range g = {}"
    using assms(3) outputs_apart [of outs] unfolding outputs_ok_def by auto
  have all: "set (all_files m') \<subseteq> set (all_files m) \<union> set outs"
  proof
    fix f assume "f \<in> set (all_files m')"
    then obtain l where l: "l < length (mg_levels m)" "f \<in> set (mg_levels m' ! l)" using in_all_files [of f m'] len by auto
    then show "f \<in> set (all_files m) \<union> set outs" using mem [OF l(1)] in_all_files [of f m] by blast
  qed
  have "inj_on fm_id (set (all_files m) \<union> set outs)"
    using assms(1) O(1,2) by (auto simp: levels_ok_def inj_on_Un distinct_map)
  then have "inj_on fm_id (set (all_files m'))" by (rule inj_on_subset [OF _ all])
  moreover have "distinct (mg_levels m' ! l)" if "l < length (mg_levels m)" for l
  proof -
    have "distinct (filter (\<lambda>f. fm_id f \<notin> pl_reserved pl) (mg_levels m ! l))"
      using levels_okD(5) [OF assms(1) that] by simp
    moreover have "set (mg_levels m ! l) \<inter> set outs = {}"
    proof -
      have "set (mg_levels m ! l) \<subseteq> set (all_files m)" using in_all_files [of _ m] that by blast
      then show ?thesis using O(2) by blast
    qed
    ultimately show ?thesis
      using that o O(1) unfolding assms(4) by (auto simp: replace_inputs_def Let_def nth_list_update distinct_map)
  qed
  moreover have "fm_level f = l \<and> file_ok f" if "l < length (mg_levels m)" "f \<in> set (mg_levels m' ! l)" for l f
    using that mem O(3) levels_okD(2,3) [OF assms(1)] by blast
  moreover have "file_range f \<inter> file_range g = {}"
    if l: "l < length (mg_levels m)" "0 < l" and fg: "f \<in> set (mg_levels m' ! l)" "g \<in> set (mg_levels m' ! l)" "f \<noteq> g" for l f g
  proof -
    have far: "file_range x \<inter> file_range y = {}"
      if "x \<in> set (mg_levels m ! ?o)" "fm_id x \<notin> pl_reserved pl" "y \<in> set outs" for x y
      using assms(2) that outputs_in_range [OF assms(2,3) that(3)] unfolding plan_ok_def by blast
    show ?thesis
      using fg(1,2) mem [OF l(1)] far O(4) fg(3) levels_okD(4) [OF assms(1) l, of f g] by blast
  qed
  ultimately show ?thesis unfolding levels_ok_def len by blast
qed

lemma install_inv:
  assumes "cat_inv m ps" "pl \<in> set ps" "outputs_ok m pl outs"
  shows "fst (install_outputs pl outs m) = Inr ()" "cat_inv (snd (install_outputs pl outs m)) (remove1 pl ps)"
proof -
  have lv: "levels_ok m" and plans: "\<forall>p \<in> set ps. plan_ok m p" and res: "mg_reserved m = (\<Union>p \<in> set ps. pl_reserved p)"
    and apart: "sorted_wrt plans_apart ps"
    using assms(1) by (auto simp: cat_inv_def)
  have pl: "plan_ok m pl" "pl_reserved pl \<subseteq> mg_reserved m" using plans res assms(2) by auto
  let ?m = "snd (install_outputs pl outs m)"
  note I = install_succeeds [OF lv pl assms(3)]
  show "fst (install_outputs pl outs m) = Inr ()" by (rule I(1))
  have o: "pl_output_level pl < length (mg_levels m)" using pl(1) by (simp add: plan_ok_def)
  obtain as bs where ps: "ps = as @ pl # bs" "pl \<notin> set as" using assms(2) by (meson split_list_first)
  have rest: "remove1 pl ps = as @ bs" using ps by (simp add: remove1_append)
  have sym: "plans_apart p q \<Longrightarrow> plans_apart q p" for p q by (auto simp: plans_apart_def)
  have others: "plans_apart p pl" if "p \<in> set (as @ bs)" for p
    using apart that sym unfolding ps(1) by (auto simp: sorted_wrt_append)
  have "plan_ok ?m p" if p: "p \<in> set (as @ bs)" for p
  proof -
    have pok: "plan_ok m p" using plans p ps(1) by auto
    note A = others [OF p, unfolded plans_apart_def]
    have lens: "length (mg_levels ?m) = length (mg_levels m)" using replace_inputs_level(2) [OF o o] I(2) by simp
    have lvl: "set (mg_levels ?m ! l) = {f \<in> set (mg_levels m ! l). fm_id f \<notin> pl_reserved pl} \<union>
        (if l = pl_output_level pl then set outs else {})" if "l < length (mg_levels m)" for l
      unfolding I(2) by (rule replace_inputs_level(1) [OF that o])
    have plv: "pl_output_level p < length (mg_levels m)" "pl_source_level p < length (mg_levels m)"
      "pl_reserved p = fm_id ` set (pl_inputs p)"
      "set (pl_inputs p) \<subseteq> set (mg_levels m ! pl_source_level p) \<union> set (mg_levels m ! pl_output_level p)"
      using pok unfolding plan_ok_def by auto
    have "fm_id f \<notin> pl_reserved pl" if "f \<in> set (pl_inputs p)" for f using A plv(3) that by auto
    then have "set (pl_inputs p) \<subseteq> set (mg_levels ?m ! pl_source_level p) \<union> set (mg_levels ?m ! pl_output_level p)"
      using plv(4) unfolding lvl [OF plv(1)] lvl [OF plv(2)] by blast
    moreover have "file_range f \<inter> pl_range (pl_inputs p) = {}"
      if f: "f \<in> set (mg_levels ?m ! pl_output_level p)" "fm_id f \<notin> pl_reserved p" for f
    proof (cases "f \<in> set (mg_levels m ! pl_output_level p)")
      case True
      then show ?thesis using pok f(2) unfolding plan_ok_def by blast
    next
      case False
      then have "pl_output_level p = pl_output_level pl" "f \<in> set outs" using f(1) lvl [OF plv(1)] by (auto split: if_splits)
      then show ?thesis using A outputs_in_range [OF pl(1) assms(3), of f] by blast
    qed
    ultimately show ?thesis using pok lens unfolding plan_ok_def by simp
  qed
  moreover have "levels_ok ?m" by (rule install_levels_ok [OF lv pl(1) assms(3) I(2)])
  moreover have "mg_reserved ?m = (\<Union>p \<in> set (as @ bs). pl_reserved p)"
    unfolding I(3) res ps(1) using others by (auto simp: plans_apart_def)
  moreover have "sorted_wrt plans_apart (as @ bs)" using apart unfolding ps(1) by (auto simp: sorted_wrt_append)
  ultimately show "cat_inv ?m (remove1 pl ps)" unfolding cat_inv_def rest by blast
qed

section \<open>Interleavings\<close>

lemma insert_file_levels: "mg_levels (insert_file f m) = (mg_levels m)[fm_level f := sort_level (fm_level f) (mg_levels m ! fm_level f @ [f])]"
  by (simp add: insert_file_def notify_l0_changed_def Let_def)

lemma add_sst_cases:
  obtains "mg_levels (snd (add_sst xxh put f m)) = mg_levels m" "mg_reserved (snd (add_sst xxh put f m)) = mg_reserved m"
  | "check_new_file f m = Inr ()" "mg_reserved (snd (add_sst xxh put f m)) = mg_reserved m"
    "mg_levels (snd (add_sst xxh put f m)) = (mg_levels m)[fm_level f := sort_level (fm_level f) (mg_levels m ! fm_level f @ [f])]"
proof (cases "upload_sst put f m")
  case (Inl e)
  then show thesis using that(1) by (simp add: add_sst_def)
next
  case up: (Inr u)
  show thesis
  proof (cases "check_new_file f m")
    case (Inl e)
    then show thesis using that(1) up by (simp add: add_sst_def)
  next
    case (Inr v)
    then show thesis
      using that up by (cases "rg_register xxh (fm_id f) (fm_path f) (mg_registry m)"; cases "fst (rg_register xxh (fm_id f) (fm_path f) (mg_registry m))")
        (auto simp: add_sst_def insert_file_levels, simp add: insert_file_def notify_l0_changed_def Let_def)
  qed
qed

lemma flush_inv:
  assumes "cat_inv m ps" "fm_level f = 0" "file_ok f"
  shows "cat_inv (snd (add_sst xxh put f m)) ps"
proof (rule add_sst_cases [of xxh put f m])
  let ?m = "snd (add_sst xxh put f m)"
  assume same: "mg_levels ?m = mg_levels m" and "mg_reserved ?m = mg_reserved m"
  then show ?thesis
    using assms(1) unfolding cat_inv_def levels_ok_cong [OF same] plan_ok_cong [OF same] by simp
next
  let ?m = "snd (add_sst xxh put f m)"
  assume chk: "check_new_file f m = Inr ()" and res: "mg_reserved ?m = mg_reserved m"
    and lv: "mg_levels ?m = (mg_levels m)[fm_level f := sort_level (fm_level f) (mg_levels m ! fm_level f @ [f])]"
  have new: "0 < length (mg_levels m)" "fm_id f \<notin> fm_id ` set (all_files m)"
    using chk assms(2) by (auto simp: check_new_file_def split: if_splits)
  have len: "length (mg_levels ?m) = length (mg_levels m)" by (simp add: lv)
  have mem: "set (mg_levels ?m ! l) = set (mg_levels m ! l) \<union> (if l = 0 then {f} else {})" if "l < length (mg_levels m)" for l
    using that new(1) by (auto simp: lv assms(2) nth_list_update)
  have lo: "levels_ok m" "\<forall>p \<in> set ps. plan_ok m p" using assms(1) by (auto simp: cat_inv_def)
  have all: "set (all_files ?m) = insert f (set (all_files m))"
  proof (rule set_eqI)
    fix g
    have "g \<in> set (all_files ?m) \<longleftrightarrow> (\<exists>l < length (mg_levels m). g \<in> set (mg_levels m ! l) \<or> l = 0 \<and> g = f)"
      unfolding in_all_files len by (rule ex_cong) (auto simp: mem)
    then show "g \<in> set (all_files ?m) \<longleftrightarrow> g \<in> insert f (set (all_files m))"
      using new(1) in_all_files [of g m] by blast
  qed
  have "levels_ok ?m"
    unfolding levels_ok_def len
  proof (intro conjI allI impI ballI)
    show "inj_on fm_id (set (all_files ?m))" using lo(1) new(2) unfolding all levels_ok_def by auto
    fix l assume l: "l < length (mg_levels m)"
    have "f \<notin> set (mg_levels m ! l)" using new(2) in_all_files [of f m] l by blast
    then show "distinct (mg_levels ?m ! l)" using levels_okD(5) [OF lo(1) l] new(1) l by (auto simp: lv assms(2) nth_list_update)
    show "fm_level g = l" "file_ok g" if "g \<in> set (mg_levels ?m ! l)" for g
      using that levels_okD(2,3) [OF lo(1) l, of g] mem [OF l] assms(2,3) by (auto split: if_splits)
    show "file_range g \<inter> file_range h = {}" if "0 < l" "g \<in> set (mg_levels ?m ! l)" "h \<in> set (mg_levels ?m ! l)" "g \<noteq> h" for g h
      using levels_okD(4) [OF lo(1) l that(1)] that mem [OF l] by auto
  qed
  moreover have "plan_ok ?m p" if "p \<in> set ps" for p
  proof -
    have p: "plan_ok m p" using lo(2) that by blast
    then have lens: "pl_source_level p < length (mg_levels m)" "pl_output_level p < length (mg_levels m)" "pl_output_level p \<noteq> 0"
      unfolding plan_ok_def by auto
    have out: "set (mg_levels ?m ! pl_output_level p) = set (mg_levels m ! pl_output_level p)"
      and src: "set (mg_levels m ! pl_source_level p) \<subseteq> set (mg_levels ?m ! pl_source_level p)"
      using mem [OF lens(1)] mem [OF lens(2)] lens(3) by auto
    show ?thesis using p src unfolding plan_ok_def len out by blast
  qed
  ultimately show ?thesis using assms(1) res by (simp add: cat_inv_def)
qed

lemma abort_inv:
  assumes "cat_inv m ps" "pl \<in> set ps"
  shows "cat_inv (abort_plan pl m) (remove1 pl ps)"
proof -
  have same: "mg_levels (abort_plan pl m) = mg_levels m" by (simp add: abort_plan_def)
  obtain as bs where ps: "ps = as @ pl # bs" "pl \<notin> set as" using assms(2) by (meson split_list_first)
  have rest: "remove1 pl ps = as @ bs" using ps by (simp add: remove1_append)
  have "sorted_wrt plans_apart ps" "mg_reserved m = (\<Union>p \<in> set ps. pl_reserved p)" using assms(1) by (auto simp: cat_inv_def)
  then have "mg_reserved (abort_plan pl m) = (\<Union>p \<in> set (as @ bs). pl_reserved p)" "sorted_wrt plans_apart (as @ bs)"
    unfolding ps(1) by (auto simp: abort_plan_def sorted_wrt_append plans_apart_def)
  moreover have "\<forall>p \<in> set (as @ bs). plan_ok m p" "levels_ok m" using assms(1) ps(1) by (auto simp: cat_inv_def)
  ultimately show ?thesis
    unfolding rest cat_inv_def levels_ok_cong [OF same] plan_ok_cong [OF same] by blast
qed

text \<open>
  The threads of the engine: a flush adds a table to level 0, workers pick, abort and install,
  and anything else leaves the levels and the reservations alone.
\<close>

inductive cat_step :: "(bytes \<Rightarrow> u64) \<Rightarrow> object_put \<Rightarrow> sst_manager \<times> plan list \<Rightarrow> sst_manager \<times> plan list \<Rightarrow> bool" for xxh put where
  flush: "fm_level f = 0 \<Longrightarrow> file_ok f \<Longrightarrow> cat_step xxh put (m, ps) (snd (add_sst xxh put f m), ps)"
| pick: "pick s m = (Inr (Some pl), m') \<Longrightarrow> cat_step xxh put (m, ps) (m', pl # ps)"
| abort: "pl \<in> set ps \<Longrightarrow> cat_step xxh put (m, ps) (abort_plan pl m, remove1 pl ps)"
| install: "pl \<in> set ps \<Longrightarrow> outputs_ok m pl outs \<Longrightarrow>
    cat_step xxh put (m, ps) (snd (install_outputs pl outs m), remove1 pl ps)"
| other: "mg_levels m' = mg_levels m \<Longrightarrow> mg_reserved m' = mg_reserved m \<Longrightarrow> cat_step xxh put (m, ps) (m', ps)"

lemma cat_step_inv: "cat_step xxh put s s' \<Longrightarrow> cat_inv (fst s) (snd s) \<Longrightarrow> cat_inv (fst s') (snd s')"
proof (induction rule: cat_step.induct)
  case (other m' m ps)
  then show ?case by (simp add: cat_inv_def levels_ok_cong [OF other(1)] plan_ok_cong [OF other(1)])
qed (simp_all add: flush_inv pick_inv abort_inv install_inv)

lemma cat_inv_new: "manager_new rg bs n i = Inr m \<Longrightarrow> cat_inv m []"
  by (auto simp: manager_new_def cat_inv_def levels_ok_def all_files_def split: if_splits)

lemma cat_inv_reachable:
  assumes "manager_new rg bs n i = Inr m0" "(cat_step xxh put)\<^sup>*\<^sup>* (m0, []) (m, ps)"
  shows "cat_inv m ps"
proof -
  have "cat_inv (fst s) (snd s)" if "(cat_step xxh put)\<^sup>*\<^sup>* (m0, []) s" for s
    using that by (induction rule: rtranclp_induct) (auto simp: cat_inv_new [OF assms(1)] dest: cat_step_inv)
  from this [OF assms(2)] show ?thesis by simp
qed

text \<open>
  C38. However flushes and compactions interleave, the files below level 0 never overlap, file ids
  are unique, no two plans in flight share an input, and a finished compaction installs: the
  checks before the installation never refuse what a plan in flight produces.
\<close>

theorem concurrent_compactions_install:
  assumes "manager_new rg block_size level_count first_id = Inr m0" "(cat_step xxh put)\<^sup>*\<^sup>* (m0, []) (m, ps)"
  shows "inj_on fm_id (set (all_files m)) \<and>
    (\<forall>l < length (mg_levels m). 0 < l \<longrightarrow> (\<forall>f \<in> set (mg_levels m ! l). \<forall>g \<in> set (mg_levels m ! l).
       f \<noteq> g \<longrightarrow> \<not> overlaps f (fm_smallest g) (fm_largest g))) \<and>
    sorted_wrt (\<lambda>p q. pl_reserved p \<inter> pl_reserved q = {}) ps \<and>
    (\<forall>pl \<in> set ps. \<forall>outs. outputs_ok m pl outs \<longrightarrow> fst (install_outputs pl outs m) = Inr ())"
proof -
  have I: "cat_inv m ps" by (rule cat_inv_reachable [OF assms])
  then have lv: "levels_ok m" and ap: "sorted_wrt plans_apart ps" by (auto simp: cat_inv_def)
  have apart: "\<not> overlaps f (fm_smallest g) (fm_largest g)"
    if "l < length (mg_levels m)" "0 < l" "f \<in> set (mg_levels m ! l)" "g \<in> set (mg_levels m ! l)" "f \<noteq> g" for l f g
    using overlaps_files [of f g] levels_okD(3) [OF lv that(1)] levels_okD(4) [OF lv that] that(3,4) by blast
  show ?thesis
  proof (intro conjI allI impI ballI)
    show "inj_on fm_id (set (all_files m))" using lv by (simp add: levels_ok_def)
    show "sorted_wrt (\<lambda>p q. pl_reserved p \<inter> pl_reserved q = {}) ps"
      by (rule sorted_wrt_mono_rel [OF _ ap]) (auto simp: plans_apart_def)
  qed (use apart install_inv(1) [OF I] in blast)+
qed

definition sample_meta :: sst_meta where
  "sample_meta = \<lparr>fm_id = 1, fm_level = 0, fm_path = ''a'', fm_smallest = [97], fm_largest = [98], fm_file_size = 9\<rparr>"

definition sample_output :: sst_meta where
  "sample_output = \<lparr>fm_id = 2, fm_level = 1, fm_path = ''b'', fm_smallest = [97], fm_largest = [98], fm_file_size = 9\<rparr>"

theorem concurrent_compactions_install_witness:
  "\<exists>m0 m pl. (cat_step (\<lambda>_. 11) None)\<^sup>*\<^sup>* (m0, []) (m, [pl]) \<and>
     pl_inputs pl = [sample_meta] \<and> fst (install_outputs pl [sample_output] m) = Inr ()"
proof -
  obtain f where f: "sst_write (\<lambda>_. 11) False sst_sample 8 = Inr f"
    using sst_sample_written by blast
  have "bloom_bit_count (length sst_sample) < 2 ^ 32" unfolding bloom_bits_width by (simp add: sst_sample_def)
  moreover have "pool_serves f None" by (simp add: pool_serves_def)
  ultimately obtain r where r: "sst_open (\<lambda>_. 11) f = Inr r" by (rule sst_written_reads [OF f])
  let ?rg = "registry_new [''a'' \<mapsto> f]"
  obtain m0 where m0: "manager_new ?rg 8 2 2 = Inr m0" by (simp add: manager_new_def)
  let ?m1 = "snd (add_sst (\<lambda>_. 11) None sample_meta m0)"
  have m0s: "mg_levels m0 = [[], []]" "mg_registry m0 = ?rg" "mg_reserved m0 = {}" "mg_next_id m0 = 2"
    using m0 by (auto simp: manager_new_def numeral_2_eq_2)
  have m1: "mg_levels ?m1 = [[sample_meta], []]" "mg_reserved ?m1 = {}" "mg_next_id ?m1 = 2"
    using r by (simp_all add: add_sst_def upload_sst_def check_new_file_def rg_register_def m0s registry_new_def
        sample_meta_def all_files_def insert_file_def notify_l0_changed_def sort_level_def)
  let ?pl = "\<lparr>pl_source_level = 0, pl_output_level = 1, pl_inputs = [sample_meta], pl_reserved = {1}, pl_output_id = 2\<rparr>"
  let ?m2 = "?m1\<lparr>mg_reserved := {1}, mg_next_id := 3\<rparr>"
  have pick: "pick 0 ?m1 = (Inr (Some ?pl), ?m2)"
    by (simp add: pick_def m1 select_source_def closure_loop.simps) (simp add: sample_meta_def)
  have "(cat_step (\<lambda>_. 11) None)\<^sup>*\<^sup>* (m0, []) (?m1, [])"
    by (rule r_into_rtranclp, rule cat_step.flush) (simp_all add: sample_meta_def file_ok_def)
  moreover have "cat_step (\<lambda>_. 11) None (?m1, []) (?m2, [?pl])" by (rule cat_step.pick [OF pick])
  ultimately have reach: "(cat_step (\<lambda>_. 11) None)\<^sup>*\<^sup>* (m0, []) (?m2, [?pl])" by (rule rtranclp.rtrancl_into_rtrancl)
  have "outputs_ok ?m2 ?pl [sample_output]"
    unfolding outputs_ok_def by (simp add: all_files_def m1) (simp add: sample_output_def sample_meta_def file_ok_def pl_range_def file_range_def)
  then show ?thesis
    using concurrent_compactions_install [OF m0 reach] reach by (intro exI [of _ m0] exI [of _ ?m2] exI [of _ ?pl]) simp
qed

end
