(* ===== verification/Lsm_Safety.thy ===== *)
theory Lsm_Safety
  imports Lsm_Engine Compaction_Safety
begin

text \<open>
  The memtable and the levels as one versioned store: what a point read returns, and that
  flushing and compacting do not change it.
\<close>

section \<open>Versions of the store\<close>

definition file_versions :: "(bytes \<Rightarrow> u64) \<Rightarrow> (sst_reader \<Rightarrow> page_source) \<Rightarrow> registry \<Rightarrow> sst_meta \<Rightarrow> entry set" where
  "file_versions xxh pools rg f =
     (case rg_active rg (fm_id f) of None \<Rightarrow> {} | Some h \<Rightarrow> sst_versions xxh (pools (sh_reader h)) (sh_reader h))"

definition file_reads_ok :: "(bytes \<Rightarrow> u64) \<Rightarrow> (sst_reader \<Rightarrow> page_source) \<Rightarrow> registry \<Rightarrow> sst_meta \<Rightarrow> bool" where
  "file_reads_ok xxh pools rg f \<longleftrightarrow>
     (\<exists>h. rg_active rg (fm_id f) = Some h \<and> sst_wf xxh (pools (sh_reader h)) (sh_reader h)) \<and>
     e_key ` file_versions xxh pools rg f \<subseteq> file_range f"

definition table_versions :: "(bytes \<Rightarrow> u64) \<Rightarrow> (sst_reader \<Rightarrow> page_source) \<Rightarrow> sst_manager \<Rightarrow> entry set" where
  "table_versions xxh pools m = (\<Union>f \<in> set (all_files m). file_versions xxh pools (mg_registry m) f)"

definition lsm_versions :: "(bytes \<Rightarrow> u64) \<Rightarrow> (sst_reader \<Rightarrow> page_source) \<Rightarrow> memtable \<times> sst_manager \<Rightarrow> entry set" where
  "lsm_versions xxh pools s = mt_versions (fst s) \<union> table_versions xxh pools (snd s)"

definition tables_ok :: "(bytes \<Rightarrow> u64) \<Rightarrow> (sst_reader \<Rightarrow> page_source) \<Rightarrow> sst_manager \<Rightarrow> bool" where
  "tables_ok xxh pools m \<longleftrightarrow> (\<forall>f \<in> set (all_files m). file_reads_ok xxh pools (mg_registry m) f)"

definition lsm_inv :: "(bytes \<Rightarrow> u64) \<Rightarrow> (sst_reader \<Rightarrow> page_source) \<Rightarrow> memtable \<times> sst_manager \<Rightarrow> bool" where
  "lsm_inv xxh pools s \<longleftrightarrow>
     mt_inv (fst s) \<and> tables_ok xxh pools (snd s) \<and> versions_unique (lsm_versions xxh pools s)"

section \<open>Point reads\<close>

lemma newest_newer_of:
  "newest V k ts b \<Longrightarrow> newest W k ts r \<Longrightarrow> newest (V \<union> W) k ts (newer_of b r)"
  by (cases b; cases r) (auto simp: newest_def newer_of_def)

lemma newest_no_key: "newest V k ts b \<Longrightarrow> k \<notin> e_key ` W \<Longrightarrow> newest (V \<union> W) k ts b"
  by (cases b) (auto simp: newest_def image_iff)

lemma sst_wf_get:
  assumes "sst_wf xxh pool r"
  shows "\<exists>v. get_entry_at xxh pool r k ts = Inr v \<and> newest (sst_versions xxh pool r) k ts v"
proof -
  obtain es where "sst_entries xxh pool r = Inr es" "version_sorted es"
    "\<And>k ts. get_entry_at xxh pool r k ts = Inr (find (visible k ts) es)"
    using assms by (rule sst_wf_reads) blast
  then show ?thesis by (auto simp: sst_versions_def newest_find)
qed

lemma probe_files_newest:
  assumes "\<forall>f \<in> set fs. file_reads_ok xxh pools (mg_registry m) f" "newest V k ts best"
  shows "\<exists>best' n'. probe_files xxh pools (\<lambda>_. m) k ts level fs n best = Inr (best', n') \<and>
    newest (V \<union> (\<Union>f \<in> set fs. file_versions xxh pools (mg_registry m) f)) k ts best'"
  using assms
proof (induction fs arbitrary: n best V)
  case (Cons f fs)
  let ?W = "file_versions xxh pools (mg_registry m) f"
  have eq: "V \<union> (\<Union>g \<in> set (f # fs). file_versions xxh pools (mg_registry m) g) =
      (V \<union> ?W) \<union> (\<Union>g \<in> set fs. file_versions xxh pools (mg_registry m) g)" by auto
  have okf: "file_reads_ok xxh pools (mg_registry m) f" and oks: "\<forall>g \<in> set fs. file_reads_ok xxh pools (mg_registry m) g"
    using Cons.prems(1) by auto
  show ?case
  proof (cases "0 < level \<and> (k < fm_smallest f \<or> fm_largest f < k)")
    case True
    then have "k \<notin> e_key ` ?W" using okf by (auto simp: file_reads_ok_def file_range_def)
    then have "newest (V \<union> ?W) k ts best" by (rule newest_no_key [OF Cons.prems(2)])
    then show ?thesis using Cons.IH [OF oks] True unfolding eq by simp
  next
    case False
    obtain h where h: "rg_active (mg_registry m) (fm_id f) = Some h" "sst_wf xxh (pools (sh_reader h)) (sh_reader h)"
      using okf by (auto simp: file_reads_ok_def)
    obtain v where v: "get_entry_at xxh (pools (sh_reader h)) (sh_reader h) k ts = Inr v" "newest ?W k ts v"
      using sst_wf_get [OF h(2)] by (auto simp: file_versions_def h(1))
    have "newest (V \<union> ?W) k ts (newer_of best v)" by (rule newest_newer_of [OF Cons.prems(2) v(2)])
    from Cons.IH [OF oks this] show ?thesis using False h(1) v(1) unfolding eq by auto
  qed
qed simp

lemma set_probe_order [simp]: "set (probe_order l fs) = set fs"
  by (simp add: probe_order_def)

lemma probe_levels_newest:
  assumes "\<forall>l \<in> set ls. \<forall>f \<in> set (level_files m l). file_reads_ok xxh pools (mg_registry m) f" "newest V k ts best"
  shows "\<exists>best'. probe_levels xxh pools (\<lambda>_. m) k ts ls n best = Inr best' \<and>
    newest (V \<union> (\<Union>l \<in> set ls. \<Union>f \<in> set (level_files m l). file_versions xxh pools (mg_registry m) f)) k ts best'"
  using assms
proof (induction ls arbitrary: n best V)
  case (Cons l ls)
  let ?W = "\<lambda>l. \<Union>f \<in> set (level_files m l). file_versions xxh pools (mg_registry m) f"
  obtain best' n' where p: "probe_files xxh pools (\<lambda>_. m) k ts l (probe_order l (level_files m l)) (Suc n) best = Inr (best', n')"
    "newest (V \<union> ?W l) k ts best'"
    using probe_files_newest [of "probe_order l (level_files m l)" xxh pools m V k ts best l "Suc n"] Cons.prems by auto
  have eq: "V \<union> (\<Union>l \<in> set (l # ls). ?W l) = (V \<union> ?W l) \<union> (\<Union>l \<in> set ls. ?W l)" by auto
  show ?case using Cons.IH [OF _ p(2)] Cons.prems(1) p(1) unfolding eq by simp
qed simp

lemma all_files_levels: "(\<Union>l < length (mg_levels m). set (level_files m l)) = set (all_files m)"
  using in_all_files [of _ m] by (auto simp: level_files_def)

lemma lsm_get_newest:
  assumes "lsm_inv xxh pools (mem, m)"
  shows "\<exists>v. lsm_get_at xxh pools mem (\<lambda>_. m) k ts = Inr v \<and> newest (lsm_versions xxh pools (mem, m)) k ts v"
proof -
  have ok: "\<forall>l \<in> set [0 ..< length (mg_levels m)]. \<forall>f \<in> set (level_files m l). file_reads_ok xxh pools (mg_registry m) f"
    using assms all_files_levels [of m] by (auto simp: lsm_inv_def tables_ok_def)
  have "newest (mt_versions mem) k ts (mt_get_at mem k ts)"
    using assms by (simp add: lsm_inv_def mt_get_at_newest)
  from probe_levels_newest [OF ok this, of 1]
  obtain v where v: "lsm_get_at xxh pools mem (\<lambda>_. m) k ts = Inr v"
    "newest (mt_versions mem \<union> (\<Union>l \<in> set [0 ..< length (mg_levels m)]. \<Union>f \<in> set (level_files m l).
       file_versions xxh pools (mg_registry m) f)) k ts v"
    by (auto simp: lsm_get_at_def)
  have "(\<Union>l \<in> set [0 ..< length (mg_levels m)]. \<Union>f \<in> set (level_files m l). file_versions xxh pools (mg_registry m) f) =
      table_versions xxh pools m"
    unfolding table_versions_def all_files_levels [symmetric] by (auto simp: atLeast0LessThan)
  then show ?thesis using v by (simp add: lsm_versions_def)
qed

text \<open>The engine as a versioned store.\<close>

definition lsm_read :: "(bytes \<Rightarrow> u64) \<Rightarrow> (sst_reader \<Rightarrow> page_source) \<Rightarrow> memtable \<times> sst_manager \<Rightarrow> key \<Rightarrow> commit_ts \<Rightarrow> entry option" where
  "lsm_read xxh pools s k ts = (case lsm_get_at xxh pools (fst s) (\<lambda>_. snd s) k ts of Inl _ \<Rightarrow> None | Inr v \<Rightarrow> v)"

interpretation lsm: versioned_read "lsm_versions xxh pools" "lsm_inv xxh pools" "lsm_read xxh pools" for xxh pools
proof unfold_locales
  fix s k ts assume inv: "lsm_inv xxh pools s"
  then show "versions_unique (lsm_versions xxh pools s)" by (simp add: lsm_inv_def)
  show "newest (lsm_versions xxh pools s) k ts (lsm_read xxh pools s k ts)"
    using lsm_get_newest [of xxh pools "fst s" "snd s" k ts] inv by (auto simp: lsm_read_def)
qed

text \<open>
  C37. A point read over a quiet store returns, and what it returns is the newest version at or
  below the read's timestamp among the memtable and every table of every level; a deletion reads
  as an absent key with the timestamp of the deletion.
\<close>

theorem engine_read_returns_newest:
  assumes "lsm_inv xxh pools (mem, m)"
  shows "\<exists>v. newest (lsm_versions xxh pools (mem, m)) k ts v \<and>
    get_at_with_ts xxh pools mem (\<lambda>_. m) k ts =
      Inr (case v of None \<Rightarrow> (None, 0) | Some e \<Rightarrow> (if e_tombstone e then None else e_value e, e_seq e))"
  using lsm_get_newest [OF assms, of k ts] by (auto simp: get_at_with_ts_def)

section \<open>New tables\<close>

text \<open>The buffer pool behaves: the pages it serves for an open table are the pages of its file.\<close>

definition pools_serve :: "(bytes \<Rightarrow> u64) \<Rightarrow> (sst_reader \<Rightarrow> page_source) \<Rightarrow> bool" where
  "pools_serve xxh pools \<longleftrightarrow> (\<forall>f r. sst_open xxh f = Inr r \<longrightarrow> pool_serves f (pools r))"

lemma written_table:
  assumes "sst_write xxh t s bs = Inr f" "length s < 429496729" "sst_open xxh f = Inr r" "pools_serve xxh pools"
  shows "sst_wf xxh (pools r) r" "sst_versions xxh (pools r) r = set s" "version_sorted s"
proof -
  have b: "bloom_bit_count (length s) < 2 ^ 32" using assms(2) by (simp only: bloom_bits_width)
  have p: "pool_serves f (pools r)" using assms(3,4) by (simp add: pools_serve_def)
  show "sst_wf xxh (pools r) r" using assms(1,3) b p unfolding sst_wf_def by blast
  show "sst_versions xxh (pools r) r = set s" "version_sorted s"
    by (rule sst_written_reads [OF assms(1) b p], use assms(3) in \<open>simp add: sst_versions_def\<close>)+
qed

lemma rg_register_Inr:
  "rg_register xxh i p rg = (Inr u, rg') \<Longrightarrow>
   \<exists>bs r. rg_fs rg p = Some bs \<and> sst_open xxh bs = Inr r \<and> rg_active rg i = None \<and> rg_retired rg i = None \<and>
     rg' = rg\<lparr>rg_active := (rg_active rg)(i \<mapsto> \<lparr>sh_id = i, sh_path = p, sh_reader = r\<rparr>)\<rparr>"
  by (auto simp: rg_register_def split: if_splits option.splits sum.splits)

lemma write_table_Inr:
  assumes "write_table xxh sst_path tmp level i s m = (Inr f, m')"
  obtains bs where "sst_write xxh (tmp i) s (mg_block_size m) = Inr bs"
    "m' = m\<lparr>mg_registry := (mg_registry m)\<lparr>rg_fs := (rg_fs (mg_registry m))(sst_path level i \<mapsto> bs)\<rparr>\<rparr>"
    "fm_id f = i" "fm_level f = level" "fm_path f = sst_path level i" "fm_smallest f = e_key (hd s)" "fm_largest f = e_key (last s)"
    "file_ok f"
  using assms by (auto simp: write_table_def meta_from_info_def file_ok_def Let_def split: sum.splits if_splits)

lemma add_sst_Inr:
  assumes "add_sst xxh put f m = (Inr u, m')"
  obtains bs r where "rg_fs (mg_registry m) (fm_path f) = Some bs" "sst_open xxh bs = Inr r"
    "mg_registry m' = (mg_registry m)\<lparr>rg_active := (rg_active (mg_registry m))(fm_id f \<mapsto> \<lparr>sh_id = fm_id f, sh_path = fm_path f, sh_reader = r\<rparr>)\<rparr>"
    "mg_levels m' = (mg_levels m)[fm_level f := sort_level (fm_level f) (mg_levels m ! fm_level f @ [f])]"
    "fm_level f < length (mg_levels m)" "fm_id f \<notin> fm_id ` set (all_files m)" "mg_watermark m' = mg_watermark m"
proof -
  obtain rg where rg: "rg_register xxh (fm_id f) (fm_path f) (mg_registry m) = (Inr (), rg)" "check_new_file f m = Inr ()"
    "m' = insert_file f (m\<lparr>mg_registry := rg\<rparr>)"
    using assms by (auto simp: add_sst_def split: sum.splits prod.splits)
  obtain bs r where "rg_fs (mg_registry m) (fm_path f) = Some bs" "sst_open xxh bs = Inr r"
    "rg = (mg_registry m)\<lparr>rg_active := (rg_active (mg_registry m))(fm_id f \<mapsto> \<lparr>sh_id = fm_id f, sh_path = fm_path f, sh_reader = r\<rparr>)\<rparr>"
    using rg_register_Inr [OF rg(1)] by blast
  moreover have "fm_level f < length (mg_levels m)" "fm_id f \<notin> fm_id ` set (all_files m)"
    using rg(2) by (auto simp: check_new_file_def split: if_splits)
  ultimately show thesis
    using that [of bs r] rg(3) by (simp add: insert_file_levels) (simp add: insert_file_def notify_l0_changed_def Let_def)
qed

lemma all_files_insert:
  assumes "mg_levels m' = (mg_levels m)[l := sort_level l (mg_levels m ! l @ fs)]" "l < length (mg_levels m)"
  shows "set (all_files m') = set (all_files m) \<union> set fs"
proof (rule set_eqI)
  fix g
  have "g \<in> set (all_files m') \<longleftrightarrow> (\<exists>j < length (mg_levels m). g \<in> set (mg_levels m ! j) \<or> j = l \<and> g \<in> set fs)"
    unfolding in_all_files assms(1) using assms(2) by (auto simp: nth_list_update)
  then show "g \<in> set (all_files m') \<longleftrightarrow> g \<in> set (all_files m) \<union> set fs"
    using assms(2) in_all_files [of g m] by blast
qed

text \<open>A table registered under a fresh id, added to the catalog.\<close>

lemma table_added:
  assumes "tables_ok xxh pools m" "fm_id f \<notin> fm_id ` set (all_files m)"
    and "rg_active (mg_registry m') = (rg_active (mg_registry m))(fm_id f \<mapsto> h)" "set (all_files m') = insert f (set (all_files m))"
    and "sst_wf xxh (pools (sh_reader h)) (sh_reader h)" "e_key ` sst_versions xxh (pools (sh_reader h)) (sh_reader h) \<subseteq> file_range f"
  shows "tables_ok xxh pools m'"
    "table_versions xxh pools m' = table_versions xxh pools m \<union> sst_versions xxh (pools (sh_reader h)) (sh_reader h)"
proof -
  have old: "rg_active (mg_registry m') (fm_id g) = rg_active (mg_registry m) (fm_id g)" if "g \<in> set (all_files m)" for g
    using assms(2,3) that by (auto simp: image_iff)
  then have olds: "file_versions xxh pools (mg_registry m') g = file_versions xxh pools (mg_registry m) g"
      "file_reads_ok xxh pools (mg_registry m') g" if "g \<in> set (all_files m)" for g
    using that assms(1) by (simp_all add: file_versions_def file_reads_ok_def tables_ok_def)
  have new: "file_versions xxh pools (mg_registry m') f = sst_versions xxh (pools (sh_reader h)) (sh_reader h)"
    by (simp add: file_versions_def assms(3))
  then have "file_reads_ok xxh pools (mg_registry m') f" using assms(5,6) by (simp add: file_reads_ok_def assms(3))
  then show "tables_ok xxh pools m'" using olds(2) by (auto simp: tables_ok_def assms(4))
  show "table_versions xxh pools m' = table_versions xxh pools m \<union> sst_versions xxh (pools (sh_reader h)) (sh_reader h)"
    using olds(1) new by (auto simp: table_versions_def assms(4))
qed

lemma slice_keys_in_range:
  assumes "version_sorted s" "fm_smallest f = e_key (hd s)" "fm_largest f = e_key (last s)"
  shows "e_key ` set s \<subseteq> file_range f"
  using sorted_block_keys [OF assms(1)] by (cases "s = []") (auto simp: file_range_def assms(2,3))

section \<open>Flush\<close>

lemma flush_slices_versions:
  assumes "flush_slices xxh put sst_path tmp ss m = (Inr u, m')" "tables_ok xxh pools m" "pools_serve xxh pools"
    and "\<forall>s \<in> set ss. length s < 429496729"
  shows "tables_ok xxh pools m' \<and> table_versions xxh pools m' = table_versions xxh pools m \<union> set (concat ss)"
  using assms
proof (induction ss arbitrary: m)
  case (Cons s ss)
  let ?i = "mg_next_id m" and ?m1 = "m\<lparr>mg_next_id := mg_next_id m + 1\<rparr>"
  obtain f m2 m3 where w: "write_table xxh sst_path tmp 0 ?i s ?m1 = (Inr f, m2)" and a: "add_sst xxh put f m2 = (Inr (), m3)"
    and rest: "flush_slices xxh put sst_path tmp ss m3 = (Inr u, m')"
    using Cons.prems(1) by (auto simp: allocate_sst_id_def split: sum.splits prod.splits)
  obtain bs where W: "sst_write xxh (tmp ?i) s (mg_block_size ?m1) = Inr bs"
    "m2 = ?m1\<lparr>mg_registry := (mg_registry ?m1)\<lparr>rg_fs := (rg_fs (mg_registry ?m1))(sst_path 0 ?i \<mapsto> bs)\<rparr>\<rparr>"
    "fm_id f = ?i" "fm_level f = 0" "fm_path f = sst_path 0 ?i" "fm_smallest f = e_key (hd s)" "fm_largest f = e_key (last s)"
    using write_table_Inr [OF w] by blast
  obtain bs' r where A: "rg_fs (mg_registry m2) (fm_path f) = Some bs'" "sst_open xxh bs' = Inr r"
    "mg_registry m3 = (mg_registry m2)\<lparr>rg_active := (rg_active (mg_registry m2))(fm_id f \<mapsto> \<lparr>sh_id = fm_id f, sh_path = fm_path f, sh_reader = r\<rparr>)\<rparr>"
    "mg_levels m3 = (mg_levels m2)[fm_level f := sort_level (fm_level f) (mg_levels m2 ! fm_level f @ [f])]"
    "fm_level f < length (mg_levels m2)" "fm_id f \<notin> fm_id ` set (all_files m2)"
    using add_sst_Inr [OF a] by blast
  have "bs' = bs" using A(1) W(2,5) by simp
  note T = written_table [OF W(1) _ A(2) [unfolded this] Cons.prems(3)]
  have same: "rg_active (mg_registry m2) = rg_active (mg_registry m)" "all_files m2 = all_files m"
    using W(2) by (simp_all add: all_files_def)
  have t2: "tables_ok xxh pools m2" "table_versions xxh pools m2 = table_versions xxh pools m"
    using Cons.prems(2) by (simp_all add: tables_ok_def table_versions_def file_versions_def file_reads_ok_def same)
  have len: "length s < 429496729" using Cons.prems(4) by simp
  have keys: "e_key ` set s \<subseteq> file_range f" by (rule slice_keys_in_range [OF T(3) [OF len] W(6,7)])
  have "tables_ok xxh pools m3" "table_versions xxh pools m3 = table_versions xxh pools m2 \<union> set s"
    using table_added [OF t2(1) A(6), of m3 "\<lparr>sh_id = fm_id f, sh_path = fm_path f, sh_reader = r\<rparr>"]
      A(3) all_files_insert [OF A(4,5)] T(1,2) [OF len] keys by simp_all
  then show ?case using Cons.IH [OF rest _ Cons.prems(3)] Cons.prems(4) t2(2) by auto
qed simp

lemma slice_length:
  assumes "s \<in> set (split_entries_by_max_bytes es n)"
  shows "length s \<le> length es"
proof -
  have "length s \<le> length (concat (split_entries_by_max_bytes es n))"
    using assms by (auto simp: length_concat intro!: member_le_sum_list)
  then show ?thesis by (simp add: split_entries_parts(1))
qed

lemma flush_node_versions:
  assumes "lsm_inv xxh pools (mem, m)" "pools_serve xxh pools" "length (mt_map mem) < 429496729"
    and "flush_node xxh put sst_path tmp mem m = (Inr u, mem', m')"
  shows "lsm_inv xxh pools (mem', m')" "lsm_versions xxh pools (mem', m') = lsm_versions xxh pools (mem, m)"
proof -
  have inv: "mt_inv mem" "tables_ok xxh pools m" "versions_unique (lsm_versions xxh pools (mem, m))"
    using assms(1) by (auto simp: lsm_inv_def)
  have *: "mt_inv mem' \<and> tables_ok xxh pools m' \<and> lsm_versions xxh pools (mem', m') = lsm_versions xxh pools (mem, m)"
  proof (cases "mt_is_empty mem")
    case True
    then show ?thesis using assms(4) inv by (simp add: flush_node_def)
  next
    case False
    let ?es = "map slot_entry (mt_map mem)" and ?ss = "split_entries_by_max_bytes (map slot_entry (mt_map mem)) (mg_max_sst_bytes m)"
    have fl: "flush_slices xxh put sst_path tmp ?ss m = (Inr u, m')" and mem': "mem' = fst (mt_drain_entries mem)"
      using assms(4) False by (auto simp: flush_node_def mt_drain_entries_def Let_def split: prod.splits)
    have "length s < 429496729" if "s \<in> set ?ss" for s using slice_length [OF that] assms(3) by simp
    then have "tables_ok xxh pools m' \<and> table_versions xxh pools m' = table_versions xxh pools m \<union> set ?es"
      using flush_slices_versions [OF fl inv(2) assms(2)] by (simp add: split_entries_parts(1))
    then show ?thesis
      using mt_inv_drain [of mem] by (auto simp: mem' lsm_versions_def mt_versions_def mt_drain_entries_def)
  qed
  then show "lsm_inv xxh pools (mem', m')" using inv(3) by (auto simp: lsm_inv_def)
  show "lsm_versions xxh pools (mem', m') = lsm_versions xxh pools (mem, m)" using * by blast
qed

text \<open>
  A flush that succeeds is invisible: the tables it writes and the emptied memtable hold
  exactly the versions the store held before, so every read at every timestamp is unchanged.
\<close>

theorem flush_keeps_reads:
  assumes "lsm_inv xxh pools (mem, m)" "pools_serve xxh pools" "length (mt_map mem) < 429496729"
    and "flush_node xxh put sst_path tmp mem m = (Inr u, mem', m')"
  shows "lsm_inv xxh pools (mem', m') \<and> lsm_versions xxh pools (mem', m') = lsm_versions xxh pools (mem, m) \<and>
    lsm_read xxh pools (mem', m') k ts = lsm_read xxh pools (mem, m) k ts"
  using flush_node_versions [OF assms] lsm.same_versions_same_reads [OF assms(1)] by blast

text \<open>A store with three versions of two keys in its memtable, and the store after its flush.\<close>

definition sample_mem :: memtable where
  "sample_mem = foldl mt_apply mt_new sst_sample"

lemma sample_mem_entries: "mt_inv sample_mem" "map slot_entry (mt_map sample_mem) = sst_sample"
proof -
  show "mt_inv sample_mem" by (simp add: sample_mem_def sst_sample_def mt_inv_apply mt_inv_new)
  show "map slot_entry (mt_map sample_mem) = sst_sample" by (simp add: sample_mem_def sst_sample_def) code_simp
qed

abbreviation sample_flush :: "memtable \<Rightarrow> sst_manager \<Rightarrow> unit result \<times> memtable \<times> sst_manager" where
  "sample_flush \<equiv> flush_node (\<lambda>_. 11) None (\<lambda>_ _. ''a'') (\<lambda>_. False)"

definition sample_l0 :: "u64 \<Rightarrow> sst_meta" where
  "sample_l0 sz = \<lparr>fm_id = 1, fm_level = 0, fm_path = ''a'', fm_smallest = [97], fm_largest = [98], fm_file_size = sz\<rparr>"

lemma sample_store:
  obtains m0 sz m where "manager_new (registry_new Map.empty) 8 2 1 = Inr m0"
    "lsm_inv (\<lambda>_. 11) (\<lambda>_. None) (sample_mem, m0)" "pools_serve (\<lambda>_. 11) (\<lambda>_. None)"
    "sample_flush sample_mem m0 = (Inr (), mt_new, m)"
    "mg_levels m = [[sample_l0 sz], []]" "mg_reserved m = {}" "mg_next_id m = 2" "mg_watermark m = 0"
    "mg_levels m0 = [[], []]" "rg_pins (mg_registry m) = []" "\<exists>h. rg_active (mg_registry m) 1 = Some h \<and> sh_path h = ''a''"
proof -
  obtain f where f: "sst_write (\<lambda>_. 11) False sst_sample 8 = Inr f"
    using sst_sample_written by blast
  have "bloom_bit_count (length sst_sample) < 2 ^ 32" unfolding bloom_bits_width by (simp add: sst_sample_def)
  moreover have "pool_serves f None" by (simp add: pool_serves_def)
  ultimately obtain r where r: "sst_open (\<lambda>_. 11) f = Inr r" by (rule sst_written_reads [OF f])
  obtain m0 where m0: "manager_new (registry_new Map.empty) 8 2 1 = Inr m0" by (simp add: manager_new_def)
  then have m0s: "mg_levels m0 = [[], []]" "mg_registry m0 = registry_new Map.empty" "mg_reserved m0 = {}" "mg_next_id m0 = 1"
      "mg_watermark m0 = 0" "mg_block_size m0 = 8" "mg_max_sst_bytes m0 = DEFAULT_MAX_SST_BYTES"
    by (auto simp: manager_new_def numeral_2_eq_2)
  have split: "split_entries_by_max_bytes sst_sample DEFAULT_MAX_SST_BYTES = [sst_sample]"
    by code_simp
  have ne: "\<not> mt_is_empty sample_mem" "fst (mt_drain_entries sample_mem) = mt_new"
    using sample_mem_entries(2) by (auto simp: mt_is_empty_def sst_sample_def mt_drain_entries_def mt_new_def)
  have ends: "e_key (hd sst_sample) = [97]" "e_key (last sst_sample) = [98]" "length sst_sample = 3"
    by (simp_all add: sst_sample_def entry_put_def)
  have "\<exists>sz m. sample_flush sample_mem m0 = (Inr (), mt_new, m) \<and> mg_levels m = [[sample_l0 sz], []] \<and>
      mg_reserved m = {} \<and> mg_next_id m = 2 \<and> mg_watermark m = 0 \<and>
      rg_pins (mg_registry m) = [] \<and> (\<exists>h. rg_active (mg_registry m) 1 = Some h \<and> sh_path h = ''a'')"
    using ne(2) f r by (simp add: flush_node_def ne(1) mt_drain_entries_def sample_mem_entries(2) m0s split
        allocate_sst_id_def write_table_def Let_def meta_from_info_def ends
        add_sst_def upload_sst_def check_new_file_def rg_register_def registry_new_def
        all_files_def insert_file_def notify_l0_changed_def sort_level_def sample_l0_def)
  moreover have "lsm_inv (\<lambda>_. 11) (\<lambda>_. None) (sample_mem, m0)"
    using sample_mem_entries(1) mt_versions_unique [OF sample_mem_entries(1)]
    by (simp add: lsm_inv_def tables_ok_def lsm_versions_def table_versions_def all_files_def m0s)
  moreover have "pools_serve (\<lambda>_. 11) (\<lambda>_. None)" by (simp add: pools_serve_def pool_serves_def)
  ultimately show thesis using that m0 m0s(1) by blast
qed

lemma sample_newest: "newest (set sst_sample) [97] 5 (Some (entry_delete [97] 4))" "newest (set sst_sample) [97] 12 (Some (entry_put [97] [1] 9))"
  by (auto simp: sst_sample_def newest_def entry_put_def entry_delete_def)

lemma sample_versions: "mg_levels m0 = [[], []] \<Longrightarrow> lsm_versions xxh pools (sample_mem, m0) = set sst_sample"
  using arg_cong [OF sample_mem_entries(2), of set]
  by (simp add: lsm_versions_def table_versions_def all_files_def mt_versions_def)

theorem flush_keeps_reads_witness:
  "\<exists>m0 m. sample_flush sample_mem m0 = (Inr (), mt_new, m) \<and> length (all_files m) = 1 \<and>
     lsm_read (\<lambda>_. 11) (\<lambda>_. None) (mt_new, m) [97] 5 = Some (entry_delete [97] 4)"
proof (rule sample_store)
  fix m0 sz m
  assume S: "lsm_inv (\<lambda>_. 11) (\<lambda>_. None) (sample_mem, m0)" "pools_serve (\<lambda>_. 11) (\<lambda>_. None)"
    "sample_flush sample_mem m0 = (Inr (), mt_new, m)" "mg_levels m = [[sample_l0 sz], []]" "mg_levels m0 = [[], []]"
  have "length (mt_map sample_mem) < 429496729"
    using arg_cong [OF sample_mem_entries(2), of length] by (simp add: sst_sample_def)
  from flush_keeps_reads [OF S(1,2) this S(3), of "[97]" 5]
  have "lsm_read (\<lambda>_. 11) (\<lambda>_. None) (mt_new, m) [97] 5 = lsm_read (\<lambda>_. 11) (\<lambda>_. None) (sample_mem, m0) [97] 5" by blast
  also have "\<dots> = Some (entry_delete [97] 4)"
    by (rule lsm.get_at_eqI [OF S(1)]) (simp add: sample_versions [OF S(5)] sample_newest)
  finally show ?thesis using S(3,4) by (intro exI [of _ m0] exI [of _ m]) (simp add: all_files_def)
qed

lemma sample_flushed:
  obtains m0 sz m where "manager_new (registry_new Map.empty) 8 2 1 = Inr m0" "sample_flush sample_mem m0 = (Inr (), mt_new, m)"
    "lsm_inv (\<lambda>_. 11) (\<lambda>_. None) (mt_new, m)" "lsm_versions (\<lambda>_. 11) (\<lambda>_. None) (mt_new, m) = set sst_sample"
    "mg_levels m = [[sample_l0 sz], []]" "mg_reserved m = {}" "mg_next_id m = 2" "mg_watermark m = 0"
    "rg_pins (mg_registry m) = []" "\<exists>h. rg_active (mg_registry m) 1 = Some h \<and> sh_path h = ''a''"
proof (rule sample_store)
  fix m0 sz m
  assume S: "manager_new (registry_new Map.empty) 8 2 1 = Inr m0"
    "lsm_inv (\<lambda>_. 11) (\<lambda>_. None) (sample_mem, m0)" "pools_serve (\<lambda>_. 11) (\<lambda>_. None)"
    "sample_flush sample_mem m0 = (Inr (), mt_new, m)"
    "mg_levels m = [[sample_l0 sz], []]" "mg_reserved m = {}" "mg_next_id m = 2" "mg_watermark m = 0" "mg_levels m0 = [[], []]"
    "rg_pins (mg_registry m) = []" "\<exists>h. rg_active (mg_registry m) 1 = Some h \<and> sh_path h = ''a''"
  have "length (mt_map sample_mem) < 429496729"
    using arg_cong [OF sample_mem_entries(2), of length] by (simp add: sst_sample_def)
  note V = flush_node_versions [OF S(2,3) this S(4)]
  show thesis using that [OF S(1,4) V(1) _ S(5-8,10,11)] V(2) sample_versions [OF S(9)] by simp
qed

theorem engine_read_returns_newest_witness:
  "\<exists>m. length (all_files m) = 1 \<and> get_at_with_ts (\<lambda>_. 11) (\<lambda>_. None) mt_new (\<lambda>_. m) [97] 12 = Inr (Some [1], 9)"
proof (rule sample_flushed)
  fix m sz
  assume S: "lsm_inv (\<lambda>_. 11) (\<lambda>_. None) (mt_new, m)" "lsm_versions (\<lambda>_. 11) (\<lambda>_. None) (mt_new, m) = set sst_sample"
    "mg_levels m = [[sample_l0 sz], []]"
  obtain v where v: "newest (set sst_sample) [97] 12 v"
    "get_at_with_ts (\<lambda>_. 11) (\<lambda>_. None) mt_new (\<lambda>_. m) [97] 12 =
      Inr (case v of None \<Rightarrow> (None, 0) | Some e \<Rightarrow> (if e_tombstone e then None else e_value e, e_seq e))"
    using engine_read_returns_newest [OF S(1), of "[97]" 12] S(2) by auto
  have "v = Some (entry_put [97] [1] 9)"
    using newest_unique [OF _ v(1) sample_newest(2)] lsm.unique [OF S(1)] S(2) by simp
  then show ?thesis using v(2) S(3) by (intro exI [of _ m]) (simp add: all_files_def entry_put_def)
qed

section \<open>Compaction\<close>

lemma newest_union_gc:
  assumes "gc_keeps V wm W" "wm \<le> ts" "newest (U \<union> V) k ts r"
  shows "newest (U \<union> W) k ts r"
proof (cases r)
  case None
  then show ?thesis using assms(1,3) by (auto simp: gc_keeps_def)
next
  case (Some e)
  note N = newest_SomeD [OF assms(3) [unfolded Some]]
  have "e \<in> U \<union> W"
  proof (cases "e \<in> V")
    case True
    then have "newest V k ts (Some e)" using N by (auto simp: newest_def)
    then have "newest W k ts (Some e)" by (rule gc_keeps_newest [OF assms(1,2)])
    then show ?thesis by (auto simp: newest_def)
  qed (use N in auto)
  moreover have "U \<union> W \<subseteq> U \<union> V" using assms(1) by (auto simp: gc_keeps_def)
  ultimately show ?thesis unfolding Some using N by (intro newest_SomeI) auto
qed

lemma pin_inputs_Inr:
  "pin_inputs fs rg = (Inr hs, rg') \<Longrightarrow>
   rg_active rg' = rg_active rg \<and> map Some hs = map (\<lambda>f. rg_active rg (fm_id f)) fs"
proof (induction fs arbitrary: rg hs)
  case (Cons f fs)
  then show ?case
    by (fastforce simp: rg_pin_def split: option.splits prod.splits sum.splits)
qed simp

lemma drop_pins_active [simp]: "rg_active (drop_pins hs rg) = rg_active rg"
  by (induction hs arbitrary: rg) (simp_all add: drop_pins_def pin_drop_def)

lemma retire_active: "rg_active (snd (rg_retire e i rg)) = (rg_active rg)(i := None)"
  by (auto simp: rg_retire_def rg_retire_begin_def rg_reap_def Let_def split: option.splits)

lemma retire_inputs_active:
  "retire_inputs unl is rg = (Inr ds, rg') \<Longrightarrow> rg_active rg' j = (if j \<in> set is then None else rg_active rg j)"
proof (induction "is" arbitrary: rg ds)
  case (Cons i "is")
  then obtain st rg1 ds' where r: "rg_retire (unl i) i rg = (Inr st, rg1)" "retire_inputs unl is rg1 = (Inr ds', rg')"
    by (auto split: prod.splits sum.splits)
  then show ?case using Cons.IH [OF r(2)] retire_active [of "unl i" i rg] by auto
qed simp

lemma build_outputs_tables:
  assumes "build_outputs xxh put unl sst_path tmp pl ss first outs m = (Inr outs', m')" "pools_serve xxh pools"
    and "\<forall>s \<in> set ss. length s < 429496729"
  shows "\<exists>new. outs' = outs @ new \<and> mg_levels m' = mg_levels m \<and>
    (\<forall>j. rg_active (mg_registry m) j \<noteq> None \<longrightarrow> rg_active (mg_registry m') j = rg_active (mg_registry m) j) \<and>
    (\<forall>f \<in> set new. rg_active (mg_registry m) (fm_id f) = None \<and> file_reads_ok xxh pools (mg_registry m') f) \<and>
    (\<Union>f \<in> set new. file_versions xxh pools (mg_registry m') f) = set (concat ss)"
  using assms
proof (induction ss arbitrary: first outs m)
  case (Cons s ss)
  obtain i m1 where i: "(if first then (pl_output_id pl, m) else allocate_sst_id m) = (i, m1)" by fastforce
  have m1: "mg_registry m1 = mg_registry m" "mg_levels m1 = mg_levels m"
    using i by (auto simp: allocate_sst_id_def split: if_splits)
  obtain f m2 rg where w: "write_table xxh sst_path tmp (pl_output_level pl) i s m1 = (Inr f, m2)"
    and reg: "rg_register xxh (fm_id f) (fm_path f) (mg_registry m2) = (Inr (), rg)"
    and rest: "build_outputs xxh put unl sst_path tmp pl ss False (outs @ [f]) (m2\<lparr>mg_registry := rg\<rparr>) = (Inr outs', m')"
    using Cons.prems(1) i by (auto simp: Let_def split: sum.splits prod.splits)
  obtain bs where W: "sst_write xxh (tmp i) s (mg_block_size m1) = Inr bs"
    "m2 = m1\<lparr>mg_registry := (mg_registry m1)\<lparr>rg_fs := (rg_fs (mg_registry m1))(sst_path (pl_output_level pl) i \<mapsto> bs)\<rparr>\<rparr>"
    "fm_id f = i" "fm_path f = sst_path (pl_output_level pl) i" "fm_smallest f = e_key (hd s)" "fm_largest f = e_key (last s)"
    using write_table_Inr [OF w] by blast
  obtain bs' r where R: "rg_fs (mg_registry m2) (fm_path f) = Some bs'" "sst_open xxh bs' = Inr r" "rg_active (mg_registry m2) (fm_id f) = None"
    "rg = (mg_registry m2)\<lparr>rg_active := (rg_active (mg_registry m2))(fm_id f \<mapsto> \<lparr>sh_id = fm_id f, sh_path = fm_path f, sh_reader = r\<rparr>)\<rparr>"
    using rg_register_Inr [OF reg] by blast
  have bs: "bs' = bs" using R(1) W(2,4) by simp
  have len: "length s < 429496729" using Cons.prems(3) by simp
  note T = written_table [OF W(1) len R(2) [unfolded bs] Cons.prems(2)]
  have a2: "rg_active (mg_registry m2) = rg_active (mg_registry m)" using W(2) m1(1) by simp
  obtain new where N: "outs' = (outs @ [f]) @ new" "mg_levels m' = mg_levels m"
    "\<And>j. rg_active rg j \<noteq> None \<Longrightarrow> rg_active (mg_registry m') j = rg_active rg j"
    "\<And>g. g \<in> set new \<Longrightarrow> rg_active rg (fm_id g) = None \<and> file_reads_ok xxh pools (mg_registry m') g"
    "(\<Union>g \<in> set new. file_versions xxh pools (mg_registry m') g) = set (concat ss)"
    using Cons.IH [OF rest Cons.prems(2)] Cons.prems(3) m1(2) W(2) by auto
  have actf: "rg_active (mg_registry m') (fm_id f) = Some \<lparr>sh_id = fm_id f, sh_path = fm_path f, sh_reader = r\<rparr>"
    using N(3) [of "fm_id f"] by (simp add: R(4))
  have vf: "file_versions xxh pools (mg_registry m') f = set s" by (simp add: file_versions_def actf T(2))
  have "file_reads_ok xxh pools (mg_registry m') f"
    using T(1) slice_keys_in_range [OF T(3) W(5,6)] by (simp add: file_reads_ok_def actf vf)
  moreover have "rg_active (mg_registry m) (fm_id g) = None" if "g \<in> set new" for g
    using N(4) [OF that] a2 by (auto simp: R(4) split: if_splits)
  moreover have "rg_active (mg_registry m') j = rg_active (mg_registry m) j" if "rg_active (mg_registry m) j \<noteq> None" for j
    using N(3) [of j] that R(3) a2 by (auto simp: R(4))
  ultimately show ?case
    using N(1,2,4,5) R(3) a2 vf by (intro exI [of _ "f # new"]) auto
qed simp

text \<open>What the catalog's files read is untouched.\<close>

definition keeps_tables :: "sst_manager \<Rightarrow> sst_manager \<Rightarrow> bool" where
  "keeps_tables m m' \<longleftrightarrow> mg_levels m' = mg_levels m \<and>
     (\<forall>j. rg_active (mg_registry m) j \<noteq> None \<longrightarrow> rg_active (mg_registry m') j = rg_active (mg_registry m) j)"

lemma file_ok_kept:
  assumes "file_reads_ok xxh pools rg f" "rg_active rg' (fm_id f) = rg_active rg (fm_id f)"
  shows "file_reads_ok xxh pools rg' f" "file_versions xxh pools rg' f = file_versions xxh pools rg f"
  using assms by (simp_all add: file_reads_ok_def file_versions_def)

lemma keeps_tables_lsm:
  assumes "lsm_inv xxh pools (mem, m)" "keeps_tables m m'"
  shows "lsm_inv xxh pools (mem, m') \<and> lsm_versions xxh pools (mem, m') = lsm_versions xxh pools (mem, m)"
proof -
  have fs: "set (all_files m') = set (all_files m)" using assms(2) by (simp add: keeps_tables_def all_files_def)
  have ok: "file_reads_ok xxh pools (mg_registry m) f" if "f \<in> set (all_files m)" for f
    using assms(1) that by (simp add: lsm_inv_def tables_ok_def)
  then have act: "rg_active (mg_registry m') (fm_id f) = rg_active (mg_registry m) (fm_id f)" if "f \<in> set (all_files m)" for f
    using assms(2) that by (fastforce simp: keeps_tables_def file_reads_ok_def)
  have "lsm_versions xxh pools (mem, m') = lsm_versions xxh pools (mem, m)"
    using file_ok_kept(2) [OF ok act] by (simp add: lsm_versions_def table_versions_def fs)
  moreover have "tables_ok xxh pools m'" using file_ok_kept(1) [OF ok act] by (simp add: tables_ok_def fs)
  ultimately show ?thesis using assms(1) by (simp add: lsm_inv_def)
qed

lemma retire_all_active: "rg_active (retire_all unl is rg) j = (if j \<in> set is then None else rg_active rg j)"
  by (induction "is" arbitrary: rg) (auto simp: retire_all_def retire_active)

lemma retire_inputs_others: "j \<notin> set is \<Longrightarrow> rg_active (snd (retire_inputs unl is rg)) j = rg_active rg j"
proof (induction "is" arbitrary: rg)
  case (Cons i "is")
  obtain st rg1 where r: "rg_retire (unl i) i rg = (st, rg1)" by fastforce
  have "rg_active rg1 j = rg_active rg j" using retire_active [of "unl i" i rg] Cons.prems by (simp add: r)
  then show ?case using Cons.IH [of rg1] Cons.prems by (auto simp: r split: sum.splits prod.splits)
qed simp

lemma pin_inputs_active [simp]: "rg_active (snd (pin_inputs fs rg)) = rg_active rg"
proof (induction fs arbitrary: rg)
  case (Cons f fs)
  show ?case
    using Cons.IH [of "snd (rg_pin (fm_id f) rg)"]
    by (auto simp: rg_pin_def pin_drop_def split: option.splits prod.splits sum.splits)
qed simp

lemma build_outputs_keeps:
  assumes "keeps_tables m0 m" "\<forall>f \<in> set outs. rg_active (mg_registry m0) (fm_id f) = None"
  shows "keeps_tables m0 (snd (build_outputs xxh put unl sst_path tmp pl ss first outs m))"
  using assms
proof (induction ss arbitrary: first outs m)
  case (Cons s ss)
  let ?goal = "keeps_tables m0 (snd (build_outputs xxh put unl sst_path tmp pl (s # ss) first outs m))"
  obtain i m1 where i: "(if first then (pl_output_id pl, m) else allocate_sst_id m) = (i, m1)" by fastforce
  have k1: "keeps_tables m0 m1" using i Cons.prems(1) by (auto simp: allocate_sst_id_def keeps_tables_def split: if_splits)
  obtain w m2 where w: "write_table xxh sst_path tmp (pl_output_level pl) i s m1 = (w, m2)" by fastforce
  have k2: "keeps_tables m0 m2"
    using w k1 by (auto simp: write_table_def keeps_tables_def Let_def split: sum.splits)
  show ?goal
  proof (cases w)
    case (Inl e)
    then show ?thesis using i w k2 by simp
  next
    case (Inr f)
    obtain g rg where g: "rg_register xxh (fm_id f) (fm_path f) (mg_registry m2) = (g, rg)" by fastforce
    show ?thesis
    proof (cases g)
      case (Inl e)
      then have "rg = mg_registry m2" using g by (auto simp: rg_register_def split: if_splits option.splits sum.splits)
      then have "keeps_tables m0 (m2\<lparr>mg_registry := retire_all unl (map fm_id outs) (remove_file (fm_path f) rg)\<rparr>)"
        using k2 Cons.prems(2) by (fastforce simp: keeps_tables_def retire_all_active remove_file_def)
      then show ?thesis using i w g \<open>w = Inr f\<close> Inl by simp
    next
      case (Inr u)
      obtain bs r where R: "rg_active (mg_registry m2) (fm_id f) = None"
        "rg = (mg_registry m2)\<lparr>rg_active := (rg_active (mg_registry m2))(fm_id f \<mapsto> \<lparr>sh_id = fm_id f, sh_path = fm_path f, sh_reader = r\<rparr>)\<rparr>"
        using rg_register_Inr [of xxh "fm_id f" "fm_path f" "mg_registry m2" u rg] g Inr by auto
      have new: "rg_active (mg_registry m0) (fm_id f) = None" using k2 R(1) by (fastforce simp: keeps_tables_def)
      have k3: "keeps_tables m0 (m2\<lparr>mg_registry := rg\<rparr>)" using k2 new R(2) by (auto simp: keeps_tables_def)
      have k4: "keeps_tables m0 (m2\<lparr>mg_registry := retire_all unl (fm_id f # map fm_id outs) rg\<rparr>)"
        using k3 new Cons.prems(2) unfolding keeps_tables_def by (simp add: retire_all_active) fastforce
      show ?thesis
        using i w g \<open>w = Inr f\<close> Inr k4 Cons.IH [OF k3, of "outs @ [f]" False] Cons.prems(2) new
        by (auto simp: Let_def split: sum.splits)
    qed
  qed
qed simp

lemma all_files_replaced:
  assumes "mg_levels m' = replace_inputs pl outs (mg_levels m)" "pl_output_level pl < length (mg_levels m)"
  shows "set (all_files m') = {f \<in> set (all_files m). fm_id f \<notin> pl_reserved pl} \<union> set outs"
proof -
  let ?m = "m\<lparr>mg_levels := map (filter (\<lambda>f. fm_id f \<notin> pl_reserved pl)) (mg_levels m)\<rparr>"
  have "set (all_files m') = set (all_files ?m) \<union> set outs"
    using assms by (intro all_files_insert [of m' ?m "pl_output_level pl" outs]) (simp_all add: replace_inputs_def Let_def)
  then show ?thesis by (auto simp: all_files_def)
qed

lemma install_outputs_Inr:
  "install_outputs pl outs m = (Inr u, m') \<Longrightarrow>
   mg_levels m' = replace_inputs pl outs (mg_levels m) \<and> mg_registry m' = mg_registry m"
  by (auto simp: install_outputs_def notify_l0_changed_def Let_def split: if_splits sum.splits)

lemma install_outputs_Inl: "install_outputs pl outs m = (Inl e, m') \<Longrightarrow> m' = m"
  by (auto simp: install_outputs_def Let_def split: if_splits sum.splits)

lemma plan_ok_inputs:
  assumes "plan_ok m pl"
  shows "set (pl_inputs pl) \<subseteq> set (all_files m)" "pl_output_level pl < length (mg_levels m)" "pl_reserved pl = fm_id ` set (pl_inputs pl)"
proof -
  have l: "pl_source_level pl < length (mg_levels m)" "pl_output_level pl < length (mg_levels m)"
    using assms by (auto simp: plan_ok_def)
  then show "set (pl_inputs pl) \<subseteq> set (all_files m)" using assms in_all_files [of _ m] unfolding plan_ok_def by blast
  show "pl_output_level pl < length (mg_levels m)" by (rule l(2))
  show "pl_reserved pl = fm_id ` set (pl_inputs pl)" using assms by (simp add: plan_ok_def)
qed

text \<open>The catalog after the installation, whatever of the inputs is retired by then.\<close>

lemma installed_tables:
  assumes inv: "lsm_inv xxh pools (mem, m)" and pl: "plan_ok m pl" "inj_on fm_id (set (all_files m))"
    and lv: "mg_levels m' = replace_inputs pl outs (mg_levels m)"
    and old: "\<forall>j. rg_active (mg_registry m) j \<noteq> None \<and> j \<notin> pl_reserved pl \<longrightarrow> rg_active (mg_registry m') j = rg_active (mg_registry m) j"
    and new: "\<forall>f \<in> set outs. file_reads_ok xxh pools (mg_registry m') f"
    and gc: "gc_keeps (\<Union>f \<in> set (pl_inputs pl). file_versions xxh pools (mg_registry m) f) wm
      (\<Union>f \<in> set outs. file_versions xxh pools (mg_registry m') f)"
  shows "lsm_inv xxh pools (mem, m') \<and> (\<forall>k ts. wm \<le> ts \<longrightarrow> lsm_read xxh pools (mem, m') k ts = lsm_read xxh pools (mem, m) k ts)"
proof -
  let ?K = "{f \<in> set (all_files m). fm_id f \<notin> pl_reserved pl}"
  let ?U = "mt_versions mem \<union> (\<Union>f \<in> ?K. file_versions xxh pools (mg_registry m) f)"
  let ?V = "\<Union>f \<in> set (pl_inputs pl). file_versions xxh pools (mg_registry m) f"
  let ?W = "\<Union>f \<in> set outs. file_versions xxh pools (mg_registry m') f"
  note P = plan_ok_inputs [OF pl(1)]
  have ok: "file_reads_ok xxh pools (mg_registry m) f" if "f \<in> set (all_files m)" for f
    using inv that by (simp add: lsm_inv_def tables_ok_def)
  have act: "rg_active (mg_registry m') (fm_id f) = rg_active (mg_registry m) (fm_id f)" if "f \<in> ?K" for f
    using old ok [of f] that by (fastforce simp: file_reads_ok_def)
  have kept: "file_reads_ok xxh pools (mg_registry m') f" "file_versions xxh pools (mg_registry m') f = file_versions xxh pools (mg_registry m) f"
    if "f \<in> ?K" for f
    using file_ok_kept [OF ok act] that by blast+
  have "f \<in> ?K \<or> f \<in> set (pl_inputs pl)" if "f \<in> set (all_files m)" for f
    using P(1,3) inj_onD [OF pl(2)] that by fastforce
  then have "set (all_files m) = ?K \<union> set (pl_inputs pl)" using P(1) by auto
  then have V: "lsm_versions xxh pools (mem, m) = ?U \<union> ?V" by (simp add: lsm_versions_def table_versions_def) blast
  have fs: "set (all_files m') = ?K \<union> set outs" by (rule all_files_replaced [OF lv P(2)])
  have W: "lsm_versions xxh pools (mem, m') = ?U \<union> ?W"
    using kept(2) by (simp add: lsm_versions_def table_versions_def fs) blast
  have "?W \<subseteq> ?V" using gc by (simp add: gc_keeps_def)
  then have "versions_unique (lsm_versions xxh pools (mem, m'))"
    using inv unfolding W V lsm_inv_def versions_unique_def by (blast intro: inj_on_subset)
  moreover have "tables_ok xxh pools m'" using kept(1) new by (auto simp: tables_ok_def fs)
  ultimately have inv': "lsm_inv xxh pools (mem, m')" using inv by (simp add: lsm_inv_def)
  have "lsm_read xxh pools (mem, m') k ts = lsm_read xxh pools (mem, m) k ts" if "wm \<le> ts" for k ts
    using newest_union_gc [OF gc that, of ?U] lsm.read_newest [OF inv] lsm.get_at_eqI [OF inv'] unfolding V W by blast
  then show ?thesis using inv' by blast
qed

lemma finite_table_versions: "finite (table_versions xxh pools m)"
  by (auto simp: table_versions_def file_versions_def sst_versions_def split: option.splits sum.splits)

lemma version_sorted_distinct: "version_sorted es \<Longrightarrow> distinct es"
  by (induction es) auto

lemma plan_inputs_merge:
  assumes "lsm_inv xxh pools (mem, m)" "plan_ok m pl" "pin_inputs (pl_inputs pl) (mg_registry m) = (Inr hs, rg)"
  obtains out where "kway_merge (cursor_next xxh pools) (map (cursor_new \<circ> sh_reader) hs) wm = Some (Inr out)"
    "gc_keeps (\<Union>f \<in> set (pl_inputs pl). file_versions xxh pools (mg_registry m) f) wm (set out)"
    "length out \<le> card (table_versions xxh pools m)"
proof -
  let ?rs = "map sh_reader hs" and ?V = "\<Union>f \<in> set (pl_inputs pl). file_versions xxh pools (mg_registry m) f"
  have hs: "map Some hs = map (\<lambda>f. rg_active (mg_registry m) (fm_id f)) (pl_inputs pl)"
    using pin_inputs_Inr [OF assms(3)] by blast
  have sub: "set (pl_inputs pl) \<subseteq> set (all_files m)" by (rule plan_ok_inputs(1) [OF assms(2)])
  have "(\<Union>r \<in> set ?rs. sst_versions xxh (pools r) r) = (\<Union>h \<in> Some ` set hs. case h of None \<Rightarrow> {} | Some h \<Rightarrow> sst_versions xxh (pools (sh_reader h)) (sh_reader h))"
    by simp
  also have "Some ` set hs = (\<lambda>f. rg_active (mg_registry m) (fm_id f)) ` set (pl_inputs pl)"
    using arg_cong [OF hs, of set] by simp
  finally have V: "(\<Union>r \<in> set ?rs. sst_versions xxh (pools r) r) = ?V" by (simp add: file_versions_def)
  have VT: "?V \<subseteq> table_versions xxh pools m" using sub by (auto simp: table_versions_def)
  have "\<exists>f \<in> set (pl_inputs pl). rg_active (mg_registry m) (fm_id f) = Some h" if "h \<in> set hs" for h
  proof -
    have "Some h \<in> set (map Some hs)" using that by simp
    then show ?thesis unfolding hs by auto
  qed
  moreover have "file_reads_ok xxh pools (mg_registry m) f" if "f \<in> set (pl_inputs pl)" for f
    using assms(1) sub that by (auto simp: lsm_inv_def tables_ok_def)
  ultimately have wf: "\<forall>r \<in> set ?rs. sst_wf xxh (pools r) r" by (fastforce simp: file_reads_ok_def)
  have "versions_unique ?V"
    using assms(1) VT unfolding lsm_inv_def versions_unique_def lsm_versions_def by (auto intro: inj_on_subset)
  then obtain out where out: "kway_merge (cursor_next xxh pools) (map cursor_new ?rs) wm = Some (Inr out)" "version_sorted out"
    "gc_keeps ?V wm (set out)"
    using kway_merge_tables [OF wf, unfolded V] by blast
  have "length out = card (set out)" using version_sorted_distinct [OF out(2)] by (simp add: distinct_card)
  also have "\<dots> \<le> card (table_versions xxh pools m)"
    using out(3) VT by (intro card_mono finite_table_versions) (auto simp: gc_keeps_def)
  finally show thesis using that out(1,3) by simp
qed

lemma keeps_tables_reads:
  assumes "lsm_inv xxh pools (mem, m)" "keeps_tables m m'"
  shows "lsm_inv xxh pools (mem, m') \<and> (\<forall>k ts. wm \<le> ts \<longrightarrow> lsm_read xxh pools (mem, m') k ts = lsm_read xxh pools (mem, m) k ts)"
  using keeps_tables_lsm [OF assms] lsm.same_versions_same_reads [OF assms(1)] by blast

text \<open>The part of the run after the merge, with the inputs pinned.\<close>

lemma build_and_install:
  assumes inv: "lsm_inv xxh pools (mem, m)" and pl: "plan_ok m pl" "inj_on fm_id (set (all_files m))"
    and serve: "pools_serve xxh pools" and small: "\<forall>s \<in> set ss. length s < 429496729"
    and m1: "mg_levels m1 = mg_levels m" "rg_active (mg_registry m1) = rg_active (mg_registry m)"
    and gc: "gc_keeps (\<Union>f \<in> set (pl_inputs pl). file_versions xxh pools (mg_registry m) f) wm (set (concat ss))"
    and b: "build_outputs xxh put unl sst_path tmp pl ss True [] m1 = (Inr outs, m2)"
  shows "install_outputs pl outs m2 = (Inl e, m3) \<Longrightarrow>
      keeps_tables m (m3\<lparr>mg_registry := drop_pins hs (retire_all unl (map fm_id outs) (mg_registry m3))\<rparr>)"
    "install_outputs pl outs m2 = (Inr u, m3) \<Longrightarrow>
      lsm_inv xxh pools (mem, m3\<lparr>mg_registry := snd (retire_inputs unl (map fm_id (pl_inputs pl)) (drop_pins hs (mg_registry m3)))\<rparr>) \<and>
      (\<forall>k ts. wm \<le> ts \<longrightarrow>
        lsm_read xxh pools (mem, m3\<lparr>mg_registry := snd (retire_inputs unl (map fm_id (pl_inputs pl)) (drop_pins hs (mg_registry m3)))\<rparr>) k ts =
        lsm_read xxh pools (mem, m) k ts)"
proof -
  have T: "mg_levels m2 = mg_levels m"
    "\<forall>j. rg_active (mg_registry m) j \<noteq> None \<longrightarrow> rg_active (mg_registry m2) j = rg_active (mg_registry m) j"
    "\<forall>f \<in> set outs. rg_active (mg_registry m) (fm_id f) = None \<and> file_reads_ok xxh pools (mg_registry m2) f"
    "(\<Union>f \<in> set outs. file_versions xxh pools (mg_registry m2) f) = set (concat ss)"
    using build_outputs_tables [OF b serve small] by (auto simp: m1)
  show "keeps_tables m (m3\<lparr>mg_registry := drop_pins hs (retire_all unl (map fm_id outs) (mg_registry m3))\<rparr>)"
    if "install_outputs pl outs m2 = (Inl e, m3)"
    using install_outputs_Inl [OF that] T(1-3) by (fastforce simp: keeps_tables_def retire_all_active)
  assume i: "install_outputs pl outs m2 = (Inr u, m3)"
  let ?m4 = "m3\<lparr>mg_registry := snd (retire_inputs unl (map fm_id (pl_inputs pl)) (drop_pins hs (mg_registry m3)))\<rparr>"
  note I = install_outputs_Inr [OF i] and P = plan_ok_inputs [OF pl(1)]
  have act: "rg_active (mg_registry ?m4) j = rg_active (mg_registry m2) j" if "j \<notin> pl_reserved pl" for j
    using retire_inputs_others [of j "map fm_id (pl_inputs pl)" unl "drop_pins hs (mg_registry m3)"] I that by (simp add: P(3))
  have "rg_active (mg_registry m) j \<noteq> None" if j: "j \<in> pl_reserved pl" for j
  proof -
    obtain f where f: "j = fm_id f" "f \<in> set (all_files m)" using j P(1,3) by auto
    then have "file_reads_ok xxh pools (mg_registry m) f" using inv by (simp add: lsm_inv_def tables_ok_def)
    then show ?thesis by (auto simp: file_reads_ok_def f(1))
  qed
  then have out: "fm_id f \<notin> pl_reserved pl" if "f \<in> set outs" for f using T(3) that by blast
  have new: "file_reads_ok xxh pools (mg_registry ?m4) f \<and> file_versions xxh pools (mg_registry ?m4) f = file_versions xxh pools (mg_registry m2) f"
    if "f \<in> set outs" for f
    using file_ok_kept [OF _ act [OF out [OF that]]] T(3) that by blast
  show "lsm_inv xxh pools (mem, ?m4) \<and> (\<forall>k ts. wm \<le> ts \<longrightarrow> lsm_read xxh pools (mem, ?m4) k ts = lsm_read xxh pools (mem, m) k ts)"
  proof (rule installed_tables [OF inv pl])
    show "mg_levels ?m4 = replace_inputs pl outs (mg_levels m)" using I T(1) by simp
    show "\<forall>j. rg_active (mg_registry m) j \<noteq> None \<and> j \<notin> pl_reserved pl \<longrightarrow> rg_active (mg_registry ?m4) j = rg_active (mg_registry m) j"
      using act T(2) by simp
    show "\<forall>f \<in> set outs. file_reads_ok xxh pools (mg_registry ?m4) f" by (intro ballI conjunct1 [OF new])
    have "(\<Union>f \<in> set outs. file_versions xxh pools (mg_registry ?m4) f) = (\<Union>f \<in> set outs. file_versions xxh pools (mg_registry m2) f)"
      by (rule SUP_cong [OF refl]) (simp only: new)
    then show "gc_keeps (\<Union>f \<in> set (pl_inputs pl). file_versions xxh pools (mg_registry m) f) wm
        (\<Union>f \<in> set outs. file_versions xxh pools (mg_registry ?m4) f)" unfolding T(4) by (simp only: gc)
  qed
qed

text \<open>
  C33. Running a compaction plan always returns, and whether it succeeds or fails at any of its
  steps (pinning, merging, writing, registering, uploading, installing, retiring), the store keeps
  its invariant and every read at or above the watermark is unchanged.
\<close>

theorem compaction_keeps_reads:
  assumes "lsm_inv xxh pools (mem, m)" "cat_inv m ps" "pl \<in> set ps" "pools_serve xxh pools"
    and "card (table_versions xxh pools m) < 429496729"
  shows "\<exists>res m'. execute_plan xxh pools put unl sst_path tmp pl m = Some (res, m') \<and> lsm_inv xxh pools (mem, m') \<and>
    (\<forall>k ts. mg_watermark m \<le> ts \<longrightarrow> lsm_read xxh pools (mem, m') k ts = lsm_read xxh pools (mem, m) k ts)"
proof -
  have pl: "plan_ok m pl" "inj_on fm_id (set (all_files m))" using assms(2,3) by (auto simp: cat_inv_def levels_ok_def)
  obtain p rg where p: "pin_inputs (pl_inputs pl) (mg_registry m) = (p, rg)" by fastforce
  have rg: "rg_active rg = rg_active (mg_registry m)" using pin_inputs_active [of "pl_inputs pl" "mg_registry m"] by (simp add: p)
  let ?m1 = "m\<lparr>mg_registry := rg\<rparr>"
  have k1: "keeps_tables m ?m1" by (simp add: keeps_tables_def rg)
  note keep = keeps_tables_reads [OF assms(1), of _ "mg_watermark m"]
  show ?thesis
  proof (cases p)
    case (Inl e)
    then show ?thesis using p keep [OF k1] by (simp add: execute_plan_def)
  next
    case (Inr hs)
    obtain out where out: "kway_merge (cursor_next xxh pools) (map (cursor_new \<circ> sh_reader) hs) (mg_watermark m) = Some (Inr out)"
      "gc_keeps (\<Union>f \<in> set (pl_inputs pl). file_versions xxh pools (mg_registry m) f) (mg_watermark m) (set out)"
      "length out \<le> card (table_versions xxh pools m)"
      using plan_inputs_merge [OF assms(1) pl(1) p [unfolded Inr]] by blast
    have unpin: "keeps_tables m (m'\<lparr>mg_registry := drop_pins hs (mg_registry m')\<rparr>)" if "keeps_tables m m'" for m'
      using that by (simp add: keeps_tables_def)
    let ?ss = "split_entries_by_max_bytes out (mg_max_sst_bytes m)"
    have small: "\<forall>s \<in> set ?ss. length s < 429496729" using slice_length out(3) assms(5) by (fastforce dest: slice_length)
    obtain b m2 where b: "build_outputs xxh put unl sst_path tmp pl ?ss True [] ?m1 = (b, m2)" by fastforce
    have k2: "keeps_tables m m2" using build_outputs_keeps [OF k1, of "[]" xxh put unl sst_path tmp pl ?ss True] b by simp
    have gc: "gc_keeps (\<Union>f \<in> set (pl_inputs pl). file_versions xxh pools (mg_registry m) f) (mg_watermark m) (set (concat ?ss))"
      using out(2) by (simp only: split_entries_parts(1))
    have m1: "mg_levels ?m1 = mg_levels m" "rg_active (mg_registry ?m1) = rg_active (mg_registry m)" using rg by simp_all
    consider "out = []" | e where "out \<noteq> []" "b = Inl e" | outs where "out \<noteq> []" "b = Inr outs" by (cases b) auto
    then show ?thesis
    proof cases
      case 1
      then show ?thesis using p Inr out(1) keep [OF unpin [OF k1]] by (simp add: execute_plan_def)
    next
      case 2
      then show ?thesis using p Inr out(1) b keep [OF unpin [OF k2]] by (simp add: execute_plan_def)
    next
      case 3
      note BI3 = build_and_install [OF assms(1) pl assms(4) small m1 gc b [unfolded 3(2)]]
      obtain r m3 where i: "install_outputs pl outs m2 = (r, m3)" by fastforce
      obtain q rg' where q: "retire_inputs unl (map fm_id (pl_inputs pl)) (drop_pins hs (mg_registry m3)) = (q, rg')" by fastforce
      show ?thesis
      proof (cases r)
        case (Inl e)
        then show ?thesis using p \<open>p = Inr hs\<close> out(1) b 3 i keep [OF BI3(1) [of e m3 hs]] by (simp add: execute_plan_def)
      next
        case (Inr u)
        then show ?thesis
          using p \<open>p = Inr hs\<close> out(1) b 3 i q BI3(2) [of u m3 hs] by (cases q) (simp_all add: execute_plan_def)
      qed
    qed
  qed
qed

theorem compaction_keeps_reads_witness:
  "\<exists>m pl res m'. length (pl_inputs pl) = 1 \<and>
     execute_plan (\<lambda>_. 11) (\<lambda>_. None) None (\<lambda>_. None) (\<lambda>l _. if l = 0 then ''a'' else ''b'') (\<lambda>_. False) pl m = Some (res, m') \<and>
     lsm_read (\<lambda>_. 11) (\<lambda>_. None) (mt_new, m') [97] 5 = Some (entry_delete [97] 4)"
proof (rule sample_flushed)
  fix m0 sz m
  assume S: "manager_new (registry_new Map.empty) 8 2 1 = Inr m0"
    "lsm_inv (\<lambda>_. 11) (\<lambda>_. None) (mt_new, m)" "lsm_versions (\<lambda>_. 11) (\<lambda>_. None) (mt_new, m) = set sst_sample"
    "mg_levels m = [[sample_l0 sz], []]" "mg_reserved m = {}" "mg_next_id m = 2" "mg_watermark m = 0"
  let ?pl = "\<lparr>pl_source_level = 0, pl_output_level = 1, pl_inputs = [sample_l0 sz], pl_reserved = {1}, pl_output_id = 2\<rparr>"
  let ?m2 = "m\<lparr>mg_reserved := {1}, mg_next_id := 3\<rparr>"
  have "pick 0 m = (Inr (Some ?pl), ?m2)"
    by (simp add: pick_def S select_source_def closure_loop.simps) (simp add: sample_l0_def)
  moreover have "cat_inv m []"
    by (simp add: cat_inv_def levels_ok_def S all_files_def less_Suc_eq) (simp add: sample_l0_def file_ok_def)
  ultimately have I: "cat_inv ?m2 [?pl]" using pick_inv by blast
  have "keeps_tables m ?m2" by (simp add: keeps_tables_def)
  note L = keeps_tables_lsm [OF S(2) this]
  have "table_versions (\<lambda>_. 11) (\<lambda>_. None) ?m2 = set sst_sample"
    using L S(3) by (simp add: lsm_versions_def mt_versions_def mt_new_def)
  then have "card (table_versions (\<lambda>_. 11) (\<lambda>_. None) ?m2) \<le> length sst_sample" by (simp add: card_length)
  then have small: "card (table_versions (\<lambda>_. 11) (\<lambda>_. None) ?m2) < 429496729" by (simp add: sst_sample_def)
  have serve: "pools_serve (\<lambda>_. 11) (\<lambda>_. None)" by (simp add: pools_serve_def pool_serves_def)
  obtain res m' where E: "execute_plan (\<lambda>_. 11) (\<lambda>_. None) None (\<lambda>_. None) (\<lambda>l _. if l = 0 then ''a'' else ''b'') (\<lambda>_. False) ?pl ?m2 = Some (res, m')"
    "lsm_read (\<lambda>_. 11) (\<lambda>_. None) (mt_new, m') [97] 5 = lsm_read (\<lambda>_. 11) (\<lambda>_. None) (mt_new, ?m2) [97] 5"
    using compaction_keeps_reads [OF conjunct1 [OF L] I _ serve small] S(7) by fastforce
  have "lsm_read (\<lambda>_. 11) (\<lambda>_. None) (mt_new, ?m2) [97] 5 = Some (entry_delete [97] 4)"
    by (rule lsm.get_at_eqI [OF conjunct1 [OF L]]) (simp add: L S(3) sample_newest)
  then show ?thesis using E by (intro exI [of _ ?m2] exI [of _ ?pl] exI [of _ res] exI [of _ m']) simp
qed

end
