(* ===== verification/Engine_Wal.thy ===== *)
theory Engine_Wal
  imports Lsm_Safety
begin

text \<open>
  The write-ahead log of the engine across flush, close and reopen (\<open>engine.rs\<close>): segments in a
  directory, rotation after a flush, pruning at a clean close, replay at open. The memtable and
  the tables are those of the previous theories. Between requests the flusher is idle, so a
  request's effect on the current segment is \<^const>\<open>wal_submit\<close>.
\<close>

section \<open>State and operations\<close>

text \<open>
  \<open>eg_wals\<close> is the directory of segments, \<open>eg_writer\<close> the segment the flusher writes to, \<open>eg_segment\<close>
  the segment counter and \<open>eg_seqno\<close> the \<open>SEQNO\<close> file.
\<close>

record engine =
  eg_mem :: memtable
  eg_mgr :: sst_manager
  eg_wals :: "(u64 \<times> disk_file) list"
  eg_writer :: u64
  eg_segment :: u64
  eg_next_seq :: u64
  eg_seqno :: "u64 option"

text \<open>What the operations depend on outside the engine.\<close>

record engine_env =
  ev_xxh :: "bytes \<Rightarrow> u64"
  ev_put :: object_put
  ev_paths :: sst_paths
  ev_stale_tmp :: "sst_id \<Rightarrow> bool"

definition wals_update :: "u64 \<Rightarrow> disk_file \<Rightarrow> (u64 \<times> disk_file) list \<Rightarrow> (u64 \<times> disk_file) list" where
  "wals_update i f ws = (if i \<in> fst ` set ws then map (\<lambda>(j, g). (j, if j = i then f else g)) ws else ws @ [(i, f)])"

text \<open>
  A command takes the next sequence number, goes through the flusher into the current segment
  and is published when that succeeds.
\<close>

definition engine_submit :: "(bytes \<Rightarrow> u64) \<Rightarrow> nat option \<Rightarrow> entry list \<Rightarrow> engine \<Rightarrow> unit result \<times> engine" where
  "engine_submit xxh io es eg =
     (case map_of (eg_wals eg) (eg_writer eg) of
        None \<Rightarrow> (Inl (Engine ''group-commit WAL flusher stopped''), eg)
      | Some w \<Rightarrow>
          let (w', r) = wal_submit xxh io es w; eg = eg\<lparr>eg_wals := wals_update (eg_writer eg) w' (eg_wals eg)\<rparr>
          in case r of
               Inl e \<Rightarrow> (Inl e, eg)
             | Inr _ \<Rightarrow> (Inr (), eg\<lparr>eg_mem := foldl mt_apply (eg_mem eg) es\<rparr>))"

definition engine_propose :: "(bytes \<Rightarrow> u64) \<Rightarrow> nat option \<Rightarrow> raft_command \<Rightarrow> engine \<Rightarrow> u64 result \<times> engine" where
  "engine_propose xxh io command eg =
     (let index = eg_next_seq eg; eg = eg\<lparr>eg_next_seq := eg_next_seq eg + 1\<rparr>
      in if is_meta command then (Inr index, eg)
         else case to_entries command index of
                Inl err \<Rightarrow> (Inl err, eg)
              | Inr es \<Rightarrow>
                  (case engine_submit xxh io es eg of
                     (Inl err, eg) \<Rightarrow> (Inl err, eg)
                   | (Inr _, eg) \<Rightarrow> (Inr index, eg)))"

text \<open>
  \<open>flush_node\<close> as a whole: the tables, then a new segment. The segment counter is raised before
  the new segment is created.
\<close>

definition engine_flush :: "engine_env \<Rightarrow> engine \<Rightarrow> unit result \<times> engine" where
  "engine_flush ev eg =
     (if mt_is_empty (eg_mem eg) then (Inr (), eg)
      else
        case flush_node (ev_xxh ev) (ev_put ev) (ev_paths ev) (ev_stale_tmp ev) (eg_mem eg) (eg_mgr eg) of
          (Inl e, mem, m) \<Rightarrow> (Inl e, eg\<lparr>eg_mem := mem, eg_mgr := m\<rparr>)
        | (Inr _, mem, m) \<Rightarrow>
            let eg = eg\<lparr>eg_mem := mem, eg_mgr := m, eg_segment := eg_segment eg + 1\<rparr>
            in case wal_create (map_of (eg_wals eg) (eg_segment eg)) of
                 Inl e \<Rightarrow> (Inl e, eg)
               | Inr w \<Rightarrow> (Inr (), eg\<lparr>eg_wals := wals_update (eg_segment eg) w (eg_wals eg), eg_writer := eg_segment eg\<rparr>))"

definition prune_wal_segments_below :: "u64 \<Rightarrow> (u64 \<times> disk_file) list \<Rightarrow> (u64 \<times> disk_file) list" where
  "prune_wal_segments_below keep_from ws = filter (\<lambda>(i, _). keep_from \<le> i) ws"

definition write_seq_marker :: "u64 \<Rightarrow> engine \<Rightarrow> engine" where
  "write_seq_marker next_seq eg = eg\<lparr>eg_seqno := Some next_seq\<rparr>"

definition read_seq_marker :: "u64 option \<Rightarrow> u64" where
  "read_seq_marker seqno = (case seqno of None \<Rightarrow> 0 | Some n \<Rightarrow> n)"

definition engine_close :: "engine_env \<Rightarrow> engine \<Rightarrow> unit result \<times> engine" where
  "engine_close ev eg =
     (case engine_flush ev eg of
        (Inl e, eg) \<Rightarrow> (Inl e, eg)
      | (Inr _, eg) \<Rightarrow>
          let eg = write_seq_marker (eg_next_seq eg) eg
          in (Inr (), eg\<lparr>eg_wals := prune_wal_segments_below (eg_segment eg) (eg_wals eg)\<rparr>))"

section \<open>Replay at open\<close>

definition replay_entry :: "memtable \<times> u64 \<Rightarrow> entry \<Rightarrow> memtable \<times> u64" where
  "replay_entry st e = (mt_apply (fst st) e, max (snd st) (sat_add (e_seq e) 1))"

text \<open>A torn tail is cut off before the segment is appended to again.\<close>

definition truncate_tail :: "wal_reader \<Rightarrow> disk_file \<Rightarrow> disk_file" where
  "truncate_tail r f =
     (if wr_torn_tail r then file_sync (f\<lparr>df_bytes := take (unat (wr_last_valid_offset r)) (df_bytes f)\<rparr>) else f)"

primrec replay_segments ::
  "(bytes \<Rightarrow> u64) \<Rightarrow> (u64 \<times> disk_file) list \<Rightarrow> (u64 \<times> disk_file) list \<Rightarrow> memtable \<times> u64 \<Rightarrow>
   ((u64 \<times> disk_file) list \<times> memtable \<times> u64) result"
where
  "replay_segments xxh [] seen st = Inr (seen, st)"
| "replay_segments xxh (s # ss) seen st =
     rbind (wal_recover xxh replay_entry (df_bytes (snd s)) st) (\<lambda>(r, st, res).
     rbind res (\<lambda>_. replay_segments xxh ss (seen @ [(fst s, truncate_tail r (snd s))]) st))"

text \<open>The directory, the memtable, the next sequence number and the segment to write to.\<close>

definition recover_wal :: "(bytes \<Rightarrow> u64) \<Rightarrow> (u64 \<times> disk_file) list \<Rightarrow> ((u64 \<times> disk_file) list \<times> memtable \<times> u64 \<times> u64) result" where
  "recover_wal xxh ws =
     rbind (replay_segments xxh (sort_key fst ws) [] (mt_new, 1)) (\<lambda>(ws, mem, next_seq).
       let highest = foldl max 0 (map fst ws)
       in if highest = 0 then rbind (wal_create (map_of ws 1)) (\<lambda>w. Inr (wals_update 1 w ws, mem, next_seq, 1))
          else rbind (wal_open_append (map_of ws highest)) (\<lambda>_. Inr (ws, mem, next_seq, highest)))"

text \<open>\<open>TakyonicEngine::open\<close>, with the redo log of the transactions empty.\<close>

definition engine_open ::
  "(bytes \<Rightarrow> u64) \<Rightarrow> (sst_reader \<Rightarrow> page_source) \<Rightarrow> sst_paths \<Rightarrow> (nat \<Rightarrow> sst_id list) \<Rightarrow> sst_manager \<Rightarrow>
   (u64 \<times> disk_file) list \<Rightarrow> u64 option \<Rightarrow> engine result"
where
  "engine_open xxh pools sst_path dir m ws seqno =
     (case recover_existing_ssts xxh pools sst_path dir m of
        (Inl e, _) \<Rightarrow> Inl e
      | (Inr _, m) \<Rightarrow>
          rbind (recover_wal xxh ws) (\<lambda>(ws, mem, next_seq, segment).
            Inr \<lparr>eg_mem = mem, eg_mgr = m, eg_wals = ws, eg_writer = segment, eg_segment = segment,
                 eg_next_seq = max next_seq (read_seq_marker seqno), eg_seqno = seqno\<rparr>))"

section \<open>What the segments hold\<close>

definition seg_holds :: "(bytes \<Rightarrow> u64) \<Rightarrow> disk_file \<Rightarrow> entry list \<Rightarrow> bool" where
  "seg_holds xxh f es \<longleftrightarrow> df_bytes f = wal_header @ wal_bytes xxh es \<and> (\<forall>e \<in> set es. wal_ok e) \<and>
     length (wal_bytes xxh es) < 2 ^ 64 - 5"

definition wals_hold :: "(bytes \<Rightarrow> u64) \<Rightarrow> (u64 \<times> disk_file) list \<Rightarrow> (u64 \<Rightarrow> entry list) \<Rightarrow> bool" where
  "wals_hold xxh ws D \<longleftrightarrow> distinct (map fst ws) \<and> (\<forall>s \<in> set ws. seg_holds xxh (snd s) (D (fst s)))"

abbreviation logged :: "(u64 \<times> disk_file) list \<Rightarrow> (u64 \<Rightarrow> entry list) \<Rightarrow> entry set" where
  "logged ws D \<equiv> \<Union>s \<in> set ws. set (D (fst s))"

lemma wal_recover_all:
  assumes "seg_holds xxh f es"
  obtains r where "wal_recover xxh g (df_bytes f) st = Inr (r, foldl g st es, Inr (word_of_nat (length es)))" "\<not> wr_torn_tail r"
proof -
  have H: "df_bytes f = wal_header @ wal_bytes xxh es" "\<forall>e \<in> set es. wal_ok e" "length (wal_bytes xxh es) < 2 ^ 64 - 5"
    using assms by (auto simp: seg_holds_def)
  obtain r where r: "wal_open (Some (df_bytes f)) = Inr r" "rd_ok r" "wr_rest r = wal_bytes xxh es" "\<not> wr_torn_tail r"
    unfolding H(1) by (rule wal_open_header [OF H(3)])
  let ?n = "length (wal_bytes xxh es)"
  have fit: "fitting (wal_size xxh) ?n es = es" by (rule fitting_all) (simp add: length_concat comp_def)
  have "wr_rest r = take ?n (wal_bytes xxh es)" using r(3) by simp
  from wal_replay_cut [OF r(2) H(2) this, of g st 0] fit r(1,4) show thesis
    using that by (auto simp: wal_recover_def)
qed

lemma replay_segments_all:
  "\<forall>s \<in> set ss. seg_holds xxh (snd s) (D (fst s)) \<Longrightarrow>
   replay_segments xxh ss seen st = Inr (seen @ ss, foldl replay_entry st (concat (map (D \<circ> fst) ss)))"
proof (induction ss arbitrary: seen st)
  case (Cons s ss)
  have h: "seg_holds xxh (snd s) (D (fst s))" using Cons.prems by simp
  obtain r where r: "wal_recover xxh replay_entry (df_bytes (snd s)) st =
      Inr (r, foldl replay_entry st (D (fst s)), Inr (word_of_nat (length (D (fst s)))))" "\<not> wr_torn_tail r"
    by (rule wal_recover_all [OF h])
  then show ?case using Cons.IH Cons.prems by (simp add: truncate_tail_def)
qed simp

lemma replay_entry_fst: "fst (foldl replay_entry st es) = foldl mt_apply (fst st) es"
  by (induction es arbitrary: st) (auto simp: replay_entry_def)

lemma replay_entry_snd:
  "e \<in> set es \<or> sat_add (e_seq e) 1 \<le> snd st \<Longrightarrow> sat_add (e_seq e) 1 \<le> snd (foldl replay_entry st es)"
  by (induction es arbitrary: st) (auto simp: replay_entry_def le_max_iff_disj)

lemma mt_versions_foldl:
  "mt_inv m \<Longrightarrow> versions_unique (mt_versions m \<union> set es) \<Longrightarrow> mt_versions (foldl mt_apply m es) = mt_versions m \<union> set es"
proof (induction es arbitrary: m)
  case (Cons e es)
  have "mt_versions (mt_apply m e) = insert e (mt_versions m)"
    using Cons.prems by (auto simp: mt_versions_apply versions_unique_def inj_on_def)
  then show ?case using Cons.IH [of "mt_apply m e"] Cons.prems by (simp add: mt_inv_apply)
qed simp

lemma foldl_max_mem: "(x :: u64) \<le> foldl max x xs" "y \<in> set xs \<Longrightarrow> y \<le> foldl max x xs" "foldl max x xs \<in> insert x (set xs)"
proof -
  have le: "x \<le> foldl max x xs" for x :: u64 and xs
  proof (induction xs arbitrary: x)
    case (Cons a xs)
    from Cons.IH [of "max x a"] show ?case by simp
  qed simp
  show "x \<le> foldl max x xs" by (rule le)
  show "y \<in> set xs \<Longrightarrow> y \<le> foldl max x xs"
  proof (induction xs arbitrary: x)
    case (Cons a xs)
    with le [of "max x a" xs] show ?case by auto
  qed simp
  show "foldl max x xs \<in> insert x (set xs)" by (induction xs arbitrary: x) (auto simp: max_def)
qed

lemma recover_wal_all:
  assumes "wals_hold xxh ws D" "\<exists>s \<in> set ws. 0 < fst s" "versions_unique (logged ws D)"
  obtains ws' mem next_seq seg where "recover_wal xxh ws = Inr (ws', mem, next_seq, seg)" "mt_inv mem" "mt_versions mem = logged ws D"
    "\<And>e. e \<in> logged ws D \<Longrightarrow> sat_add (e_seq e) 1 \<le> next_seq"
proof -
  let ?ss = "sort_key fst ws" and ?L = "concat (map (D \<circ> fst) (sort_key fst ws))"
  have "\<forall>s \<in> set ?ss. seg_holds xxh (snd s) (D (fst s))" using assms(1) by (simp add: wals_hold_def)
  note R = replay_segments_all [OF this, of "[]" "(mt_new, 1)"]
  obtain mem next_seq where st: "foldl replay_entry (mt_new, 1) ?L = (mem, next_seq)" by fastforce
  have L: "set ?L = logged ws D" by auto
  have mem: "mem = foldl mt_apply mt_new ?L" using replay_entry_fst [of "(mt_new, 1)" ?L] by (simp add: st)
  let ?hi = "foldl max 0 (map fst ?ss)"
  have "fst ` set ?ss = fst ` set ws" by simp
  then have "\<exists>i \<in> set (map fst ?ss). 0 < i" using assms(2) by auto
  then have pos: "?hi \<noteq> 0" using foldl_max_mem(2) [of _ "map fst ?ss" 0] by fastforce
  then have "?hi \<in> fst ` set ?ss" using foldl_max_mem(3) [of 0 "map fst ?ss"] by auto
  then have "map_of ?ss ?hi \<noteq> None" by (simp add: map_of_eq_None_iff)
  then obtain w where "map_of ?ss ?hi = Some w" by blast
  then have "recover_wal xxh ws = Inr (?ss, mem, next_seq, ?hi)"
    using R pos by (simp add: recover_wal_def st wal_open_append_def)
  moreover have "mt_inv mem" unfolding mem by (rule mt_inv_foldl_apply [OF mt_inv_new])
  moreover have "mt_versions mem = logged ws D"
    unfolding mem using mt_versions_foldl [OF mt_inv_new, of ?L] assms(3) L by (simp add: mt_versions_def mt_new_def)
  moreover have "sat_add (e_seq e) 1 \<le> next_seq" if "e \<in> logged ws D" for e
    using replay_entry_snd [of e ?L "(mt_new, 1)"] that L by (simp add: st)
  ultimately show thesis by (rule that)
qed

section \<open>Runs of the engine\<close>

text \<open>
  A client gets an acknowledgement, or a flush runs and may fail at any point. \<open>acked\<close> are the
  acknowledged versions in order, \<open>clean\<close> tells that no flush has failed.
\<close>

inductive engine_step :: "(bytes \<Rightarrow> u64) \<Rightarrow> engine \<times> entry list \<times> bool \<Rightarrow> engine \<times> entry list \<times> bool \<Rightarrow> bool" for xxh where
  ack: "engine_propose xxh None cmd eg = (Inr i, eg') \<Longrightarrow> \<not> is_meta cmd \<Longrightarrow> to_entries cmd i = Inr es \<Longrightarrow>
    engine_step xxh (eg, acked, clean) (eg', acked @ es, clean)"
| meta_command: "engine_propose xxh None cmd eg = (Inr i, eg') \<Longrightarrow> is_meta cmd \<Longrightarrow> engine_step xxh (eg, acked, clean) (eg', acked, clean)"
| flush: "engine_flush ev eg = (r, eg') \<Longrightarrow> ev_xxh ev = xxh \<Longrightarrow> engine_step xxh (eg, acked, clean) (eg', acked, clean \<and> r = Inr ())"

inductive_cases engine_stepE: "engine_step xxh (eg, acked, clean) (eg', acked', clean')"

text \<open>An engine opened on empty directories.\<close>

definition engine_new :: "sst_manager \<Rightarrow> disk_file \<Rightarrow> engine" where
  "engine_new m w =
     \<lparr>eg_mem = mt_new, eg_mgr = m, eg_wals = [(1, w)], eg_writer = 1, eg_segment = 1, eg_next_seq = 1, eg_seqno = None\<rparr>"

lemma engine_open_empty:
  assumes "wal_create None = Inr w"
  shows "engine_open xxh pools sst_path (\<lambda>_. []) m [] None = Inr (engine_new m w)"
proof -
  have "recover_levels xxh pools sst_path (\<lambda>_. []) ls m = (Inr (), m)" for ls by (induction ls) simp_all
  then show ?thesis
    using assms by (simp add: engine_open_def recover_existing_ssts_def recover_wal_def wals_update_def engine_new_def read_seq_marker_def)
qed

text \<open>The log holds what was acknowledged, in whatever segment.\<close>

definition log_holds :: "(bytes \<Rightarrow> u64) \<Rightarrow> (u64 \<times> disk_file) list \<Rightarrow> entry list \<Rightarrow> (u64 \<Rightarrow> entry list) \<Rightarrow> bool" where
  "log_holds xxh ws acked D \<longleftrightarrow> wals_hold xxh ws D \<and> logged ws D = set acked \<and> (\<exists>s \<in> set ws. 0 < fst s) \<and>
     (\<forall>s \<in> set ws. length (wal_bytes xxh (D (fst s))) \<le> length (wal_bytes xxh acked))"

definition fits_log :: "(bytes \<Rightarrow> u64) \<Rightarrow> entry list \<Rightarrow> bool" where
  "fits_log xxh es \<longleftrightarrow> (\<forall>e \<in> set es. wal_ok e) \<and> length (wal_bytes xxh es) < 2 ^ 64 - 5"

lemma wals_update_props:
  assumes "distinct (map fst ws)"
  shows "distinct (map fst (wals_update i f ws))" "fst ` set (wals_update i f ws) = insert i (fst ` set ws)"
    "set (wals_update i f ws) = {s \<in> set ws. fst s \<noteq> i} \<union> {(i, f)}"
proof -
  have keys: "map fst (map (\<lambda>(j, g). (j, if j = i then f else g)) ws) = map fst ws" by (induction ws) auto
  show "distinct (map fst (wals_update i f ws))" using assms by (auto simp: wals_update_def keys simp del: map_map)
  show "fst ` set (wals_update i f ws) = insert i (fst ` set ws)"
    using arg_cong [OF keys, of set] by (auto simp: wals_update_def)
  show "set (wals_update i f ws) = {s \<in> set ws. fst s \<noteq> i} \<union> {(i, f)}" by (force simp: wals_update_def)
qed

lemma engine_propose_Inr:
  assumes "engine_propose xxh None cmd eg = (Inr i, eg')" "\<not> is_meta cmd" "to_entries cmd i = Inr es"
  obtains w where "map_of (eg_wals eg) (eg_writer eg) = Some w"
    "eg' = eg\<lparr>eg_next_seq := eg_next_seq eg + 1,
       eg_wals := wals_update (eg_writer eg) (if es = [] then w else wal_append_batch_sync xxh w es) (eg_wals eg),
       eg_mem := foldl mt_apply (eg_mem eg) es\<rparr>"
  using assms
  by (auto simp: engine_propose_def engine_submit_def wal_submit_def Let_def split: sum.splits option.splits if_splits prod.splits)

lemma wal_batch_sync_bytes: "df_bytes (wal_append_batch_sync xxh w es) = df_bytes w @ wal_bytes xxh es"
  by (simp add: wal_append_batch_sync_def wal_sync_def file_sync_def wal_batch_bytes)

lemma log_holds_ack:
  assumes "log_holds xxh (eg_wals eg) acked D" "fits_log xxh (acked @ es)"
    and "engine_propose xxh None cmd eg = (Inr i, eg')" "\<not> is_meta cmd" "to_entries cmd i = Inr es"
  shows "log_holds xxh (eg_wals eg') (acked @ es) (D(eg_writer eg := D (eg_writer eg) @ es))"
proof (rule engine_propose_Inr [OF assms(3-5)])
  fix w assume w: "map_of (eg_wals eg) (eg_writer eg) = Some w" and "eg' = eg\<lparr>eg_next_seq := eg_next_seq eg + 1,
       eg_wals := wals_update (eg_writer eg) (if es = [] then w else wal_append_batch_sync xxh w es) (eg_wals eg),
       eg_mem := foldl mt_apply (eg_mem eg) es\<rparr>"
  then have eg': "eg_wals eg' = wals_update (eg_writer eg) (if es = [] then w else wal_append_batch_sync xxh w es) (eg_wals eg)"
    by simp
  let ?i = "eg_writer eg" and ?D = "D(eg_writer eg := D (eg_writer eg) @ es)"
  note D = assms(1) [unfolded log_holds_def]
  have dist: "distinct (map fst (eg_wals eg))" using D by (simp add: wals_hold_def)
  have mem: "(?i, w) \<in> set (eg_wals eg)" using w by (rule map_of_SomeD)
  then have wi: "seg_holds xxh w (D ?i)" and li: "length (wal_bytes xxh (D ?i)) \<le> length (wal_bytes xxh acked)"
    using D by (fastforce simp: wals_hold_def)+
  note U = wals_update_props [OF dist, of ?i "if es = [] then w else wal_append_batch_sync xxh w es", folded eg']
  have "seg_holds xxh (if es = [] then w else wal_append_batch_sync xxh w es) (D ?i @ es)"
    using wi li assms(2) by (auto simp: seg_holds_def wal_batch_sync_bytes fits_log_def)
  then have hold: "wals_hold xxh (eg_wals eg') ?D" using U(1) D unfolding wals_hold_def U(3) by auto
  have "logged (eg_wals eg') ?D = (\<Union>j \<in> fst ` set (eg_wals eg'). set (?D j))" by simp
  also have "\<dots> = (\<Union>j \<in> fst ` set (eg_wals eg). set (D j)) \<union> set es"
    unfolding U(2) using mem by (force split: if_splits)
  finally have all: "logged (eg_wals eg') ?D = set (acked @ es)" using D by simp
  have "\<exists>j \<in> fst ` set (eg_wals eg'). 0 < j" unfolding U(2) using D by auto
  moreover have "\<forall>s \<in> set (eg_wals eg'). length (wal_bytes xxh (?D (fst s))) \<le> length (wal_bytes xxh (acked @ es))"
    unfolding U(3) using D li by auto
  ultimately show ?thesis using hold all by (auto simp: log_holds_def)
qed

lemma log_holds_flush:
  assumes "log_holds xxh (eg_wals eg) acked D" "engine_flush ev eg = (r, eg')"
  shows "\<exists>D. log_holds xxh (eg_wals eg') acked D"
proof -
  consider "eg_wals eg' = eg_wals eg" | i w where "wal_create None = Inr w" "map_of (eg_wals eg) i = None" "eg_wals eg' = wals_update i w (eg_wals eg)"
  proof -
    assume same: "eg_wals eg' = eg_wals eg \<Longrightarrow> thesis"
      and new: "\<And>w i. wal_create None = Inr w \<Longrightarrow> map_of (eg_wals eg) i = None \<Longrightarrow> eg_wals eg' = wals_update i w (eg_wals eg) \<Longrightarrow> thesis"
    obtain f mem m where f: "flush_node (ev_xxh ev) (ev_put ev) (ev_paths ev) (ev_stale_tmp ev) (eg_mem eg) (eg_mgr eg) = (f, mem, m)"
      using prod_cases3 by blast
    show thesis
    proof (cases "mt_is_empty (eg_mem eg) \<or> isl f")
      case True
      then have "eg_wals eg' = eg_wals eg" using assms(2) f by (cases f) (auto simp: engine_flush_def split: if_splits)
      then show thesis by (rule same)
    next
      case False
      then have "eg_wals eg' = eg_wals eg \<or> (\<exists>w. wal_create None = Inr w \<and> map_of (eg_wals eg) (eg_segment eg + 1) = None \<and>
          eg_wals eg' = wals_update (eg_segment eg + 1) w (eg_wals eg))"
        using assms(2) f by (cases f; cases "map_of (eg_wals eg) (eg_segment eg + 1)") (auto simp: engine_flush_def Let_def wal_create_def)
      then show thesis using same new by blast
    qed
  qed
  then show ?thesis
  proof cases
    case 1
    then show ?thesis using assms(1) by auto
  next
    case 2
    note D = assms(1) [unfolded log_holds_def]
    have dist: "distinct (map fst (eg_wals eg))" using D by (simp add: wals_hold_def)
    note U = wals_update_props [OF dist, of i w, folded 2(3)]
    have fresh: "i \<notin> fst ` set (eg_wals eg)" using 2(2) by (simp add: map_of_eq_None_iff)
    then have set': "set (eg_wals eg') = insert (i, w) (set (eg_wals eg))" unfolding U(3) by force
    have other: "(D(i := [])) (fst s) = D (fst s)" if "s \<in> set (eg_wals eg)" for s using fresh that by auto
    have "seg_holds xxh w []" using wal_created [OF 2(1)] by (simp add: seg_holds_def)
    then have "log_holds xxh (eg_wals eg') acked (D(i := []))"
      using D U(1) other unfolding log_holds_def wals_hold_def set' by simp
    then show ?thesis by blast
  qed
qed

lemma engine_run_log:
  assumes "wal_create None = Inr w" "(engine_step xxh)\<^sup>*\<^sup>* (engine_new m w, [], True) s"
  shows "case s of (eg, acked, clean) \<Rightarrow> fits_log xxh acked \<longrightarrow> (\<exists>D. log_holds xxh (eg_wals eg) acked D)"
  using assms(2)
proof (induction rule: rtranclp_induct)
  case base
  have "seg_holds xxh w []" using wal_created [OF assms(1)] by (simp add: seg_holds_def)
  then have "log_holds xxh [(1, w)] [] (\<lambda>_. [])" by (simp add: log_holds_def wals_hold_def)
  then show ?case by (auto simp: engine_new_def)
next
  case (step s s')
  obtain eg acked clean where s: "s = (eg, acked, clean)" using prod_cases3 by blast
  have IH: "\<exists>D. log_holds xxh (eg_wals eg) acked D" if "fits_log xxh acked" using step.IH that by (simp add: s)
  from step.hyps(2) show ?case unfolding s
  proof (cases rule: engine_step.cases)
    case (ack cmd i eg' es)
    have "fits_log xxh acked" if "fits_log xxh (acked @ es)" using that by (auto simp: fits_log_def)
    then show ?thesis using IH log_holds_ack [OF _ _ ack(2-4)] unfolding ack(1) by fastforce
  next
    case (meta_command cmd i eg')
    then have "eg_wals eg' = eg_wals eg" by (auto simp: engine_propose_def Let_def)
    then show ?thesis using IH unfolding meta_command(1) by simp
  next
    case (flush ev r eg')
    then show ?thesis using IH log_holds_flush [OF _ flush(2)] unfolding flush(1) by blast
  qed
qed


section \<open>Clean close\<close>

lemma length_mt_map: "mt_inv mem \<Longrightarrow> length (mt_map mem) = card (mt_versions mem)"
proof -
  assume inv: "mt_inv mem"
  then have "distinct (map fst (mt_map mem))" by (auto simp: mt_inv_def dest: bt_sorted_distinct)
  then have "distinct (map slot_entry (mt_map mem))"
    by (auto simp: distinct_map inj_on_def intro: internal_key.expand)
  then show ?thesis using distinct_card by (fastforce simp: mt_versions_def)
qed

definition store_inv :: "(bytes \<Rightarrow> u64) \<Rightarrow> (sst_reader \<Rightarrow> page_source) \<Rightarrow> engine \<Rightarrow> entry list \<Rightarrow> bool" where
  "store_inv xxh pools eg acked \<longleftrightarrow>
     lsm_inv xxh pools (eg_mem eg, eg_mgr eg) \<and> lsm_versions xxh pools (eg_mem eg, eg_mgr eg) = set acked"

lemma store_inv_ack:
  assumes "store_inv xxh pools eg acked" "versions_unique (set (acked @ es))"
    and "engine_propose xxh None cmd eg = (Inr i, eg')" "\<not> is_meta cmd" "to_entries cmd i = Inr es"
  shows "store_inv xxh pools eg' (acked @ es)"
proof (rule engine_propose_Inr [OF assms(3-5)])
  fix w assume "eg' = eg\<lparr>eg_next_seq := eg_next_seq eg + 1,
       eg_wals := wals_update (eg_writer eg) (if es = [] then w else wal_append_batch_sync xxh w es) (eg_wals eg),
       eg_mem := foldl mt_apply (eg_mem eg) es\<rparr>"
  then have eg': "eg_mem eg' = foldl mt_apply (eg_mem eg) es" "eg_mgr eg' = eg_mgr eg" by simp_all
  have I: "mt_inv (eg_mem eg)" "tables_ok xxh pools (eg_mgr eg)"
    and V: "mt_versions (eg_mem eg) \<union> table_versions xxh pools (eg_mgr eg) = set acked"
    using assms(1) by (auto simp: store_inv_def lsm_inv_def lsm_versions_def)
  have "versions_unique (mt_versions (eg_mem eg) \<union> set es)"
    using assms(2) V unfolding versions_unique_def by (rule_tac inj_on_subset) auto
  then have "mt_versions (eg_mem eg') = mt_versions (eg_mem eg) \<union> set es" unfolding eg' by (rule mt_versions_foldl [OF I(1)])
  then have "lsm_versions xxh pools (eg_mem eg', eg_mgr eg') = set (acked @ es)" using V by (auto simp: lsm_versions_def eg'(2))
  then show ?thesis using I assms(2) mt_inv_foldl_apply [OF I(1), of es] by (simp add: store_inv_def lsm_inv_def eg')
qed

lemma engine_flush_Inr:
  assumes "engine_flush ev eg = (Inr u, eg')"
  shows "flush_node (ev_xxh ev) (ev_put ev) (ev_paths ev) (ev_stale_tmp ev) (eg_mem eg) (eg_mgr eg) = (Inr (), eg_mem eg', eg_mgr eg')"
    "mt_is_empty (eg_mem eg')"
  using assms
  by (auto simp: engine_flush_def flush_node_def mt_drain_entries_def mt_is_empty_def Let_def split: if_splits sum.splits prod.splits)

lemma store_inv_flush:
  assumes "store_inv (ev_xxh ev) pools eg acked" "pools_serve (ev_xxh ev) pools" "length acked < 429496729" "engine_flush ev eg = (Inr u, eg')"
  shows "store_inv (ev_xxh ev) pools eg' acked"
proof -
  have I: "lsm_inv (ev_xxh ev) pools (eg_mem eg, eg_mgr eg)" "lsm_versions (ev_xxh ev) pools (eg_mem eg, eg_mgr eg) = set acked"
    using assms(1) by (auto simp: store_inv_def)
  have "mt_versions (eg_mem eg) \<subseteq> set acked" using I(2) by (auto simp: lsm_versions_def)
  then have "card (mt_versions (eg_mem eg)) \<le> length acked" by (meson List.finite_set card_length card_mono order.trans)
  then have "length (mt_map (eg_mem eg)) < 429496729" using length_mt_map [of "eg_mem eg"] I(1) assms(3) by (simp add: lsm_inv_def)
  from flush_node_versions [OF I(1) assms(2) this engine_flush_Inr(1) [OF assms(4)]] I(2) show ?thesis
    by (simp add: store_inv_def)
qed

lemma engine_run_store:
  assumes "lsm_inv xxh pools (mt_new, m)" "all_files m = []" "pools_serve xxh pools"
    and "(engine_step xxh)\<^sup>*\<^sup>* (engine_new m w, [], True) s"
  shows "case s of (eg, acked, clean) \<Rightarrow>
    clean \<longrightarrow> versions_unique (set acked) \<longrightarrow> length acked < 429496729 \<longrightarrow> store_inv xxh pools eg acked"
  using assms(4)
proof (induction rule: rtranclp_induct)
  case base
  then show ?case
    using assms(1,2) by (simp add: store_inv_def engine_new_def lsm_versions_def table_versions_def mt_versions_def mt_new_def)
next
  case (step s s')
  obtain eg acked clean where s: "s = (eg, acked, clean)" using prod_cases3 by blast
  have IH: "store_inv xxh pools eg acked" if "clean" "versions_unique (set acked)" "length acked < 429496729"
    using step.IH that by (simp add: s)
  from step.hyps(2) show ?case unfolding s
  proof (cases rule: engine_step.cases)
    case (ack cmd i eg' es)
    have "versions_unique (set acked)" if "versions_unique (set (acked @ es))"
      using that unfolding versions_unique_def by (rule inj_on_subset) simp
    then show ?thesis using IH store_inv_ack [OF _ _ ack(2-4)] unfolding ack(1) by simp
  next
    case (meta_command cmd i eg')
    then have "eg_mem eg' = eg_mem eg" "eg_mgr eg' = eg_mgr eg" by (auto simp: engine_propose_def Let_def)
    then show ?thesis using IH unfolding meta_command(1) by (simp add: store_inv_def)
  next
    case (flush ev r eg')
    then show ?thesis using IH store_inv_flush [of ev pools eg acked] assms(3) unfolding flush(1) by auto
  qed
qed

lemma engine_close_Inr:
  assumes "engine_close ev eg = (Inr u, eg')"
  obtains eg1 where "engine_flush ev eg = (Inr (), eg1)" "eg_mem eg' = eg_mem eg1" "eg_mgr eg' = eg_mgr eg1"
    "eg_wals eg' = prune_wal_segments_below (eg_segment eg1) (eg_wals eg1)" "eg_seqno eg' = Some (eg_next_seq eg1)"
  using assms by (auto simp: engine_close_def write_seq_marker_def split: sum.splits prod.splits)


text \<open>After a close that flushed something, replaying the log gives nothing.\<close>

lemma close_prunes_log:
  assumes "engine_close ev eg = (Inr u, eg')" "\<not> mt_is_empty (eg_mem eg)" "distinct (map fst (eg_wals eg))"
    and "\<forall>s \<in> set (eg_wals eg). fst s < eg_segment eg + 1" "eg_wals eg \<noteq> []"
  obtains ws mem next_seq seg where "recover_wal xxh (eg_wals eg') = Inr (ws, mem, next_seq, seg)" "mt_versions mem = {}"
proof -
  let ?i = "eg_segment eg + 1"
  obtain eg1 where c: "engine_flush ev eg = (Inr (), eg1)" "eg_wals eg' = prune_wal_segments_below (eg_segment eg1) (eg_wals eg1)"
    using engine_close_Inr [OF assms(1)] by metis
  have "\<exists>w. wal_create None = Inr w \<and> eg_segment eg1 = ?i \<and> eg_wals eg1 = wals_update ?i w (eg_wals eg)"
    using c(1) assms(2) by (auto simp: engine_flush_def wal_create_def Let_def split: sum.splits prod.splits option.splits)
  then obtain w where w: "wal_create None = Inr w" "eg_segment eg1 = ?i" "eg_wals eg1 = wals_update ?i w (eg_wals eg)" by blast
  note U = wals_update_props [OF assms(3), of ?i w]
  have only: "set (eg_wals eg') = {(?i, w)}"
    unfolding c(2) prune_wal_segments_below_def w using U(3) assms(4) by (auto simp: not_le)
  have "distinct (map fst (eg_wals eg'))"
    using U(1) unfolding c(2) prune_wal_segments_below_def w by (simp add: distinct_map_filter)
  then have hold: "wals_hold xxh (eg_wals eg') (\<lambda>_. [])" using wal_created [OF w(1)] by (simp add: wals_hold_def only seg_holds_def)
  have "0 < ?i" using assms(4,5) by (cases "eg_wals eg") (auto simp: word_gt_0)
  then have "\<exists>s \<in> set (eg_wals eg'). 0 < fst s" unfolding only by simp
  then show thesis by (rule recover_wal_all [OF hold]) (use that in \<open>auto simp: versions_unique_def\<close>)
qed

text \<open>What the tables gain by a close.\<close>

lemma close_tables:
  assumes "engine_close ev eg = (Inr u, eg')" "pools_serve (ev_xxh ev) pools" "lsm_inv (ev_xxh ev) pools (eg_mem eg, eg_mgr eg)"
    and "length (mt_map (eg_mem eg)) < 429496729"
  shows "table_versions (ev_xxh ev) pools (eg_mgr eg') = lsm_versions (ev_xxh ev) pools (eg_mem eg, eg_mgr eg)"
proof (rule engine_close_Inr [OF assms(1)])
  fix eg1 assume f: "engine_flush ev eg = (Inr (), eg1)" "eg_mgr eg' = eg_mgr eg1"
  note F = engine_flush_Inr [OF f(1)]
  have "mt_versions (eg_mem eg1) = {}" using F(2) by (simp add: mt_versions_def mt_is_empty_def)
  then show ?thesis using flush_node_versions(2) [OF assms(3,2,4) F(1)] by (simp add: lsm_versions_def f(2))
qed

text \<open>
  C36. A failed flush makes the next clean close lose data. The flush has taken the memtable's
  entries out before writing them; when writing fails they are neither in memory nor in a table,
  only in the log. The next write that is flushed rotates the log, and the close prunes the older
  segments: reopening finds the entries nowhere, although they were acknowledged.
\<close>

theorem failed_flush_then_close_loses_writes:
  assumes "flush_node (ev_xxh ev) (ev_put ev) (ev_paths ev) (ev_stale_tmp ev) (eg_mem eg) (eg_mgr eg) = (Inl err, mem1, m1)"
    and "keeps_tables (eg_mgr eg) m1" "engine_flush ev eg = (r, eg1)"
    and "engine_propose xxh None cmd eg1 = (Inr i, eg2)" "to_entries cmd i = Inr es" "es \<noteq> []" "\<not> is_meta cmd"
    and "engine_close ev' eg2 = (Inr u, eg3)" "ev_xxh ev' = xxh" "pools_serve xxh pools"
    and "lsm_inv xxh pools (eg_mem eg, eg_mgr eg)" "versions_unique (lsm_versions xxh pools (eg_mem eg, eg_mgr eg) \<union> set es)"
    and "length es < 429496729" "distinct (map fst (eg_wals eg))" "\<forall>s \<in> set (eg_wals eg). fst s < eg_segment eg + 1"
    and "e \<in> mt_versions (eg_mem eg)" "e \<notin> table_versions xxh pools (eg_mgr eg)" "e \<notin> set es"
  shows "\<exists>ws mem next_seq seg. recover_wal xxh (eg_wals eg3) = Inr (ws, mem, next_seq, seg) \<and>
    e \<notin> mt_versions mem \<union> table_versions xxh pools (eg_mgr eg3)"
proof -
  have ne: "\<not> mt_is_empty (eg_mem eg)" using assms(16) by (auto simp: mt_is_empty_def mt_versions_def)
  have eg1: "eg1 = eg\<lparr>eg_mem := mem1, eg_mgr := m1\<rparr>" using assms(1,3) ne by (simp add: engine_flush_def)
  have mem1: "mem1 = fst (mt_drain_entries (eg_mem eg))"
    using assms(1) ne by (auto simp: flush_node_def mt_drain_entries_def Let_def split: prod.splits)
  then have mem1v: "mt_inv mem1" "mt_versions mem1 = {}" using mt_inv_drain by (auto simp: mt_versions_def mt_drain_entries_def)
  note K = keeps_tables_lsm [OF assms(11,2)]
  have T1: "table_versions xxh pools m1 = table_versions xxh pools (eg_mgr eg)" "tables_ok xxh pools m1"
    using keeps_tables_lsm [of xxh pools mt_new "eg_mgr eg" m1] assms(2,11) mt_inv_new
    by (auto simp: lsm_inv_def lsm_versions_def mt_versions_def mt_new_def versions_unique_def intro: inj_on_subset)
  obtain w where w: "map_of (eg_wals eg1) (eg_writer eg1) = Some w"
    and eg2: "eg2 = eg1\<lparr>eg_next_seq := eg_next_seq eg1 + 1,
       eg_wals := wals_update (eg_writer eg1) (if es = [] then w else wal_append_batch_sync xxh w es) (eg_wals eg1),
       eg_mem := foldl mt_apply (eg_mem eg1) es\<rparr>"
    using engine_propose_Inr [OF assms(4,7,5)] by blast
  have ues: "versions_unique (mt_versions mem1 \<union> set es)" "versions_unique (set es \<union> table_versions xxh pools (eg_mgr eg))"
    using assms(12) mem1v(2) unfolding versions_unique_def by (auto simp: lsm_versions_def intro: inj_on_subset)
  have m2: "eg_mem eg2 = foldl mt_apply mem1 es" "eg_mgr eg2 = m1" by (simp_all add: eg2 eg1)
  have v2: "mt_versions (eg_mem eg2) = set es" using mt_versions_foldl [OF mem1v(1) ues(1)] mem1v(2) by (simp add: m2)
  have inv2: "mt_inv (eg_mem eg2)" unfolding m2 by (rule mt_inv_foldl_apply [OF mem1v(1)])
  have lsm2: "lsm_inv xxh pools (eg_mem eg2, eg_mgr eg2)"
    using inv2 T1 ues(2) by (simp add: lsm_inv_def lsm_versions_def v2 m2(2))
  have "length (mt_map (eg_mem eg2)) \<le> length es" using length_mt_map [OF inv2] v2 by (simp add: card_length)
  then have small: "length (mt_map (eg_mem eg2)) < 429496729" using assms(13) by simp
  have "table_versions xxh pools (eg_mgr eg3) = set es \<union> table_versions xxh pools (eg_mgr eg)"
    using close_tables [OF assms(8), of pools] assms(9,10) lsm2 small by (simp add: lsm_versions_def v2 m2(2) T1(1))
  then have tables: "e \<notin> table_versions xxh pools (eg_mgr eg3)" using assms(17,18) by simp
  have ne2: "\<not> mt_is_empty (eg_mem eg2)" using v2 assms(6) by (auto simp: mt_is_empty_def mt_versions_def)
  have mem_w: "(eg_writer eg, w) \<in> set (eg_wals eg)" using map_of_SomeD [OF w] by (simp add: eg1)
  then have keys: "insert (eg_writer eg) (fst ` set (eg_wals eg)) = fst ` set (eg_wals eg)" by force
  note U = wals_update_props [OF assms(14), of "eg_writer eg"]
  have wals2: "distinct (map fst (eg_wals eg2))" "fst ` set (eg_wals eg2) = fst ` set (eg_wals eg)" "eg_segment eg2 = eg_segment eg"
    using U(1,2) keys by (simp_all add: eg2 eg1)
  have "\<forall>j \<in> fst ` set (eg_wals eg2). j < eg_segment eg2 + 1" using assms(15) by (simp add: wals2)
  then have "\<forall>s \<in> set (eg_wals eg2). fst s < eg_segment eg2 + 1" by simp
  moreover have "eg_wals eg2 \<noteq> []" using wals2(2) mem_w by auto
  ultimately show ?thesis
    by (rule close_prunes_log [OF assms(8) ne2 wals2(1), of xxh]) (use tables in blast)
qed

section \<open>A run\<close>

text \<open>One write, a flush that meets a stale temporary file, a second write, and a close.\<close>

definition sample_env :: "bool \<Rightarrow> engine_env" where
  "sample_env stale = \<lparr>ev_xxh = (\<lambda>_. 11), ev_put = None, ev_paths = (\<lambda>_ _. ''a''), ev_stale_tmp = (\<lambda>_. stale)\<rparr>"

abbreviation sample_version :: "u64 \<Rightarrow> entry" where
  "sample_version sq \<equiv> entry_put [98] [2] sq"

definition fresh_manager :: "sst_manager \<Rightarrow> bool" where
  "fresh_manager m \<longleftrightarrow> mg_levels m = [[], []] \<and> rg_active (mg_registry m) = Map.empty \<and> rg_retired (mg_registry m) = Map.empty \<and>
     mg_block_size m = 8 \<and> mg_max_sst_bytes m = DEFAULT_MAX_SST_BYTES"

lemma sample_version_split: "split_entries_by_max_bytes [sample_version sq] DEFAULT_MAX_SST_BYTES = [[sample_version sq]]"
  by (simp add: split_entries_by_max_bytes_def DEFAULT_MAX_SST_BYTES_def)

lemma sample_version_written: "\<exists>f. sst_write (\<lambda>_. 11) False [sample_version sq] 8 = Inr f"
  by (simp add: sst_write_def validate_entries_def entry_put_def Let_def
      write_data_block_def encoded_entry_len_def encode_entry_def checked_u32_def encode_index_def encode_meta_def
      length_encode_filter bloom_bit_count_def BLOOM_BITS_PER_KEY_def CHECKSUM_LEN_def SST_MAGIC_def)

lemma flush_sample_version:
  assumes "map slot_entry (mt_map mem) = [sample_version sq]" "fresh_manager m"
  shows "\<exists>m'. flush_node (\<lambda>_. 11) None (\<lambda>_ _. ''a'') (\<lambda>_. False) mem m = (Inr (), fst (mt_drain_entries mem), m')"
proof -
  obtain f where f: "sst_write (\<lambda>_. 11) False [sample_version sq] 8 = Inr f" using sample_version_written by blast
  have "bloom_bit_count (length [sample_version sq]) < 2 ^ 32" unfolding bloom_bits_width by simp
  moreover have "pool_serves f None" by (simp add: pool_serves_def)
  ultimately obtain r where r: "sst_open (\<lambda>_. 11) f = Inr r" by (rule sst_written_reads [OF f])
  have ne: "\<not> mt_is_empty mem" using assms(1) by (auto simp: mt_is_empty_def)
  have key: "e_key (sample_version sq) = [98]" by (simp add: entry_put_def)
  show ?thesis
    using f r assms(2) by (simp add: flush_node_def ne mt_drain_entries_def assms(1) fresh_manager_def sample_version_split
        allocate_sst_id_def write_table_def Let_def meta_from_info_def key
        add_sst_def upload_sst_def check_new_file_def rg_register_def
        all_files_def insert_file_def notify_l0_changed_def sort_level_def)
qed

lemma flush_sample_version_stale:
  assumes "map slot_entry (mt_map mem) = [sample_version sq]" "fresh_manager m"
  shows "flush_node (\<lambda>_. 11) None (\<lambda>_ _. ''a'') (\<lambda>_. True) mem m =
    (Inl (Io AlreadyExists), fst (mt_drain_entries mem), m\<lparr>mg_next_id := mg_next_id m + 1\<rparr>)"
proof -
  have ne: "\<not> mt_is_empty mem" using assms(1) by (auto simp: mt_is_empty_def)
  have "sst_write (\<lambda>_. 11) True [sample_version sq] 8 = Inl (Io AlreadyExists)"
    by (simp add: sst_write_def validate_entries_def entry_put_def)
  then show ?thesis
    using assms(2) by (simp add: flush_node_def ne mt_drain_entries_def assms(1) fresh_manager_def sample_version_split
        allocate_sst_id_def write_table_def)
qed

lemma engine_write_sample:
  assumes "map_of (eg_wals eg) (eg_writer eg) = Some w" "mt_map (eg_mem eg) = []"
  obtains eg' where "engine_propose (\<lambda>_. 11) None (CmdPut [98] [2]) eg = (Inr (eg_next_seq eg), eg')"
    "map slot_entry (mt_map (eg_mem eg')) = [sample_version (eg_next_seq eg)]" "eg_mgr eg' = eg_mgr eg" "eg_next_seq eg' = eg_next_seq eg + 1"
    "eg_segment eg' = eg_segment eg" "eg_writer eg' = eg_writer eg"
    "eg_wals eg' = wals_update (eg_writer eg) (wal_append_batch_sync (\<lambda>_. 11) w [sample_version (eg_next_seq eg)]) (eg_wals eg)"
proof -
  have "map slot_entry (mt_map (mt_apply (eg_mem eg) (sample_version sq))) = [sample_version sq]" for sq
    using assms(2) by (simp add: mt_apply_def slot_entry_def ikey_def entry_put_def Let_def)
  then show thesis
    using that assms(1) by (simp add: engine_propose_def engine_submit_def wal_submit_def Let_def)
qed

lemma map_of_wals_update: "map_of (wals_update i f ws) i = Some f"
proof (cases "i \<in> fst ` set ws")
  case True
  then have "map_of (map (\<lambda>(j, g). (j, if j = i then f else g)) ws) i = Some f" by (induction ws) auto
  then show ?thesis using True by (simp add: wals_update_def)
next
  case False
  then have "map_of ws i = None" by (simp add: map_of_eq_None_iff)
  then show ?thesis using False by (simp add: wals_update_def map_add_Some_iff)
qed

text \<open>The engine after the first write, with the facts the run needs.\<close>

lemma sample_engine:
  obtains w m eg where "wal_create None = Inr w" "fresh_manager m" "lsm_inv (\<lambda>_. 11) (\<lambda>_. None) (mt_new, m)"
    "all_files m = []" "pools_serve (\<lambda>_. 11) (\<lambda>_. None)"
    "engine_step (\<lambda>_. 11) (engine_new m w, [], True) (eg, [sample_version 1], True)"
    "map slot_entry (mt_map (eg_mem eg)) = [sample_version 1]" "eg_mgr eg = m" "eg_next_seq eg = 2"
    "eg_segment eg = 1" "eg_writer eg = 1" "fst ` set (eg_wals eg) = {1}" "distinct (map fst (eg_wals eg))" "map_of (eg_wals eg) 1 \<noteq> None"
proof -
  obtain w where w: "wal_create None = Inr w" by (simp add: wal_create_def)
  obtain m where m: "manager_new (registry_new Map.empty) 8 2 1 = Inr m" by (simp add: manager_new_def)
  then have ms: "fresh_manager m" "all_files m = []" by (auto simp: manager_new_def fresh_manager_def registry_new_def all_files_def numeral_2_eq_2)
  have inv: "lsm_inv (\<lambda>_. 11) (\<lambda>_. None) (mt_new, m)"
    using ms(2) mt_inv_new by (simp add: lsm_inv_def tables_ok_def lsm_versions_def table_versions_def mt_versions_def mt_new_def versions_unique_def)
  have serve: "pools_serve (\<lambda>_. 11) (\<lambda>_. None)" by (simp add: pools_serve_def pool_serves_def)
  let ?eg0 = "engine_new m w"
  have "map_of (eg_wals ?eg0) (eg_writer ?eg0) = Some w" "mt_map (eg_mem ?eg0) = []" by (simp_all add: engine_new_def mt_new_def)
  then obtain eg where eg: "engine_propose (\<lambda>_. 11) None (CmdPut [98] [2]) ?eg0 = (Inr (eg_next_seq ?eg0), eg)"
    "map slot_entry (mt_map (eg_mem eg)) = [sample_version (eg_next_seq ?eg0)]" "eg_mgr eg = eg_mgr ?eg0" "eg_next_seq eg = eg_next_seq ?eg0 + 1"
    "eg_segment eg = eg_segment ?eg0" "eg_writer eg = eg_writer ?eg0"
    "eg_wals eg = wals_update (eg_writer ?eg0) (wal_append_batch_sync (\<lambda>_. 11) w [sample_version (eg_next_seq ?eg0)]) (eg_wals ?eg0)"
    by (rule engine_write_sample)
  have "engine_step (\<lambda>_. 11) (?eg0, [], True) (eg, [] @ [sample_version 1], True)"
    by (rule engine_step.ack [OF eg(1)]) (simp_all add: engine_new_def)
  then show thesis
    using that [OF w ms(1) inv ms(2) serve, of eg] eg by (simp add: engine_new_def wals_update_def)
qed



theorem failed_flush_then_close_loses_writes_witness:
  "\<exists>(eg :: engine) eg1 eg2 eg3 ws mem next_seq seg. sample_version 1 \<in> mt_versions (eg_mem eg) \<and>
     engine_flush (sample_env True) eg = (Inl (Io AlreadyExists), eg1) \<and>
     engine_propose (\<lambda>_. 11) None (CmdPut [98] [2]) eg1 = (Inr 2, eg2) \<and>
     engine_close (sample_env False) eg2 = (Inr (), eg3) \<and>
     recover_wal (\<lambda>_. 11) (eg_wals eg3) = Inr (ws, mem, next_seq, seg) \<and>
     sample_version 1 \<notin> mt_versions mem \<union> table_versions (\<lambda>_. 11) (\<lambda>_. None) (eg_mgr eg3)"
proof (rule sample_engine)
  fix w m eg
  assume E: "fresh_manager m" "lsm_inv (\<lambda>_. 11) (\<lambda>_. None) (mt_new, m)" "all_files m = []" "pools_serve (\<lambda>_. 11) (\<lambda>_. None)"
    "engine_step (\<lambda>_. 11) (engine_new m w, [], True) (eg, [sample_version 1], True)"
    "map slot_entry (mt_map (eg_mem eg)) = [sample_version 1]" "eg_mgr eg = m" "eg_next_seq eg = 2" "eg_segment eg = 1" "eg_writer eg = 1"
    "fst ` set (eg_wals eg) = {1}" "distinct (map fst (eg_wals eg))" "map_of (eg_wals eg) 1 \<noteq> None"
  have ne: "\<not> mt_is_empty (eg_mem eg)" using E(6) by (auto simp: mt_is_empty_def)
  let ?m1 = "m\<lparr>mg_next_id := mg_next_id m + 1\<rparr>"
  let ?eg1 = "eg\<lparr>eg_mem := mt_new, eg_mgr := ?m1\<rparr>"
  have fn: "flush_node (ev_xxh (sample_env True)) (ev_put (sample_env True)) (ev_paths (sample_env True)) (ev_stale_tmp (sample_env True))
      (eg_mem eg) (eg_mgr eg) = (Inl (Io AlreadyExists), mt_new, ?m1)"
    using flush_sample_version_stale [OF E(6,1)] by (simp add: sample_env_def E(7) mt_drain_entries_def mt_new_def)
  then have f1: "engine_flush (sample_env True) eg = (Inl (Io AlreadyExists), ?eg1)" by (simp add: engine_flush_def ne)
  have keep: "keeps_tables (eg_mgr eg) ?m1" by (simp add: keeps_tables_def E(7))
  have fm1: "fresh_manager ?m1" using E(1) by (simp add: fresh_manager_def)
  obtain w1 where "map_of (eg_wals ?eg1) (eg_writer ?eg1) = Some w1" "mt_map (eg_mem ?eg1) = []"
    using E(10,13) by (auto simp: mt_new_def)
  then obtain eg2 where eg2: "engine_propose (\<lambda>_. 11) None (CmdPut [98] [2]) ?eg1 = (Inr (eg_next_seq ?eg1), eg2)"
    "map slot_entry (mt_map (eg_mem eg2)) = [sample_version (eg_next_seq ?eg1)]" "eg_mgr eg2 = eg_mgr ?eg1"
    "eg_segment eg2 = eg_segment ?eg1"
    "eg_wals eg2 = wals_update (eg_writer ?eg1) (wal_append_batch_sync (\<lambda>_. 11) w1 [sample_version (eg_next_seq ?eg1)]) (eg_wals ?eg1)"
    by (rule engine_write_sample)
  have p: "engine_propose (\<lambda>_. 11) None (CmdPut [98] [2]) ?eg1 = (Inr 2, eg2)" using eg2(1) E(8) by simp
  have ne2: "\<not> mt_is_empty (eg_mem eg2)" using eg2(2) by (auto simp: mt_is_empty_def)
  have "map_of (eg_wals eg2) 2 = None"
    using wals_update_props(2) [OF E(12), of "eg_writer eg"] E(10,11) by (simp add: map_of_eq_None_iff eg2(5))
  then obtain eg3 where c: "engine_close (sample_env False) eg2 = (Inr (), eg3)"
    using flush_sample_version [OF eg2(2) fm1]
    by (auto simp: engine_close_def engine_flush_def ne2 sample_env_def eg2(3,4) E(9) wal_create_def Let_def)
  have tabs: "table_versions (\<lambda>_. 11) (\<lambda>_. None) m = {}" using E(3) by (simp add: table_versions_def)
  have mv: "mt_versions (eg_mem eg) = {sample_version 1}" using arg_cong [OF E(6), of set] by (simp add: mt_versions_def)
  have "mt_inv (eg_mem eg)" using E(5) by (cases rule: engine_step.cases)
      (auto simp: engine_propose_def engine_submit_def wal_submit_def engine_new_def Let_def mt_inv_apply [OF mt_inv_new]
        split: sum.splits option.splits if_splits prod.splits)
  then have inv: "lsm_inv (\<lambda>_. 11) (\<lambda>_. None) (eg_mem eg, eg_mgr eg)"
    using E(2) by (simp add: lsm_inv_def E(7) lsm_versions_def tabs mv versions_unique_def)
  have uniq: "versions_unique (lsm_versions (\<lambda>_. 11) (\<lambda>_. None) (eg_mem eg, eg_mgr eg) \<union> set [sample_version 2])"
    by (auto simp: lsm_versions_def E(7) tabs mv versions_unique_def ikey_def entry_put_def)
  have segs: "\<forall>s \<in> set (eg_wals eg). fst s < eg_segment eg + 1"
  proof
    fix s assume "s \<in> set (eg_wals eg)"
    then have "fst s \<in> {1}" unfolding E(11) [symmetric] by simp
    then show "fst s < eg_segment eg + 1" by (simp add: E(9))
  qed
  have "\<exists>ws mem next_seq seg. recover_wal (\<lambda>_. 11) (eg_wals eg3) = Inr (ws, mem, next_seq, seg) \<and>
      sample_version 1 \<notin> mt_versions mem \<union> table_versions (\<lambda>_. 11) (\<lambda>_. None) (eg_mgr eg3)"
    by (rule failed_flush_then_close_loses_writes [OF fn keep f1 p _ _ _ c _ E(4) inv uniq _ E(12) segs])
      (simp_all add: sample_env_def mv E(7) tabs entry_put_def)
  then show ?thesis using f1 p c mv by blast
qed

end
