(* ===== verification/Lsm_Anomalies.thy ===== *)
theory Lsm_Anomalies
  imports Engine_Wal
begin

text \<open>
  Installing a Raft snapshot over a store that already has tables (\<open>install_sst_snapshot\<close> of
  \<open>engine.rs\<close>). The files of the snapshot are written under the names that local tables of the
  same level and id have, before the local tables are retired, and retiring removes the file of
  that name.
\<close>

section \<open>Retiring every table\<close>

lemma retire_other:
  assumes "j \<noteq> i" "rg_pins rg = []"
  shows "rg_active (snd (rg_retire u j rg)) i = rg_active rg i" "rg_pins (snd (rg_retire u j rg)) = []"
    "rg_retired (snd (rg_retire u j rg)) i = rg_retired rg i"
    "rg_fs rg p = None \<Longrightarrow> rg_fs (snd (rg_retire u j rg)) p = None"
  using assms by (auto simp: rg_retire_def rg_retire_begin_def rg_reap_def Let_def split: option.splits)

lemma retire_unlinks:
  assumes "rg_active rg i = Some h" "rg_pins rg = []"
  shows "rg_active (snd (rg_retire None i rg)) i = None" "rg_pins (snd (rg_retire None i rg)) = []"
    "rg_retired (snd (rg_retire None i rg)) i = None" "rg_fs (snd (rg_retire None i rg)) (sh_path h) = None"
  using assms by (simp_all add: rg_retire_def rg_retire_begin_def rg_reap_def strong_count_def)

definition gone :: "sst_id \<Rightarrow> path \<Rightarrow> registry \<Rightarrow> bool" where
  "gone i p rg \<longleftrightarrow> rg_pins rg = [] \<and> rg_active rg i = None \<and> rg_retired rg i = None \<and> rg_fs rg p = None"

lemma retire_gone: "gone i p rg \<Longrightarrow> gone i p (snd (rg_retire None j rg))"
  by (auto simp: gone_def rg_retire_def rg_retire_begin_def rg_reap_def strong_count_def Let_def split: option.splits)

lemma retire_all_gone: "gone i p rg \<Longrightarrow> gone i p (retire_all (\<lambda>_. None) is rg)"
  by (induction "is" arbitrary: rg) (simp_all add: retire_all_def retire_gone)

lemma retire_all_unlinks:
  assumes "rg_active rg i = Some h" "rg_pins rg = []" "i \<in> set is"
  shows "gone i (sh_path h) (retire_all (\<lambda>_. None) is rg)"
  using assms
proof (induction "is" arbitrary: rg)
  case (Cons j "is")
  have step: "retire_all (\<lambda>_. None) (j # is) rg = retire_all (\<lambda>_. None) is (snd (rg_retire None j rg))"
    by (simp add: retire_all_def)
  show ?case
  proof (cases "j = i")
    case True
    then have "gone i (sh_path h) (snd (rg_retire None j rg))" using retire_unlinks [OF Cons.prems(1,2)] by (simp add: gone_def)
    then show ?thesis unfolding step by (rule retire_all_gone)
  next
    case False
    then show ?thesis unfolding step using Cons.IH [of "snd (rg_retire None j rg)"] retire_other [OF False Cons.prems(2)] Cons.prems by simp
  qed
qed simp

lemma write_snapshot_files_registry:
  "rg_active (write_snapshot_files sst_path fs rg) = rg_active rg" "rg_pins (write_snapshot_files sst_path fs rg) = rg_pins rg"
  by (induction fs arbitrary: rg) (simp_all add: write_snapshot_files_def)

section \<open>The collision\<close>

text \<open>
  C40. Installing a snapshot fails and wipes the node when the first table of the snapshot has the
  level and id of a local table. Ids start at 1 on every node, so this is the usual case. The file
  just written is removed with the local table it replaced, registering it finds no file, and by
  then the memtable and the catalog are empty, the applied index is unchanged.
\<close>

theorem snapshot_install_removes_its_own_file:
  assumes "payload_decode data = Inr payload" "sp_last_included_index payload = i" "sp_last_included_term payload = t"
    and "sp_files payload = s # ss" "ss_level s < length (mg_levels m)"
    and "f \<in> set (all_files m)" "fm_id f = ss_id s" "rg_active (mg_registry m) (ss_id s) = Some h"
    and "sh_path h = sst_path (ss_level s) (ss_id s)" "rg_pins (mg_registry m) = []"
    and "install_sst_snapshot xxh None (\<lambda>_. None) sst_path data i t n m = (r, n', m')"
  shows "r = Inl (Io NotFound) \<and> mt_map (rn_memtable n') = [] \<and> all_files m' = [] \<and> rn_last_applied n' = rn_last_applied n"
proof -
  let ?m1 = "m\<lparr>mg_registry := write_snapshot_files sst_path (s # ss) (mg_registry m)\<rparr>"
  let ?f = "hd (snapshot_metas sst_path (s # ss))" and ?mc = "clear_all (\<lambda>_. None) ?m1"
  have act: "rg_active (mg_registry ?m1) (ss_id s) = Some h" and pins: "rg_pins (mg_registry ?m1) = []"
    using assms(8,10) by (simp_all add: write_snapshot_files_registry)
  have "ss_id s \<in> set (map fm_id (all_files ?m1))" using assms(6,7) by (force simp: all_files_def)
  from retire_all_unlinks [OF act pins this]
  have gone: "gone (ss_id s) (sst_path (ss_level s) (ss_id s)) (mg_registry ?mc)"
    by (simp add: clear_all_def notify_l0_changed_def assms(9))
  have empty: "all_files ?mc = []" "mg_levels ?mc = map (\<lambda>_. []) (mg_levels m)"
    by (auto simp: clear_all_def notify_l0_changed_def all_files_def)
  have "check_new_file ?f ?mc = Inr ()"
    using assms(5) empty by (simp add: check_new_file_def snapshot_metas_def)
  then have "add_sst xxh None ?f ?mc = (Inl (Io NotFound), ?mc)"
    using gone by (simp add: add_sst_def upload_sst_def snapshot_metas_def rg_register_def gone_def)
  then have "replace_all xxh None (\<lambda>_. None) (snapshot_metas sst_path (s # ss)) ?m1 = (Inl (Io NotFound), ?mc)"
    by (simp add: replace_all_def snapshot_metas_def)
  then show ?thesis
    using assms(1-4,11) empty(1) by (auto simp: install_sst_snapshot_def mt_clear_def)
qed

definition sample_snapshot :: snapshot_payload where
  "sample_snapshot = \<lparr>sp_last_included_index = 9, sp_last_included_term = 2, sp_membership = cm_from_endpoints [(1, [65])],
     sp_files = [\<lparr>ss_level = 0, ss_id = 1, ss_smallest = [97], ss_largest = [98], ss_data = [7, 7]\<rparr>]\<rparr>"

theorem snapshot_install_removes_its_own_file_witness:
  "\<exists>m n n' m'. all_files m \<noteq> [] \<and>
     install_sst_snapshot (\<lambda>_. 11) None (\<lambda>_. None) (\<lambda>_ _. ''a'') (payload_encode sample_snapshot) 9 2 n m = (Inl (Io NotFound), n', m') \<and>
     all_files m' = []"
proof (rule sample_flushed)
  fix sz and m :: sst_manager
  assume S: "mg_levels m = [[sample_l0 sz], []]" "rg_pins (mg_registry m) = []"
    "\<exists>h. rg_active (mg_registry m) 1 = Some h \<and> sh_path h = ''a''"
  obtain h where h: "rg_active (mg_registry m) 1 = Some h" "sh_path h = ''a''" using S(3) by blast
  have dec: "payload_decode (payload_encode sample_snapshot) = Inr sample_snapshot"
    by (rule payload_decode_encode)
      (simp add: sample_snapshot_def payload_fits_def cm_inv_def bt_sorted_def sst_file_fits_def cm_fits_def cm_from_endpoints_def
        cm_encode_def encode_endpoint_def MEMBERSHIP_MAGIC_def Let_def)
  let ?n = "rn_new \<lparr>df_bytes = [], df_synced = 0\<rparr> mt_new 1"
  obtain r n' m' where i: "install_sst_snapshot (\<lambda>_. 11) None (\<lambda>_. None) (\<lambda>_ _. ''a'') (payload_encode sample_snapshot) 9 2 ?n m = (r, n', m')"
    using prod_cases3 by blast
  have "r = Inl (Io NotFound) \<and> all_files m' = []"
    using snapshot_install_removes_its_own_file [OF dec _ _ _ _ _ _ _ _ S(2) i, of "hd (sp_files sample_snapshot)" "[]" "sample_l0 sz" h]
    by (simp add: sample_snapshot_def S(1) all_files_def sample_l0_def h)
  then show ?thesis using i S(1) by (intro exI [of _ m] exI [of _ ?n] exI [of _ n'] exI [of _ m']) (simp add: all_files_def)
qed

end
