(* ===== verification/Tc_Log.thy ===== *)
theory Tc_Log
  imports Wal
begin

text \<open>
  The decision log of the two-phase-commit coordinator (\<open>tc_log.rs\<close>): framed records behind a
  header, appended with a sync, loaded as a whole at open. The hash \<open>xxh\<close> is a parameter.
\<close>

section \<open>Records\<close>

datatype twopc_state = Preparing | Prepared | Committed | Aborted

record tc_record =
  tr_txn_id :: u64
  tr_state :: twopc_state
  tr_commit_ts :: "u64 option"

record coordinator_decision =
  cd_state :: twopc_state
  cd_commit_ts :: "u64 option"

definition TC_MAGIC :: bytes where
  "TC_MAGIC = lit ''TKYC''"

definition TC_VERSION :: byte where
  "TC_VERSION = 1"

definition TAG_COMMITTED :: byte where
  "TAG_COMMITTED = 1"

definition TAG_ABORTED :: byte where
  "TAG_ABORTED = 2"

text \<open>\<open>None\<close> is the panic on a state that is not final.\<close>

definition tc_encode_body :: "tc_record \<Rightarrow> bytes option" where
  "tc_encode_body r =
     map_option (\<lambda>tag. tag # u64_le (tr_txn_id r) @ u64_le (case tr_commit_ts r of None \<Rightarrow> 0 | Some ts \<Rightarrow> ts))
       (case tr_state r of Committed \<Rightarrow> Some TAG_COMMITTED | Aborted \<Rightarrow> Some TAG_ABORTED | _ \<Rightarrow> None)"

definition tc_decode_body :: "bytes \<Rightarrow> tc_record result" where
  "tc_decode_body body =
     (if length body < 1 + 8 + 8 then Inl (Integrity ''tc decision body truncated'')
      else
        let tag = hd body; body = tl body; txn = u64_of_le (take 8 body); body = drop 8 body; ts = u64_of_le (take 8 body)
        in if drop 8 body \<noteq> [] then Inl (Integrity ''tc decision body has trailing bytes'')
           else if tag = TAG_COMMITTED then Inr \<lparr>tr_txn_id = txn, tr_state = Committed, tr_commit_ts = Some ts\<rparr>
           else if tag = TAG_ABORTED then Inr \<lparr>tr_txn_id = txn, tr_state = Aborted, tr_commit_ts = None\<rparr>
           else Inl (Integrity ''unknown tc decision tag''))"

definition tc_encode_framed :: "(bytes \<Rightarrow> u64) \<Rightarrow> tc_record \<Rightarrow> bytes option" where
  "tc_encode_framed xxh r = map_option (\<lambda>body. u32_le (len32 body) @ body @ u64_le (xxh body)) (tc_encode_body r)"

section \<open>The file\<close>

definition tc_create :: disk_file where
  "tc_create = file_sync (file_append [TC_VERSION] (file_append TC_MAGIC \<lparr>df_bytes = [], df_synced = 0\<rparr>))"

definition tc_check_header :: "bytes \<Rightarrow> unit result" where
  "tc_check_header bs =
     (if take 4 bs \<noteq> TC_MAGIC then Inl (Integrity ''bad tc decision magic'')
      else case drop 4 bs of
             [] \<Rightarrow> Inl (Io UnexpectedEof)
           | ver # _ \<Rightarrow> if ver \<noteq> TC_VERSION then Inl (Integrity ''unsupported tc decision version'') else Inr ())"

text \<open>Opening positions the writer behind whatever the file holds.\<close>

definition tc_open :: "disk_file option \<Rightarrow> disk_file result" where
  "tc_open file =
     (case file of
        None \<Rightarrow> Inr tc_create
      | Some f \<Rightarrow>
          if length (df_bytes f) < 4 then Inl (Io UnexpectedEof)
          else rbind (tc_check_header (df_bytes f)) (\<lambda>_. Inr f))"

text \<open>
  Appending: \<open>io\<close> is \<open>None\<close> when the write and the sync succeed and \<open>Some n\<close> when an I/O error
  leaves the first \<open>n\<close> bytes of the record written and not synced.
\<close>

definition append_decision :: "(bytes \<Rightarrow> u64) \<Rightarrow> nat option \<Rightarrow> tc_record \<Rightarrow> disk_file \<Rightarrow> unit result \<times> disk_file" where
  "append_decision xxh io r f =
     (if tr_state r \<noteq> Committed \<and> tr_state r \<noteq> Aborted
      then (Inl (Engine ''tc log only accepts Committed/Aborted decisions''), f)
      else case tc_encode_framed xxh r of
             None \<Rightarrow> (Inl (Engine ''tc log only stores terminal decisions''), f)
           | Some framed \<Rightarrow>
               (case io of
                  None \<Rightarrow> (Inr (), file_sync (file_append framed f))
                | Some n \<Rightarrow> (Inl (Io OtherIo), file_append (take n framed) f)))"

text \<open>The loop of \<open>load\<close>: a short or implausible record ends it, a wrong checksum is an error.\<close>

definition tc_decision :: "tc_record \<Rightarrow> coordinator_decision" where
  "tc_decision r = \<lparr>cd_state = tr_state r, cd_commit_ts = tr_commit_ts r\<rparr>"

function tc_load_loop ::
  "(bytes \<Rightarrow> u64) \<Rightarrow> bytes \<Rightarrow> (u64 \<rightharpoonup> coordinator_decision) \<times> u64 \<Rightarrow> ((u64 \<rightharpoonup> coordinator_decision) \<times> u64) result"
where
  "tc_load_loop xxh bs st =
     (if length bs < 4 then Inr st
      else
        let len = unat (u32_of_le (take 4 bs)); rest = drop 4 bs in
        if len = 0 \<or> 1024 * 1024 < len then Inr st
        else if length rest < len then Inr st
        else
          let body = take len rest; rest = drop len rest in
          if length rest < 8 then Inr st
          else if xxh body \<noteq> u64_of_le (take 8 rest) then Inl (Integrity ''tc decision checksum mismatch'')
          else
            case tc_decode_body body of
              Inl e \<Rightarrow> Inl e
            | Inr r \<Rightarrow> tc_load_loop xxh (drop 8 rest) ((fst st)(tr_txn_id r \<mapsto> tc_decision r), max (snd st) (tr_txn_id r)))"
  by pat_completeness auto

termination
  by (relation "measure (\<lambda>(_, bs, _). length bs)") auto

declare tc_load_loop.simps [simp del]

definition tc_load :: "(bytes \<Rightarrow> u64) \<Rightarrow> bytes option \<Rightarrow> ((u64 \<rightharpoonup> coordinator_decision) \<times> u64) result" where
  "tc_load xxh file =
     (case file of
        None \<Rightarrow> Inr (Map.empty, 0)
      | Some bs \<Rightarrow>
          if length bs < 4 then Inr (Map.empty, 0)
          else rbind (tc_check_header bs) (\<lambda>_. tc_load_loop xxh (drop 5 bs) (Map.empty, 0)))"

section \<open>What a log holds\<close>

definition tc_final :: "tc_record \<Rightarrow> bool" where
  "tc_final r \<longleftrightarrow> tr_state r = Committed \<and> tr_commit_ts r \<noteq> None \<or> tr_state r = Aborted \<and> tr_commit_ts r = None"

definition tc_frame :: "(bytes \<Rightarrow> u64) \<Rightarrow> tc_record \<Rightarrow> bytes" where
  "tc_frame xxh r = the (tc_encode_framed xxh r)"

definition tc_bytes :: "(bytes \<Rightarrow> u64) \<Rightarrow> tc_record list \<Rightarrow> bytes" where
  "tc_bytes xxh rs = concat (map (tc_frame xxh) rs)"

definition tc_header :: bytes where
  "tc_header = TC_MAGIC @ [TC_VERSION]"

definition tc_add :: "(u64 \<rightharpoonup> coordinator_decision) \<times> u64 \<Rightarrow> tc_record \<Rightarrow> (u64 \<rightharpoonup> coordinator_decision) \<times> u64" where
  "tc_add st r = ((fst st)(tr_txn_id r \<mapsto> tc_decision r), max (snd st) (tr_txn_id r))"

lemma tc_body_roundtrip:
  assumes "tc_final r"
  obtains body where "tc_encode_body r = Some body" "length body = 17" "tc_decode_body body = Inr r"
proof (cases "tr_state r = Committed")
  case True
  then obtain ts where "tr_commit_ts r = Some ts" using assms by (auto simp: tc_final_def)
  then show thesis
    using that [of "TAG_COMMITTED # u64_le (tr_txn_id r) @ u64_le ts"] True
    by (simp add: tc_encode_body_def tc_decode_body_def Let_def)
next
  case False
  then have "tr_state r = Aborted" "tr_commit_ts r = None" using assms by (auto simp: tc_final_def)
  then show thesis
    using that [of "TAG_ABORTED # u64_le (tr_txn_id r) @ u64_le 0"]
    by (simp add: tc_encode_body_def tc_decode_body_def Let_def TAG_COMMITTED_def TAG_ABORTED_def)
qed

lemma tc_frame_parts:
  assumes "tc_final r"
  obtains body where "tc_encode_framed xxh r = Some (tc_frame xxh r)" "tc_frame xxh r = u32_le (len32 body) @ body @ u64_le (xxh body)"
    "length body = 17" "tc_decode_body body = Inr r" "length (tc_frame xxh r) = 29"
  using tc_body_roundtrip [OF assms] that by (auto simp: tc_encode_framed_def tc_frame_def)

lemma length_tc_frame: "tc_final r \<Longrightarrow> length (tc_frame xxh r) = 29"
  by (erule tc_frame_parts)

lemma tc_load_step:
  assumes "tc_final r"
  shows "tc_load_loop xxh (tc_frame xxh r @ rest) st = tc_load_loop xxh rest (tc_add st r)"
proof (rule tc_frame_parts [OF assms, of xxh])
  fix body assume b: "tc_frame xxh r = u32_le (len32 body) @ body @ u64_le (xxh body)" "length body = 17" "tc_decode_body body = Inr r"
  show ?thesis by (subst tc_load_loop.simps) (simp add: b Let_def tc_add_def)
qed

lemma tc_load_torn:
  assumes "tc_final r" "n < 29"
  shows "tc_load_loop xxh (take n (tc_frame xxh r)) st = Inr st"
proof (rule tc_frame_parts [OF assms(1), of xxh])
  fix body assume b: "tc_frame xxh r = u32_le (len32 body) @ body @ u64_le (xxh body)" "length body = 17"
  show ?thesis
  proof (cases "n < 4")
    case True
    then have "length (take n (tc_frame xxh r)) < 4" by simp
    then show ?thesis by (subst tc_load_loop.simps) (simp only: if_True)
  next
    case False
    then have "take n (tc_frame xxh r) = u32_le (len32 body) @ take (n - 4) (body @ u64_le (xxh body))" by (simp add: b(1))
    then show ?thesis using assms(2) b(2) by (subst tc_load_loop.simps) (simp add: Let_def)
  qed
qed

lemma tc_load_cut:
  assumes "\<forall>r \<in> set rs. tc_final r"
  shows "tc_load_loop xxh (take n (tc_bytes xxh rs)) st = Inr (foldl tc_add st (take (n div 29) rs))"
  using assms
proof (induction rs arbitrary: n st)
  case Nil
  then show ?case by (simp add: tc_bytes_def tc_load_loop.simps)
next
  case (Cons r rs)
  have len: "length (tc_frame xxh r) = 29" using Cons.prems by (simp add: length_tc_frame)
  show ?case
  proof (cases "n < 29")
    case True
    then show ?thesis using tc_load_torn [of r n xxh st] Cons.prems len by (simp add: tc_bytes_def)
  next
    case False
    then have n: "n div 29 = Suc ((n - 29) div 29)" by (simp add: le_div_geq)
    have "take n (tc_bytes xxh (r # rs)) = tc_frame xxh r @ take (n - 29) (tc_bytes xxh rs)" using False len by (simp add: tc_bytes_def)
    then show ?thesis using tc_load_step [of r xxh] Cons.IH [of "n - 29" "tc_add st r"] Cons.prems n by simp
  qed
qed

lemma append_final:
  assumes "tc_final r"
  shows "append_decision xxh None r f = (Inr (), file_sync (file_append (tc_frame xxh r) f))"
proof (rule tc_frame_parts [OF assms, of xxh])
  assume "tc_encode_framed xxh r = Some (tc_frame xxh r)"
  moreover have "tr_state r = Committed \<or> tr_state r = Aborted" using assms by (auto simp: tc_final_def)
  ultimately show ?thesis by (auto simp: append_decision_def)
qed

definition tc_append_all :: "(bytes \<Rightarrow> u64) \<Rightarrow> tc_record list \<Rightarrow> disk_file \<Rightarrow> disk_file" where
  "tc_append_all xxh rs f = foldl (\<lambda>f r. snd (append_decision xxh None r f)) f rs"

lemma tc_append_all_bytes:
  assumes "\<forall>r \<in> set rs. tc_final r" "df_synced f = length (df_bytes f)"
  shows "df_bytes (tc_append_all xxh rs f) = df_bytes f @ tc_bytes xxh rs \<and>
    df_synced (tc_append_all xxh rs f) = length (df_bytes (tc_append_all xxh rs f))"
  using assms
proof (induction rs arbitrary: f)
  case (Cons r rs)
  let ?f = "file_sync (file_append (tc_frame xxh r) f)"
  have "tc_append_all xxh (r # rs) f = tc_append_all xxh rs ?f"
    using Cons.prems(1) by (simp add: tc_append_all_def append_final)
  then show ?case
    using Cons.IH [of ?f] Cons.prems(1) by (simp add: file_sync_def file_append_def tc_bytes_def)
qed (simp add: tc_append_all_def tc_bytes_def)

lemma tc_created: "df_bytes tc_create = tc_header" "df_synced tc_create = 5" "length tc_header = 5"
  by (simp_all add: tc_create_def tc_header_def file_sync_def file_append_def TC_MAGIC_def)

lemma tc_load_header: "tc_load xxh (Some (tc_header @ bs)) = tc_load_loop xxh bs (Map.empty, 0)"
  by (simp add: tc_load_def tc_check_header_def tc_header_def TC_MAGIC_def)

section \<open>Properties\<close>

text \<open>
  C6. Decisions are durable. After any sequence of final decisions, and a crash in the middle of
  writing one more, loading the log succeeds and gives for every transaction its last appended
  decision, and the highest transaction id.
\<close>

theorem tc_log_decisions_durable:
  assumes "\<forall>r \<in> set rs. tc_final r" "tc_final next" "crash_to (file_append (tc_frame xxh next) (tc_append_all xxh rs tc_create)) n bs"
  shows "tc_load xxh (Some bs) = Inr (foldl tc_add (Map.empty, 0) rs) \<or>
    n \<ge> length (df_bytes (tc_append_all xxh rs tc_create)) + 29 \<and> tc_load xxh (Some bs) = Inr (foldl tc_add (Map.empty, 0) (rs @ [next]))"
proof -
  let ?f = "tc_append_all xxh rs tc_create" and ?k = "length (tc_bytes xxh rs)"
  have f: "df_bytes ?f = tc_header @ tc_bytes xxh rs" "df_synced ?f = length (df_bytes ?f)"
    using tc_append_all_bytes [OF assms(1), of tc_create xxh] by (simp_all add: tc_created)
  have k: "?k = 29 * length rs" using assms(1) by (induction rs) (simp_all add: tc_bytes_def length_tc_frame)
  have n: "5 + ?k \<le> n" and bs: "bs = take n (tc_header @ tc_bytes xxh (rs @ [next]))"
    using assms(3) f by (simp_all add: crash_to_def file_append_def tc_bytes_def tc_created(3))
  have "bs = tc_header @ take (n - 5) (tc_bytes xxh (rs @ [next]))" using n by (simp add: bs tc_created(3))
  then have L: "tc_load xxh (Some bs) = Inr (foldl tc_add (Map.empty, 0) (take ((n - 5) div 29) (rs @ [next])))"
    using tc_load_cut [of "rs @ [next]" xxh "n - 5"] assms(1,2) by (simp add: tc_load_header)
  have q: "length rs \<le> (n - 5) div 29" using n k by (simp add: less_eq_div_iff_mult_less_eq)
  show ?thesis
  proof (cases "(n - 5) div 29 = length rs")
    case True
    then show ?thesis using L by simp
  next
    case False
    then have "Suc (length rs) \<le> (n - 5) div 29" using q by simp
    then have "29 * Suc (length rs) \<le> n - 5" by (simp add: less_eq_div_iff_mult_less_eq)
    then have "34 + 29 * length rs \<le> n" using n by auto
    then show ?thesis using L \<open>Suc (length rs) \<le> (n - 5) div 29\<close> f(1) k by (simp add: tc_created(3))
  qed
qed


definition tc_commit_record :: "u64 \<Rightarrow> u64 \<Rightarrow> tc_record" where
  "tc_commit_record t ts = \<lparr>tr_txn_id = t, tr_state = Committed, tr_commit_ts = Some ts\<rparr>"

lemma tc_final_commit [simp]: "tc_final (tc_commit_record t ts)"
  by (simp add: tc_final_def tc_commit_record_def)

theorem tc_log_decisions_durable_witness:
  "\<exists>bs. length bs = 45 \<and> tc_load (\<lambda>_. 7) (Some bs) = Inr ([1 \<mapsto> \<lparr>cd_state = Committed, cd_commit_ts = Some 5\<rparr>], 1)"
proof -
  let ?rs = "[tc_commit_record 1 5]" and ?next = "tc_commit_record 2 6"
  let ?f = "file_append (tc_frame (\<lambda>_. 7) ?next) (tc_append_all (\<lambda>_. 7) ?rs tc_create)"
  let ?bs = "take 45 (df_bytes ?f)"
  have A: "df_bytes (tc_append_all (\<lambda>_. 7) ?rs tc_create) = tc_header @ tc_bytes (\<lambda>_. 7) ?rs"
    "df_synced (tc_append_all (\<lambda>_. 7) ?rs tc_create) = 34"
    using tc_append_all_bytes [of ?rs tc_create "\<lambda>_. 7"] by (simp_all add: tc_created tc_bytes_def length_tc_frame)
  have len: "length (df_bytes (tc_append_all (\<lambda>_. 7) ?rs tc_create)) = 34" by (simp add: A tc_created tc_bytes_def length_tc_frame)
  have "crash_to ?f 45 ?bs" by (simp add: crash_to_def file_append_def A(2))
  from tc_log_decisions_durable [OF _ _ this] len have "tc_load (\<lambda>_. 7) (Some ?bs) = Inr (foldl tc_add (Map.empty, 0) ?rs)" by simp
  moreover have "length ?bs = 45" by (simp add: file_append_def len length_tc_frame)
  moreover have "foldl tc_add (Map.empty, 0) ?rs = ([1 \<mapsto> \<lparr>cd_state = Committed, cd_commit_ts = Some 5\<rparr>], 1)"
    by (simp add: tc_add_def tc_decision_def tc_commit_record_def)
  ultimately have "length ?bs = 45 \<and> tc_load (\<lambda>_. 7) (Some ?bs) = Inr ([1 \<mapsto> \<lparr>cd_state = Committed, cd_commit_ts = Some 5\<rparr>], 1)"
    by (simp only: refl)
  then show ?thesis by (rule exI [of _ ?bs])
qed

lemma nat_le_numeral: "nat_le (numeral k) x = word_of_nat (x mod 256) # nat_le (pred_numeral k) (x div 256)"
  by (simp only: numeral_eq_Suc [of k] nat_le.simps)

lemma tc_frame_example:
  "tc_frame (\<lambda>_. 7) (tc_commit_record 1 5) = [17, 0, 0, 0, 1, 1, 0, 0, 0, 0, 0, 0, 0, 5, 0, 0, 0, 0, 0, 0, 0, 7, 0, 0, 0, 0, 0, 0, 0]"
  "tc_frame (\<lambda>_. 7) (tc_commit_record 2 6) = [17, 0, 0, 0, 1, 2, 0, 0, 0, 0, 0, 0, 0, 6, 0, 0, 0, 0, 0, 0, 0, 7, 0, 0, 0, 0, 0, 0, 0]"
  by (simp_all add: tc_frame_def tc_encode_framed_def tc_encode_body_def tc_commit_record_def u32_le_def u64_le_def len32_def
        nat_le_numeral TAG_COMMITTED_def)


end
