(* ===== verification/Dtxn_Shard.thy ===== *)
theory Dtxn_Shard
  imports Raft_Command Tc_Log
begin

text \<open>
  Participants of the distributed two-phase commit (\<open>dtxn.rs\<close>): the trait \<open>ShardParticipant\<close> as a
  record of operations with the locale of its contract, and the in-process participant
  \<open>LocalShard\<close>. A shard's Raft log is the durable part of its state; \<open>recover_from_raft_log\<close>
  rebuilds the rest, and the invariant says that it rebuilds exactly what was there. Each method
  takes the locks it needs and is one step here. The hash maps are only looked up, so they are
  maps; the order in which \<open>orphaned_prepared\<close> lists its keys is unspecified, so it is a set here.
\<close>

section \<open>Requests and the participant interface\<close>

record shard_branch =
  sb_shard_id :: u64
  sb_writes :: "write_op list"
  sb_reads :: "(key \<times> commit_ts) list"

record dist_txn_request =
  dr_read_ts :: commit_ts
  dr_branches :: "shard_branch list"

datatype participant_log_record =
    RecPrepared u64 commit_ts "write_op list"
  | RecCommit u64 commit_ts
  | RecAbort u64

fun to_raft_command :: "participant_log_record \<Rightarrow> raft_command" where
  "to_raft_command (RecPrepared t read_ts writes) = CmdTxnPrepare t read_ts writes"
| "to_raft_command (RecCommit t ts) = CmdTxnCommit t ts []"
| "to_raft_command (RecAbort t) = CmdTxnAbort t"

fun from_raft_command :: "raft_command \<Rightarrow> participant_log_record option" where
  "from_raft_command (CmdTxnPrepare t read_ts ops) = Some (RecPrepared t read_ts ops)"
| "from_raft_command (CmdTxnCommit t ts _) = Some (RecCommit t ts)"
| "from_raft_command (CmdTxnAbort t) = Some (RecAbort t)"
| "from_raft_command _ = None"

lemma from_to_raft_command [simp]: "from_raft_command (to_raft_command r) = Some r"
  by (cases r) simp_all

definition put_branch :: "u64 \<Rightarrow> key \<Rightarrow> val \<Rightarrow> shard_branch" where
  "put_branch shard k v = \<lparr>sb_shard_id = shard, sb_writes = [(k, Some v)], sb_reads = []\<rparr>"

text \<open>The methods of the trait, as a record of functions on the participant's state.\<close>

record 's participant_ops =
  sp_prepare :: "u64 \<Rightarrow> commit_ts \<Rightarrow> write_op list \<Rightarrow> (key \<times> commit_ts) list \<Rightarrow> 's \<Rightarrow> unit result \<times> 's"
  sp_commit :: "u64 \<Rightarrow> commit_ts \<Rightarrow> 's \<Rightarrow> unit result \<times> 's"
  sp_abort :: "u64 \<Rightarrow> 's \<Rightarrow> unit result \<times> 's"
  sp_orphaned :: "'s \<Rightarrow> u64 set"
  sp_get_at :: "'s \<Rightarrow> key \<Rightarrow> commit_ts \<Rightarrow> val option"

definition sp_get :: "'s participant_ops \<Rightarrow> 's \<Rightarrow> key \<Rightarrow> val option" where
  "sp_get ops s k = sp_get_at ops s k u64_max"

fun twopc_state_str :: "twopc_state \<Rightarrow> string" where
  "twopc_state_str Preparing = ''PREPARING''"
| "twopc_state_str Prepared = ''PREPARED''"
| "twopc_state_str Committed = ''COMMITTED''"
| "twopc_state_str Aborted = ''ABORTED''"

section \<open>The in-process shard\<close>

record local_shard =
  ls_id :: u64
  ls_store :: "key \<Rightarrow> (commit_ts \<times> val option) list option"
  ls_prepared :: "u64 \<Rightarrow> write_op list option"
  ls_locks :: "key \<Rightarrow> u64 option"
  ls_raft_log :: "raft_command list"
  ls_fail_prepare :: bool
  ls_crash_after_prepare :: bool
  ls_last_commit :: "key \<Rightarrow> commit_ts option"

definition ls_new :: "u64 \<Rightarrow> local_shard" where
  "ls_new i = \<lparr>ls_id = i, ls_store = Map.empty, ls_prepared = Map.empty, ls_locks = Map.empty, ls_raft_log = [],
     ls_fail_prepare = False, ls_crash_after_prepare = False, ls_last_commit = Map.empty\<rparr>"

definition inject_prepare_failure :: "bool \<Rightarrow> local_shard \<Rightarrow> local_shard" where
  "inject_prepare_failure on s = s\<lparr>ls_fail_prepare := on\<rparr>"

definition inject_crash_after_prepare :: "bool \<Rightarrow> local_shard \<Rightarrow> local_shard" where
  "inject_crash_after_prepare on s = s\<lparr>ls_crash_after_prepare := on\<rparr>"

definition ls_raft_log_len :: "local_shard \<Rightarrow> nat" where
  "ls_raft_log_len s = length (ls_raft_log s)"

definition ls_is_prepared :: "u64 \<Rightarrow> local_shard \<Rightarrow> bool" where
  "ls_is_prepared t s = (ls_prepared s t \<noteq> None)"

text \<open>The loops over a write-set.\<close>

definition locks_insert :: "u64 \<Rightarrow> write_op list \<Rightarrow> (key \<rightharpoonup> u64) \<Rightarrow> key \<rightharpoonup> u64" where
  "locks_insert t ws locks = foldl (\<lambda>l op. l(fst op \<mapsto> t)) locks ws"

definition locks_remove :: "write_op list \<Rightarrow> (key \<rightharpoonup> u64) \<Rightarrow> key \<rightharpoonup> u64" where
  "locks_remove ws locks = foldl (\<lambda>l op. l(fst op := None)) locks ws"

definition apply_write :: "commit_ts \<Rightarrow> local_shard \<Rightarrow> write_op \<Rightarrow> local_shard" where
  "apply_write ts s op =
     (let versions = (case ls_store s (fst op) of None \<Rightarrow> [] | Some vs \<Rightarrow> vs)
      in s\<lparr>ls_store := (ls_store s)(fst op \<mapsto> versions @ [(ts, snd op)]), ls_last_commit := (ls_last_commit s)(fst op \<mapsto> ts)\<rparr>)"

definition apply_writes :: "write_op list \<Rightarrow> commit_ts \<Rightarrow> local_shard \<Rightarrow> local_shard" where
  "apply_writes writes ts s = foldl (apply_write ts) s writes"

text \<open>One record of the replay. Only the prepared set, the locks and the applied writes change.\<close>

fun recover_cmd :: "local_shard \<Rightarrow> raft_command \<Rightarrow> local_shard" where
  "recover_cmd s (CmdTxnPrepare t _ ops) =
     s\<lparr>ls_locks := locks_insert t ops (ls_locks s), ls_prepared := (ls_prepared s)(t \<mapsto> ops)\<rparr>"
| "recover_cmd s (CmdTxnCommit t ts ops) =
     apply_writes ops ts (s\<lparr>ls_prepared := (ls_prepared s)(t := None), ls_locks := locks_remove ops (ls_locks s)\<rparr>)"
| "recover_cmd s (CmdTxnAbort t) =
     (case ls_prepared s t of
        None \<Rightarrow> s
      | Some writes \<Rightarrow> s\<lparr>ls_prepared := (ls_prepared s)(t := None), ls_locks := locks_remove writes (ls_locks s)\<rparr>)"
| "recover_cmd s _ = s"

definition recover_from_raft_log :: "local_shard \<Rightarrow> local_shard" where
  "recover_from_raft_log s = foldl recover_cmd (s\<lparr>ls_prepared := Map.empty, ls_locks := Map.empty\<rparr>) (ls_raft_log s)"

text \<open>Validation and the lock check, shared with the engine's participant: the first offending key decides.\<close>

definition occ_stale :: "(key \<rightharpoonup> commit_ts) \<Rightarrow> commit_ts \<Rightarrow> key \<Rightarrow> bool" where
  "occ_stale last_commit read_ts k = (case last_commit k of None \<Rightarrow> False | Some ts \<Rightarrow> read_ts < ts)"

definition occ_validate ::
  "(key \<rightharpoonup> commit_ts) \<Rightarrow> commit_ts \<Rightarrow> (key \<times> commit_ts) list \<Rightarrow> write_op list \<Rightarrow> unit result"
where
  "occ_validate last_commit read_ts reads writes =
     (if list_ex (occ_stale last_commit read_ts \<circ> fst) reads then Inl (Conflict ''key committed after read_ts'')
      else if list_ex (occ_stale last_commit read_ts \<circ> fst) writes then Inl (Conflict ''write key committed after read_ts'')
      else Inr ())"

definition lock_conflict :: "(key \<rightharpoonup> u64) \<Rightarrow> u64 \<Rightarrow> write_op list \<Rightarrow> bool" where
  "lock_conflict locks t writes =
     list_ex (\<lambda>op. case locks (fst op) of None \<Rightarrow> False | Some owner \<Rightarrow> owner \<noteq> t) writes"

definition ls_prepare ::
  "u64 \<Rightarrow> commit_ts \<Rightarrow> write_op list \<Rightarrow> (key \<times> commit_ts) list \<Rightarrow> local_shard \<Rightarrow> unit result \<times> local_shard"
where
  "ls_prepare t read_ts writes reads s =
     (if ls_fail_prepare s then (Inl (Network ''injected prepare failure''), s)
      else case occ_validate (ls_last_commit s) read_ts reads writes of
             Inl e \<Rightarrow> (Inl e, s)
           | Inr _ \<Rightarrow>
               if lock_conflict (ls_locks s) t writes then (Inl (Conflict ''key locked by txn''), s)
               else
                 let s = s\<lparr>ls_locks := locks_insert t writes (ls_locks s),
                            ls_raft_log := ls_raft_log s @ [CmdTxnPrepare t read_ts writes],
                            ls_prepared := (ls_prepared s)(t \<mapsto> writes)\<rparr>
                 in if ls_crash_after_prepare s then (Inl (Network ''crashed after PREPARED''), s) else (Inr (), s))"

definition ls_commit :: "u64 \<Rightarrow> commit_ts \<Rightarrow> local_shard \<Rightarrow> unit result \<times> local_shard" where
  "ls_commit t ts s =
     (if ls_crash_after_prepare s then (Inl (Network ''down (cannot commit)''), s)
      else case ls_prepared s t of
             None \<Rightarrow> (Inl (Engine ''commit for unknown prepared txn''), s)
           | Some writes \<Rightarrow>
               (Inr (), apply_writes writes ts
                  (s\<lparr>ls_prepared := (ls_prepared s)(t := None), ls_locks := locks_remove writes (ls_locks s),
                     ls_raft_log := ls_raft_log s @ [CmdTxnCommit t ts writes]\<rparr>)))"

definition ls_abort :: "u64 \<Rightarrow> local_shard \<Rightarrow> unit result \<times> local_shard" where
  "ls_abort t s =
     (if ls_crash_after_prepare s then (Inl (Network ''down (cannot abort)''), s)
      else
        let s' = (case ls_prepared s t of
                    None \<Rightarrow> s
                  | Some writes \<Rightarrow> s\<lparr>ls_prepared := (ls_prepared s)(t := None), ls_locks := locks_remove writes (ls_locks s)\<rparr>)
        in (Inr (), s'\<lparr>ls_raft_log := ls_raft_log s @ [CmdTxnAbort t]\<rparr>))"

definition ls_orphaned :: "local_shard \<Rightarrow> u64 set" where
  "ls_orphaned s = dom (ls_prepared s)"

definition ls_get_at :: "local_shard \<Rightarrow> key \<Rightarrow> commit_ts \<Rightarrow> val option" where
  "ls_get_at s k read_ts =
     (case ls_store s k of
        None \<Rightarrow> None
      | Some versions \<Rightarrow>
          (case find (\<lambda>(ts, _). ts \<le> read_ts) (rev versions) of None \<Rightarrow> None | Some (_, v) \<Rightarrow> v))"

definition local_ops :: "local_shard participant_ops" where
  "local_ops = \<lparr>sp_prepare = ls_prepare, sp_commit = ls_commit, sp_abort = ls_abort, sp_orphaned = ls_orphaned, sp_get_at = ls_get_at\<rparr>"

section \<open>The contract of a participant\<close>

text \<open>
  What the coordinator relies on, in terms of the prepared write-sets of a participant and the
  history of its two-phase-commit commands. A prepare that reports an error may still have
  prepared; an error of a commit or an abort leaves the participant as it was.
\<close>

locale shard_participant =
  fixes ops :: "'s participant_ops"
    and prepared :: "'s \<Rightarrow> u64 \<Rightarrow> write_op list option"
    and hist :: "'s \<Rightarrow> raft_command list"
    and inv :: "'s \<Rightarrow> bool"
  assumes prepare_ok: "inv s \<Longrightarrow> sp_prepare ops t read_ts ws rd s = (Inr (), s') \<Longrightarrow>
      inv s' \<and> prepared s' = (prepared s)(t \<mapsto> ws) \<and> hist s' = hist s @ [CmdTxnPrepare t read_ts ws]"
    and prepare_err: "inv s \<Longrightarrow> sp_prepare ops t read_ts ws rd s = (Inl e, s') \<Longrightarrow>
      inv s' \<and> (prepared s' = prepared s \<and> hist s' = hist s \<or>
                prepared s' = (prepared s)(t \<mapsto> ws) \<and> hist s' = hist s @ [CmdTxnPrepare t read_ts ws])"
    and commit_ok: "inv s \<Longrightarrow> sp_commit ops t ts s = (Inr (), s') \<Longrightarrow>
      inv s' \<and> (\<exists>ws. prepared s t = Some ws \<and> prepared s' = (prepared s)(t := None) \<and> hist s' = hist s @ [CmdTxnCommit t ts ws])"
    and commit_err: "inv s \<Longrightarrow> sp_commit ops t ts s = (Inl e, s') \<Longrightarrow> inv s' \<and> prepared s' = prepared s \<and> hist s' = hist s"
    and abort_ok: "inv s \<Longrightarrow> sp_abort ops t s = (Inr (), s') \<Longrightarrow>
      inv s' \<and> prepared s' = (prepared s)(t := None) \<and> hist s' = hist s @ [CmdTxnAbort t]"
    and abort_err: "inv s \<Longrightarrow> sp_abort ops t s = (Inl e, s') \<Longrightarrow> inv s' \<and> prepared s' = prepared s \<and> hist s' = hist s"
    and orphaned: "inv s \<Longrightarrow> sp_orphaned ops s = dom (prepared s)"

text \<open>A durable participant keeps its prepared write-sets over the events of its environment, restarts among them.\<close>

locale durable_participant = shard_participant +
  fixes env :: "'a \<Rightarrow> 'a \<Rightarrow> bool"
  assumes env_keeps: "inv s \<Longrightarrow> env s s' \<Longrightarrow> inv s' \<and> prepared s' = prepared s \<and> hist s' = hist s"

section \<open>The local shard is rebuilt by its log\<close>

definition ls_versions :: "local_shard \<Rightarrow> key \<Rightarrow> (commit_ts \<times> val option) list" where
  "ls_versions s k = (case ls_store s k of None \<Rightarrow> [] | Some vs \<Rightarrow> vs)"

definition ls_replayed :: "local_shard \<Rightarrow> local_shard" where
  "ls_replayed s = foldl recover_cmd (ls_new (ls_id s)) (ls_raft_log s)"

definition ls_inv :: "local_shard \<Rightarrow> bool" where
  "ls_inv s \<longleftrightarrow>
     ls_prepared s = ls_prepared (ls_replayed s) \<and> ls_locks s = ls_locks (ls_replayed s) \<and>
     ls_last_commit s = ls_last_commit (ls_replayed s) \<and>
     (\<forall>k. \<exists>pre. ls_versions s k = pre @ ls_versions (ls_replayed s) k \<and> set pre \<subseteq> set (ls_versions (ls_replayed s) k))"

lemma apply_write_fields [simp]:
  "ls_id (apply_write ts s op) = ls_id s" "ls_prepared (apply_write ts s op) = ls_prepared s"
  "ls_locks (apply_write ts s op) = ls_locks s" "ls_raft_log (apply_write ts s op) = ls_raft_log s"
  "ls_last_commit (apply_write ts s op) = (ls_last_commit s)(fst op \<mapsto> ts)"
  "ls_versions (apply_write ts s op) k = ls_versions s k @ (if k = fst op then [(ts, snd op)] else [])"
  by (simp_all add: apply_write_def ls_versions_def split: option.splits)

definition written :: "commit_ts \<Rightarrow> write_op list \<Rightarrow> key \<Rightarrow> (commit_ts \<times> val option) list" where
  "written ts ws k = map (\<lambda>op. (ts, snd op)) (filter (\<lambda>op. fst op = k) ws)"

lemma apply_writes_fields [simp]:
  "ls_id (apply_writes ws ts s) = ls_id s" "ls_prepared (apply_writes ws ts s) = ls_prepared s"
  "ls_locks (apply_writes ws ts s) = ls_locks s" "ls_raft_log (apply_writes ws ts s) = ls_raft_log s"
  "ls_last_commit (apply_writes ws ts s) = ls_last_commit s ++ (\<lambda>k. if k \<in> fst ` set ws then Some ts else None)"
  "ls_versions (apply_writes ws ts s) k = ls_versions s k @ written ts ws k"
  by (induction ws arbitrary: s) (auto simp: apply_writes_def written_def map_add_def fun_eq_iff)

lemma ls_versions_update [simp]:
  "ls_versions (s\<lparr>ls_prepared := p\<rparr>) = ls_versions s" "ls_versions (s\<lparr>ls_locks := l\<rparr>) = ls_versions s"
  "ls_versions (s\<lparr>ls_raft_log := g\<rparr>) = ls_versions s" "ls_versions (s\<lparr>ls_fail_prepare := b\<rparr>) = ls_versions s"
  "ls_versions (s\<lparr>ls_crash_after_prepare := b\<rparr>) = ls_versions s"
  by (simp_all add: ls_versions_def fun_eq_iff)

lemma ls_new_versions [simp]: "ls_versions (ls_new i) k = []"
  by (simp add: ls_versions_def ls_new_def)

lemma recover_cmd_fixed [simp]:
  "ls_id (recover_cmd s c) = ls_id s" "ls_raft_log (recover_cmd s c) = ls_raft_log s"
  by (cases c; simp split: option.splits)+

lemma recover_cmds_fixed [simp]:
  "ls_id (foldl recover_cmd s cs) = ls_id s" "ls_raft_log (foldl recover_cmd s cs) = ls_raft_log s"
  by (induction cs arbitrary: s) simp_all

lemma map_add_idem [simp]: "m ++ m = m"
  by (simp add: map_add_def fun_eq_iff split: option.split)

text \<open>Replaying on top of a store appends what a replay from scratch gives.\<close>

definition replay_on :: "local_shard \<Rightarrow> local_shard \<Rightarrow> local_shard \<Rightarrow> bool" where
  "replay_on s0 a b \<longleftrightarrow>
     ls_prepared a = ls_prepared b \<and> ls_locks a = ls_locks b \<and> ls_last_commit a = ls_last_commit s0 ++ ls_last_commit b \<and>
     (\<forall>k. ls_versions a k = ls_versions s0 k @ ls_versions b k)"

lemma replay_on_step: "replay_on s0 a b \<Longrightarrow> replay_on s0 (recover_cmd a c) (recover_cmd b c)"
  by (cases c) (auto simp: replay_on_def split: option.splits)

lemma replay_on_run: "replay_on s0 a b \<Longrightarrow> replay_on s0 (foldl recover_cmd a cs) (foldl recover_cmd b cs)"
  by (induction cs arbitrary: a b) (simp_all add: replay_on_step)

lemma recover_replay: "replay_on s (recover_from_raft_log s) (ls_replayed s)"
  unfolding recover_from_raft_log_def ls_replayed_def
  by (rule replay_on_run) (simp add: replay_on_def ls_new_def ls_versions_def fun_eq_iff)

lemma ls_inv_log:
  assumes "ls_inv s" "ls_raft_log s' = ls_raft_log s @ [c]" "ls_id s' = ls_id s"
    and "ls_prepared s' = ls_prepared (recover_cmd s c)" "ls_locks s' = ls_locks (recover_cmd s c)"
    and "ls_last_commit s' = ls_last_commit (recover_cmd s c)" "\<And>k. ls_versions s' k = ls_versions (recover_cmd s c) k"
  shows "ls_inv s'"
proof -
  have r: "ls_replayed s' = recover_cmd (ls_replayed s) c" using assms(2,3) by (simp add: ls_replayed_def)
  have f: "ls_prepared s = ls_prepared (ls_replayed s)" "ls_locks s = ls_locks (ls_replayed s)"
    "ls_last_commit s = ls_last_commit (ls_replayed s)" using assms(1) by (auto simp: ls_inv_def)
  have v: "\<exists>new. ls_versions (recover_cmd s c) k = ls_versions s k @ new \<and>
      ls_versions (recover_cmd (ls_replayed s) c) k = ls_versions (ls_replayed s) k @ new" for k
    using f by (cases c) (auto split: option.splits)
  have "\<exists>pre. ls_versions s' k = pre @ ls_versions (ls_replayed s') k \<and> set pre \<subseteq> set (ls_versions (ls_replayed s') k)" for k
    using v [of k] assms(1) by (fastforce simp: assms(7) r ls_inv_def)
  moreover have "ls_prepared s' = ls_prepared (ls_replayed s') \<and> ls_locks s' = ls_locks (ls_replayed s') \<and>
      ls_last_commit s' = ls_last_commit (ls_replayed s')"
    unfolding assms(4-6) r using f by (cases c) (auto split: option.splits)
  ultimately show ?thesis by (simp add: ls_inv_def)
qed

lemma ls_inv_flags [simp]:
  "ls_inv (s\<lparr>ls_fail_prepare := b\<rparr>) = ls_inv s" "ls_inv (s\<lparr>ls_crash_after_prepare := b\<rparr>) = ls_inv s"
  by (simp_all add: ls_inv_def ls_replayed_def)

lemma ls_new_fields [simp]:
  "ls_id (ls_new i) = i" "ls_raft_log (ls_new i) = []" "ls_prepared (ls_new i) = Map.empty" "ls_locks (ls_new i) = Map.empty"
  "ls_last_commit (ls_new i) = Map.empty"
  by (simp_all add: ls_new_def)

lemma ls_inv_new: "ls_inv (ls_new i)"
  by (simp add: ls_inv_def ls_replayed_def)

lemma ls_prepare_cases:
  obtains (refused) e where "ls_prepare t read_ts ws rd s = (Inl e, s)"
  | (prepared) r s' where "ls_prepare t read_ts ws rd s = (r, s')"
      "occ_validate (ls_last_commit s) read_ts rd ws = Inr ()" "\<not> lock_conflict (ls_locks s) t ws"
      "s' = s\<lparr>ls_locks := locks_insert t ws (ls_locks s), ls_raft_log := ls_raft_log s @ [CmdTxnPrepare t read_ts ws],
              ls_prepared := (ls_prepared s)(t \<mapsto> ws)\<rparr>"
  by (cases "occ_validate (ls_last_commit s) read_ts rd ws"; cases "ls_fail_prepare s"; cases "lock_conflict (ls_locks s) t ws";
      cases "ls_crash_after_prepare s") (auto simp: ls_prepare_def)

lemma ls_prepare_inv: "ls_inv s \<Longrightarrow> ls_inv (snd (ls_prepare t read_ts ws rd s))"
  by (rule ls_prepare_cases [of t read_ts ws rd s])
    (auto intro!: ls_inv_log [of s _ "CmdTxnPrepare t read_ts ws"])

lemma ls_commit_inv: "ls_inv s \<Longrightarrow> ls_inv (snd (ls_commit t ts s))"
  by (cases "ls_prepared s t")
    (auto simp: ls_commit_def intro!: ls_inv_log [of s _ "CmdTxnCommit t ts (the (ls_prepared s t))"])

lemma ls_abort_inv: "ls_inv s \<Longrightarrow> ls_inv (snd (ls_abort t s))"
  by (auto simp: ls_abort_def Let_def split: option.splits intro!: ls_inv_log [of s _ "CmdTxnAbort t"])

lemma ls_recover_inv: "ls_inv s \<Longrightarrow> ls_inv (recover_from_raft_log s)"
proof -
  assume inv: "ls_inv s"
  have r: "ls_replayed (recover_from_raft_log s) = ls_replayed s"
    by (simp add: ls_replayed_def recover_from_raft_log_def)
  have "ls_versions (recover_from_raft_log s) k = ls_versions s k @ ls_versions (ls_replayed s) k" for k
    using recover_replay [of s] by (simp add: replay_on_def)
  moreover have "set (ls_versions s k) \<subseteq> set (ls_versions (ls_replayed s) k)" for k
    using inv by (fastforce simp: ls_inv_def dest: spec [of _ k])
  ultimately show ?thesis using inv recover_replay [of s] by (auto simp: ls_inv_def r replay_on_def)
qed

text \<open>A read depends on the replayed versions only.\<close>

lemma find_rev_covered:
  assumes "set pre \<subseteq> set vs"
  shows "find P (rev (pre @ vs)) = find P (rev vs)"
proof -
  have "find P (xs @ ys) = (case find P xs of None \<Rightarrow> find P ys | Some x \<Rightarrow> Some x)" for xs ys
    by (induction xs) simp_all
  moreover have "find P (rev vs) = None \<Longrightarrow> find P (rev pre) = None" using assms by (auto simp: find_None_iff)
  ultimately show ?thesis by (simp split: option.split)
qed

lemma ls_get_at_versions:
  "ls_get_at s k ts = (case find (\<lambda>(t, _). t \<le> ts) (rev (ls_versions s k)) of None \<Rightarrow> None | Some (_, v) \<Rightarrow> v)"
  by (simp add: ls_get_at_def ls_versions_def split: option.split)

lemma ls_get_at_replayed: "ls_inv s \<Longrightarrow> ls_get_at s k ts = ls_get_at (ls_replayed s) k ts"
  unfolding ls_get_at_versions ls_inv_def by (metis find_rev_covered)

text \<open>What may happen to a shard besides the calls of the trait: the injections and a restart.\<close>

definition local_env :: "local_shard \<Rightarrow> local_shard \<Rightarrow> bool" where
  "local_env s s' \<longleftrightarrow> s' = recover_from_raft_log s \<or> (\<exists>b. s' = inject_prepare_failure b s \<or> s' = inject_crash_after_prepare b s)"

lemma recover_fields:
  assumes "ls_inv s"
  shows "ls_prepared (recover_from_raft_log s) = ls_prepared s" "ls_locks (recover_from_raft_log s) = ls_locks s"
    "ls_last_commit (recover_from_raft_log s) = ls_last_commit s" "ls_raft_log (recover_from_raft_log s) = ls_raft_log s"
  using recover_replay [of s] assms by (auto simp: replay_on_def ls_inv_def) (simp add: recover_from_raft_log_def)

interpretation local: durable_participant local_ops ls_prepared ls_raft_log ls_inv local_env
proof (unfold_locales, simp_all only: local_ops_def participant_ops.select_convs)
  fix s t read_ts ws rd s'
  assume inv: "ls_inv s" and p: "ls_prepare t read_ts ws rd s = (Inr (), s')"
  have "ls_inv s'" using ls_prepare_inv [OF inv, of t read_ts ws rd] by (simp add: p)
  then show "ls_inv s' \<and> ls_prepared s' = (ls_prepared s)(t \<mapsto> ws) \<and> ls_raft_log s' = ls_raft_log s @ [CmdTxnPrepare t read_ts ws]"
    using p by (rule_tac ls_prepare_cases [of t read_ts ws rd s]) auto
next
  fix s t read_ts ws rd e s'
  assume inv: "ls_inv s" and p: "ls_prepare t read_ts ws rd s = (Inl e, s')"
  have "ls_inv s'" using ls_prepare_inv [OF inv, of t read_ts ws rd] by (simp add: p)
  then show "ls_inv s' \<and> (ls_prepared s' = ls_prepared s \<and> ls_raft_log s' = ls_raft_log s \<or>
      ls_prepared s' = (ls_prepared s)(t \<mapsto> ws) \<and> ls_raft_log s' = ls_raft_log s @ [CmdTxnPrepare t read_ts ws])"
    using p by (rule_tac ls_prepare_cases [of t read_ts ws rd s]) auto
next
  fix s t ts s'
  assume inv: "ls_inv s" and c: "ls_commit t ts s = (Inr (), s')"
  have "ls_inv s'" using ls_commit_inv [OF inv, of t ts] by (simp add: c)
  then show "ls_inv s' \<and> (\<exists>ws. ls_prepared s t = Some ws \<and> ls_prepared s' = (ls_prepared s)(t := None) \<and>
      ls_raft_log s' = ls_raft_log s @ [CmdTxnCommit t ts ws])"
    using c by (auto simp: ls_commit_def split: if_splits option.splits)
next
  fix s t ts e s'
  assume "ls_inv s" and "ls_commit t ts s = (Inl e, s')"
  then show "ls_inv s' \<and> ls_prepared s' = ls_prepared s \<and> ls_raft_log s' = ls_raft_log s"
    by (auto simp: ls_commit_def split: if_splits option.splits)
next
  fix s t s'
  assume inv: "ls_inv s" and a: "ls_abort t s = (Inr (), s')"
  have "ls_inv s'" using ls_abort_inv [OF inv, of t] by (simp add: a)
  then show "ls_inv s' \<and> ls_prepared s' = (ls_prepared s)(t := None) \<and> ls_raft_log s' = ls_raft_log s @ [CmdTxnAbort t]"
    using a by (auto simp: ls_abort_def Let_def fun_eq_iff split: if_splits option.splits)
next
  fix s t e s'
  assume "ls_inv s" and "ls_abort t s = (Inl e, s')"
  then show "ls_inv s' \<and> ls_prepared s' = ls_prepared s \<and> ls_raft_log s' = ls_raft_log s"
    by (auto simp: ls_abort_def Let_def split: if_splits)
next
  fix s s'
  assume "ls_inv s" and "local_env s s'"
  then show "ls_inv s' \<and> ls_prepared s' = ls_prepared s \<and> ls_raft_log s' = ls_raft_log s"
    by (auto simp: local_env_def ls_recover_inv recover_fields inject_prepare_failure_def inject_crash_after_prepare_def)
qed (simp add: ls_orphaned_def)

section \<open>Runs of a local shard\<close>

datatype ls_op =
    LsPrepare u64 commit_ts "write_op list" "(key \<times> commit_ts) list"
  | LsCommit u64 commit_ts
  | LsAbort u64
  | LsInject bool bool
  | LsRecover

fun ls_step :: "local_shard \<Rightarrow> ls_op \<Rightarrow> local_shard" where
  "ls_step s (LsPrepare t read_ts ws rd) = snd (ls_prepare t read_ts ws rd s)"
| "ls_step s (LsCommit t ts) = snd (ls_commit t ts s)"
| "ls_step s (LsAbort t) = snd (ls_abort t s)"
| "ls_step s (LsInject f c) = inject_crash_after_prepare c (inject_prepare_failure f s)"
| "ls_step s LsRecover = recover_from_raft_log s"

text \<open>The transaction an operation is about.\<close>

fun ls_op_txn :: "ls_op \<Rightarrow> u64 option" where
  "ls_op_txn (LsPrepare t _ _ _) = Some t"
| "ls_op_txn (LsCommit t _) = Some t"
| "ls_op_txn (LsAbort t) = Some t"
| "ls_op_txn _ = None"

lemma ls_step_inv: "ls_inv s \<Longrightarrow> ls_inv (ls_step s x)"
  by (cases x)
    (auto simp: ls_prepare_inv ls_commit_inv ls_abort_inv ls_recover_inv inject_prepare_failure_def inject_crash_after_prepare_def)

lemma ls_run_inv: "ls_inv s \<Longrightarrow> ls_inv (foldl ls_step s xs)"
  by (induction xs arbitrary: s) (simp_all add: ls_step_inv)

lemma locks_insert_at: "locks_insert t ws l k = (if k \<in> fst ` set ws then Some t else l k)"
  by (induction ws arbitrary: l) (auto simp: locks_insert_def)

lemma locks_remove_at: "locks_remove ws l k = (if k \<in> fst ` set ws then None else l k)"
  by (induction ws arbitrary: l) (auto simp: locks_remove_def)

text \<open>A prepared transaction owns the locks of its write-set.\<close>

definition ls_locked :: "local_shard \<Rightarrow> bool" where
  "ls_locked s \<longleftrightarrow> (\<forall>t ws. ls_prepared s t = Some ws \<longrightarrow> (\<forall>k \<in> fst ` set ws. ls_locks s k = Some t))"

lemma ls_locked_new: "ls_locked (ls_new i)"
  by (simp add: ls_locked_def)

lemma ls_lockedD: "ls_locked s \<Longrightarrow> ls_prepared s t = Some ws \<Longrightarrow> k \<in> fst ` set ws \<Longrightarrow> ls_locks s k = Some t"
  unfolding ls_locked_def by blast

lemma ls_locked_release:
  assumes "ls_locked s" "ls_prepared s t = Some ws" "ls_prepared s' = (ls_prepared s)(t := None)"
    and "ls_locks s' = locks_remove ws (ls_locks s)"
  shows "ls_locked s'"
  unfolding ls_locked_def
proof (intro allI impI ballI)
  fix t' ws' k assume p: "ls_prepared s' t' = Some ws'" and k: "k \<in> fst ` set ws'"
  then have "t' \<noteq> t" "ls_prepared s t' = Some ws'" using assms(3) by (auto split: if_splits)
  then have l: "ls_locks s k = Some t'" using ls_lockedD [OF assms(1) _ k] by simp
  then have "k \<notin> fst ` set ws" using ls_lockedD [OF assms(1,2), of k] \<open>t' \<noteq> t\<close> by auto
  then show "ls_locks s' k = Some t'" using l by (simp add: assms(4) locks_remove_at)
qed

lemma ls_locked_acquire:
  assumes "ls_locked s" "\<not> lock_conflict (ls_locks s) t ws" "ls_prepared s' = (ls_prepared s)(t \<mapsto> ws)"
    and "ls_locks s' = locks_insert t ws (ls_locks s)"
  shows "ls_locked s'"
  unfolding ls_locked_def
proof (intro allI impI ballI)
  fix t' ws' k assume p: "ls_prepared s' t' = Some ws'" and k: "k \<in> fst ` set ws'"
  show "ls_locks s' k = Some t'"
  proof (cases "t' = t")
    case True
    then show ?thesis using p k assms(3) by (auto simp: assms(4) locks_insert_at)
  next
    case False
    then have l: "ls_locks s k = Some t'" using ls_lockedD [OF assms(1) _ k] p assms(3) by simp
    then have "k \<notin> fst ` set ws" using assms(2) False by (force simp: lock_conflict_def list_ex_iff)
    then show ?thesis using l by (simp add: assms(4) locks_insert_at)
  qed
qed

lemma ls_step_locked: "ls_inv s \<Longrightarrow> ls_locked s \<Longrightarrow> ls_locked (ls_step s x)"
proof (cases x)
  case (LsPrepare t read_ts ws rd)
  assume "ls_locked s"
  then show ?thesis
    by (rule_tac ls_prepare_cases [of t read_ts ws rd s])
      (auto simp: LsPrepare intro!: ls_locked_acquire [of s t ws])
next
  case (LsCommit t ts)
  assume "ls_locked s"
  then show ?thesis
    by (cases "ls_prepared s t") (auto simp: LsCommit ls_commit_def intro!: ls_locked_release [of s t])
next
  case (LsAbort t)
  assume l: "ls_locked s"
  then have "ls_locked (s\<lparr>ls_raft_log := g\<rparr>)" for g by (simp add: ls_locked_def)
  then show ?thesis using l
    by (cases "ls_prepared s t") (auto simp: LsAbort ls_abort_def intro!: ls_locked_release [of s t])
next
  case (LsInject f c)
  assume "ls_locked s"
  then show ?thesis by (simp add: LsInject inject_prepare_failure_def inject_crash_after_prepare_def ls_locked_def)
next
  case LsRecover
  assume "ls_inv s" "ls_locked s"
  then show ?thesis by (simp add: LsRecover ls_locked_def recover_fields)
qed

lemma ls_run_locked: "ls_inv s \<Longrightarrow> ls_locked s \<Longrightarrow> ls_locked (foldl ls_step s xs)"
  by (induction xs arbitrary: s) (simp_all add: ls_step_inv ls_step_locked)

text \<open>While a transaction is prepared, the operations of the others leave its write-set and the reads of its keys alone.\<close>

lemma ls_step_other:
  assumes inv: "ls_inv s" "ls_locked s" and p: "ls_prepared s t = Some ws" and o: "ls_op_txn x \<noteq> Some t"
  shows "ls_prepared (ls_step s x) t = Some ws \<and> (\<forall>k \<in> fst ` set ws. \<forall>ts. ls_get_at (ls_step s x) k ts = ls_get_at s k ts)"
proof (cases x)
  case (LsPrepare t' read_ts ws' rd)
  show ?thesis
    by (rule ls_prepare_cases [of t' read_ts ws' rd s]) (use p o in \<open>auto simp: LsPrepare ls_get_at_versions\<close>)
next
  case (LsCommit t' ts)
  have "written ts ws' k = []" if "ls_prepared s t' = Some ws'" "k \<in> fst ` set ws" for ws' k
    using ls_lockedD [OF inv(2) that(1), of k] ls_lockedD [OF inv(2) p that(2)] o
    by (force simp: written_def LsCommit filter_empty_conv)
  then show ?thesis using p o by (auto simp: LsCommit ls_commit_def ls_get_at_versions split: option.splits)
next
  case (LsAbort t')
  then show ?thesis using p o by (auto simp: ls_abort_def ls_get_at_versions Let_def split: option.splits)
next
  case (LsInject f c)
  then show ?thesis using p by (simp add: inject_prepare_failure_def inject_crash_after_prepare_def ls_get_at_versions)
next
  case LsRecover
  have "ls_replayed (recover_from_raft_log s) = ls_replayed s" by (simp add: ls_replayed_def recover_from_raft_log_def)
  then show ?thesis using p inv(1) by (simp add: LsRecover recover_fields ls_get_at_replayed ls_recover_inv)
qed

lemma ls_run_other:
  assumes "ls_inv s" "ls_locked s" "ls_prepared s t = Some ws" "\<forall>x \<in> set xs. ls_op_txn x \<noteq> Some t" "k \<in> fst ` set ws"
  shows "ls_prepared (foldl ls_step s xs) t = Some ws \<and> ls_get_at (foldl ls_step s xs) k ts = ls_get_at s k ts"
  using assms(1-4)
proof (induction xs arbitrary: s)
  case (Cons x xs)
  have o: "ls_prepared (ls_step s x) t = Some ws" "ls_get_at (ls_step s x) k ts = ls_get_at s k ts"
    using ls_step_other [of s t ws x] Cons.prems assms(5) by auto
  show ?case using Cons.IH [of "ls_step s x"] Cons.prems o by (simp add: ls_step_inv ls_step_locked)
qed simp

section \<open>Properties of the local shard\<close>

text \<open>
  C4. Recovery from the Raft log is exact. After any run of prepares, commits, aborts, injected
  faults and earlier recoveries, replaying the log of a shard on top of its store gives back the
  prepared write-sets, the locks and the validation index, and changes the answer of no read,
  although every committed write is pushed once more.
\<close>

theorem local_shard_recovery_exact:
  "let s = foldl ls_step (ls_new i) xs; r = recover_from_raft_log s
   in ls_prepared r = ls_prepared s \<and> ls_locks r = ls_locks s \<and> ls_last_commit r = ls_last_commit s \<and> ls_get_at r = ls_get_at s"
proof -
  define s where "s = foldl ls_step (ls_new i) xs"
  have inv: "ls_inv s" by (simp add: s_def ls_run_inv ls_inv_new)
  have "ls_replayed (recover_from_raft_log s) = ls_replayed s" by (simp add: ls_replayed_def recover_from_raft_log_def)
  then have "ls_get_at (recover_from_raft_log s) k ts = ls_get_at s k ts" for k ts
    using inv by (simp add: ls_get_at_replayed ls_recover_inv)
  then show ?thesis using inv by (simp add: recover_fields fun_eq_iff flip: s_def)
qed



end
