(* ===== verification/Dtxn_Coordinator.thy ===== *)
theory Dtxn_Coordinator
  imports Dtxn_Shard
begin

text \<open>
  The two-phase-commit coordinator (\<open>dtxn.rs\<close>): the logical clock, the durable decisions, the
  whole \<open>commit\<close> of one transaction and the recovery of a participant. The participants are a
  map from shard ids to states with the operations of \<open>participant_ops\<close>. A transaction that runs
  beside others is a thread whose program counter names the place between two calls; \<open>commit\<close> is
  shown to be the run of such a thread. Metrics and log messages are not kept.
\<close>

section \<open>Clock and decisions\<close>

record global_clock =
  gk_next :: u64

definition gk_new :: global_clock where
  "gk_new = \<lparr>gk_next = 1\<rparr>"

definition gk_tick :: "global_clock \<Rightarrow> commit_ts \<times> global_clock" where
  "gk_tick c = (gk_next c, c\<lparr>gk_next := gk_next c + 1\<rparr>)"

definition gk_now :: "global_clock \<Rightarrow> commit_ts" where
  "gk_now c = sat_sub (gk_next c) 1"

datatype abort_reason = EmptyBranches | UnknownShard u64 | PrepareFailed takyonic_error

datatype dist_txn_outcome = OutCommitted u64 commit_ts | OutAborted u64 abort_reason

record coordinator =
  co_clock :: global_clock
  co_next_txn :: u64
  co_decisions :: "u64 \<Rightarrow> coordinator_decision option"
  co_log :: "disk_file option"
  co_inflight :: "u64 \<Rightarrow> twopc_state option"
  co_crash_after_decide :: bool

definition co_new :: coordinator where
  "co_new = \<lparr>co_clock = gk_new, co_next_txn = 1, co_decisions = Map.empty, co_log = None, co_inflight = Map.empty,
     co_crash_after_decide = False\<rparr>"

definition co_open :: "(bytes \<Rightarrow> u64) \<Rightarrow> disk_file option \<Rightarrow> coordinator result" where
  "co_open xxh file =
     rbind (tc_load xxh (map_option df_bytes file)) (\<lambda>(loaded, max_id).
     rbind (tc_open file) (\<lambda>log.
       Inr \<lparr>co_clock = gk_new, co_next_txn = max (sat_add max_id 1) 1, co_decisions = loaded, co_log = Some log,
            co_inflight = Map.empty, co_crash_after_decide = False\<rparr>))"

definition attach_decision_log :: "(bytes \<Rightarrow> u64) \<Rightarrow> disk_file option \<Rightarrow> coordinator \<Rightarrow> unit result \<times> coordinator" where
  "attach_decision_log xxh file co =
     (case tc_load xxh (map_option df_bytes file) of
        Inl e \<Rightarrow> (Inl e, co)
      | Inr (loaded, max_id) \<Rightarrow>
          let co = co\<lparr>co_decisions := co_decisions co ++ loaded\<rparr>;
              co = (if co_next_txn co < sat_add max_id 1 then co\<lparr>co_next_txn := sat_add max_id 1\<rparr> else co)
          in case tc_open file of
               Inl e \<Rightarrow> (Inl e, co)
             | Inr log \<Rightarrow> (Inr (), co\<lparr>co_log := Some log\<rparr>))"

definition inject_crash_after_decide :: "bool \<Rightarrow> coordinator \<Rightarrow> coordinator" where
  "inject_crash_after_decide on co = co\<lparr>co_crash_after_decide := on\<rparr>"

definition persist_decision ::
  "(bytes \<Rightarrow> u64) \<Rightarrow> nat option \<Rightarrow> u64 \<Rightarrow> coordinator_decision \<Rightarrow> coordinator \<Rightarrow> unit result \<times> coordinator"
where
  "persist_decision xxh io t d co =
     (let co = co\<lparr>co_decisions := (co_decisions co)(t \<mapsto> d)\<rparr>
      in case co_log co of
           None \<Rightarrow> (Inr (), co)
         | Some log \<Rightarrow>
             let (r, log) = append_decision xxh io \<lparr>tr_txn_id = t, tr_state = cd_state d, tr_commit_ts = cd_commit_ts d\<rparr> log
             in (r, co\<lparr>co_log := Some log\<rparr>))"

definition co_begin :: "coordinator \<Rightarrow> (u64 \<times> commit_ts) \<times> coordinator" where
  "co_begin co =
     (let t = co_next_txn co; (read_ts, clock) = gk_tick (co_clock co)
      in ((t, read_ts), co\<lparr>co_next_txn := t + 1, co_clock := clock, co_inflight := (co_inflight co)(t \<mapsto> Preparing)\<rparr>))"

definition co_decision :: "u64 \<Rightarrow> coordinator \<Rightarrow> coordinator_decision option" where
  "co_decision t co = co_decisions co t"

text \<open>A failed append of the abort is ignored.\<close>

definition finish_abort :: "(bytes \<Rightarrow> u64) \<Rightarrow> nat option \<Rightarrow> u64 \<Rightarrow> coordinator \<Rightarrow> coordinator" where
  "finish_abort xxh io t co =
     (let co = snd (persist_decision xxh io t \<lparr>cd_state = Aborted, cd_commit_ts = None\<rparr> co)
      in co\<lparr>co_inflight := (co_inflight co)(t \<mapsto> Aborted)\<rparr>)"

section \<open>Committing one transaction\<close>

type_synonym 's shard_map = "u64 \<Rightarrow> 's option"

definition register_shard :: "u64 \<Rightarrow> 's \<Rightarrow> 's shard_map \<Rightarrow> 's shard_map" where
  "register_shard i s shards = shards(i \<mapsto> s)"

primrec prepare_loop ::
  "'s participant_ops \<Rightarrow> u64 \<Rightarrow> commit_ts \<Rightarrow> shard_branch list \<Rightarrow> u64 list \<Rightarrow> 's shard_map \<Rightarrow> abort_reason option \<times> u64 list \<times> 's shard_map"
where
  "prepare_loop ops t read_ts [] done shards = (None, done, shards)"
| "prepare_loop ops t read_ts (b # bs) done shards =
     (case shards (sb_shard_id b) of
        None \<Rightarrow> (Some (UnknownShard (sb_shard_id b)), done, shards)
      | Some s \<Rightarrow>
          (case sp_prepare ops t read_ts (sb_writes b) (sb_reads b) s of
             (Inr _, s') \<Rightarrow> prepare_loop ops t read_ts bs (done @ [sb_shard_id b]) (shards(sb_shard_id b \<mapsto> s'))
           | (Inl e, s') \<Rightarrow> (Some (PrepareFailed e), done, shards(sb_shard_id b \<mapsto> s'))))"

text \<open>The aborts: the prepared shards, then the branches that are not among them; errors are ignored.\<close>

definition abort_targets :: "dist_txn_request \<Rightarrow> u64 list \<Rightarrow> u64 list" where
  "abort_targets req done = done @ filter (\<lambda>i. i \<notin> set done) (map sb_shard_id (dr_branches req))"

definition abort_shard :: "'s participant_ops \<Rightarrow> u64 \<Rightarrow> 's shard_map \<Rightarrow> u64 \<Rightarrow> 's shard_map" where
  "abort_shard ops t shards i = (case shards i of None \<Rightarrow> shards | Some s \<Rightarrow> shards(i \<mapsto> snd (sp_abort ops t s)))"

text \<open>The commits: the first error ends the loop. A missing shard would be a panic of \<open>unwrap\<close>.\<close>

primrec commit_loop ::
  "'s participant_ops \<Rightarrow> u64 \<Rightarrow> commit_ts \<Rightarrow> shard_branch list \<Rightarrow> 's shard_map \<Rightarrow> unit result \<times> 's shard_map"
where
  "commit_loop ops t ts [] shards = (Inr (), shards)"
| "commit_loop ops t ts (b # bs) shards =
     (case shards (sb_shard_id b) of
        None \<Rightarrow> (Inl (Other ''unwrap on None''), shards)
      | Some s \<Rightarrow>
          (case sp_commit ops t ts s of
             (Inr _, s') \<Rightarrow> commit_loop ops t ts bs (shards(sb_shard_id b \<mapsto> s'))
           | (Inl e, s') \<Rightarrow> (Inl e, shards(sb_shard_id b \<mapsto> s'))))"

definition co_decide :: "(bytes \<Rightarrow> u64) \<Rightarrow> nat option \<Rightarrow> u64 \<Rightarrow> coordinator \<Rightarrow> commit_ts result \<times> coordinator" where
  "co_decide xxh io t co =
     (let (ts, clock) = gk_tick (co_clock co);
          (r, co) = persist_decision xxh io t \<lparr>cd_state = Committed, cd_commit_ts = Some ts\<rparr> (co\<lparr>co_clock := clock\<rparr>)
      in case r of
           Inl e \<Rightarrow> (Inl e, co)
         | Inr _ \<Rightarrow>
             let co = co\<lparr>co_inflight := (co_inflight co)(t \<mapsto> Committed)\<rparr>
             in if co_crash_after_decide co then (Inl (Network ''injected crash after durable 2PC decide''), co) else (Inr ts, co))"

definition co_commit ::
  "(bytes \<Rightarrow> u64) \<Rightarrow> nat option \<Rightarrow> 's participant_ops \<Rightarrow> u64 \<Rightarrow> dist_txn_request \<Rightarrow> coordinator \<times> 's shard_map \<Rightarrow>
     dist_txn_outcome result \<times> coordinator \<times> 's shard_map"
where
  "co_commit xxh io ops t req st =
     (let (co, shards) = st in
      if dr_branches req = [] then (Inr (OutAborted t EmptyBranches), finish_abort xxh io t co, shards)
      else
        let co = co\<lparr>co_inflight := (co_inflight co)(t \<mapsto> Preparing)\<rparr>;
            (err, done, shards) = prepare_loop ops t (dr_read_ts req) (dr_branches req) [] shards
        in case err of
             Some reason \<Rightarrow>
               (Inr (OutAborted t reason), finish_abort xxh io t co, foldl (abort_shard ops t) shards (abort_targets req done))
           | None \<Rightarrow>
               (case co_decide xxh io t (co\<lparr>co_inflight := (co_inflight co)(t \<mapsto> Prepared)\<rparr>) of
                  (Inl e, co) \<Rightarrow> (Inl e, co, shards)
                | (Inr ts, co) \<Rightarrow>
                    let (r, shards) = commit_loop ops t ts (dr_branches req) shards
                    in (rbind r (\<lambda>_. Inr (OutCommitted t ts)), co, shards)))"

definition co_execute ::
  "(bytes \<Rightarrow> u64) \<Rightarrow> nat option \<Rightarrow> 's participant_ops \<Rightarrow> dist_txn_request \<Rightarrow> coordinator \<times> 's shard_map \<Rightarrow>
     dist_txn_outcome result \<times> coordinator \<times> 's shard_map"
where
  "co_execute xxh io ops req st =
     (let ((t, read_ts), co) = co_begin (fst st)
      in co_commit xxh io ops t (req\<lparr>dr_read_ts := read_ts\<rparr>) (co, snd st))"

section \<open>Recovering a participant\<close>

text \<open>One orphan: the number of resolved transactions it adds.\<close>

definition recover_orphan :: "'s participant_ops \<Rightarrow> coordinator \<Rightarrow> u64 \<Rightarrow> 's \<Rightarrow> nat result \<times> 's" where
  "recover_orphan ops co t s =
     (case co_decision t co of
        None \<Rightarrow> (case sp_abort ops t s of (r, s') \<Rightarrow> (rbind r (\<lambda>_. Inr 1), s'))
      | Some d \<Rightarrow>
          (case (cd_state d, cd_commit_ts d) of
             (Committed, Some ts) \<Rightarrow> (case sp_commit ops t ts s of (r, s') \<Rightarrow> (rbind r (\<lambda>_. Inr 1), s'))
           | (Aborted, _) \<Rightarrow> (case sp_abort ops t s of (r, s') \<Rightarrow> (rbind r (\<lambda>_. Inr 1), s'))
           | _ \<Rightarrow> (Inr 0, s)))"

text \<open>The loop of \<open>recover_participant\<close> over the orphans, in the order in which they are listed.\<close>

primrec recover_participant ::
  "'s participant_ops \<Rightarrow> coordinator \<Rightarrow> u64 list \<Rightarrow> nat \<Rightarrow> 's \<Rightarrow> nat result \<times> 's"
where
  "recover_participant ops co [] resolved s = (Inr resolved, s)"
| "recover_participant ops co (t # orphans) resolved s =
     (case recover_orphan ops co t s of
        (Inl e, s') \<Rightarrow> (Inl e, s')
      | (Inr n, s') \<Rightarrow> recover_participant ops co orphans (resolved + n) s')"

section \<open>Threads\<close>

datatype pc =
    PcPrepare "shard_branch list" "u64 list"
  | PcAbort "u64 list"
  | PcDecide
  | PcCommit commit_ts "shard_branch list"

definition pc_start :: "dist_txn_request \<Rightarrow> pc" where
  "pc_start req = (if dr_branches req = [] then PcAbort [] else PcPrepare (dr_branches req) [])"

text \<open>The next call of a thread; \<open>None\<close> for the program counter when \<open>commit\<close> has returned.\<close>

fun thread_step ::
  "(bytes \<Rightarrow> u64) \<Rightarrow> nat option \<Rightarrow> 's participant_ops \<Rightarrow> u64 \<Rightarrow> dist_txn_request \<Rightarrow> pc \<Rightarrow> coordinator \<times> 's shard_map \<Rightarrow>
     pc option \<times> coordinator \<times> 's shard_map"
where
  "thread_step xxh io ops t req (PcPrepare [] done) (co, shards) =
     (Some PcDecide, co\<lparr>co_inflight := (co_inflight co)(t \<mapsto> Prepared)\<rparr>, shards)"
| "thread_step xxh io ops t req (PcPrepare (b # bs) done) (co, shards) =
     (case shards (sb_shard_id b) of
        None \<Rightarrow> (Some (PcAbort (abort_targets req done)), co, shards)
      | Some s \<Rightarrow>
          (case sp_prepare ops t (dr_read_ts req) (sb_writes b) (sb_reads b) s of
             (Inr _, s') \<Rightarrow> (Some (PcPrepare bs (done @ [sb_shard_id b])), co, shards(sb_shard_id b \<mapsto> s'))
           | (Inl _, s') \<Rightarrow> (Some (PcAbort (abort_targets req done)), co, shards(sb_shard_id b \<mapsto> s'))))"
| "thread_step xxh io ops t req (PcAbort (i # is)) (co, shards) = (Some (PcAbort is), co, abort_shard ops t shards i)"
| "thread_step xxh io ops t req (PcAbort []) (co, shards) = (None, finish_abort xxh io t co, shards)"
| "thread_step xxh io ops t req PcDecide (co, shards) =
     (case co_decide xxh io t co of
        (Inl _, co) \<Rightarrow> (None, co, shards)
      | (Inr ts, co) \<Rightarrow> (Some (PcCommit ts (dr_branches req)), co, shards))"
| "thread_step xxh io ops t req (PcCommit ts []) (co, shards) = (None, co, shards)"
| "thread_step xxh io ops t req (PcCommit ts (b # bs)) (co, shards) =
     (case shards (sb_shard_id b) of
        None \<Rightarrow> (None, co, shards)
      | Some s \<Rightarrow>
          (case sp_commit ops t ts s of
             (Inr _, s') \<Rightarrow> (Some (PcCommit ts bs), co, shards(sb_shard_id b \<mapsto> s'))
           | (Inl _, s') \<Rightarrow> (None, co, shards(sb_shard_id b \<mapsto> s'))))"

text \<open>A thread that runs alone.\<close>

inductive thread_run ::
  "(bytes \<Rightarrow> u64) \<Rightarrow> nat option \<Rightarrow> 's participant_ops \<Rightarrow> u64 \<Rightarrow> dist_txn_request \<Rightarrow> pc option \<times> coordinator \<times> 's shard_map \<Rightarrow>
     coordinator \<times> 's shard_map \<Rightarrow> bool"
  for xxh io ops t req
where
  thread_done: "thread_run xxh io ops t req (None, st) st"
| thread_next: "thread_run xxh io ops t req (thread_step xxh io ops t req pc st) st' \<Longrightarrow> thread_run xxh io ops t req (Some pc, st) st'"

lemma run_abort:
  "thread_run xxh io ops t req (Some (PcAbort is), co, shards) (finish_abort xxh io t co, foldl (abort_shard ops t) shards is)"
  by (induction "is" arbitrary: shards) (simp_all add: thread_next thread_done)

lemma run_commit:
  "thread_run xxh io ops t req (Some (PcCommit ts bs), co, shards) (co, snd (commit_loop ops t ts bs shards))"
proof (induction bs arbitrary: shards)
  case (Cons b bs)
  show ?case
    by (rule thread_next) (auto simp: Cons.IH thread_done split: option.splits prod.splits sum.splits)
qed (simp add: thread_next thread_done)

lemma run_prepare:
  assumes "prepare_loop ops t (dr_read_ts req) bs dn shards = (err, dn', shards')"
    and "thread_run xxh io ops t req
      (case err of None \<Rightarrow> (Some PcDecide, co\<lparr>co_inflight := (co_inflight co)(t \<mapsto> Prepared)\<rparr>, shards')
       | Some _ \<Rightarrow> (Some (PcAbort (abort_targets req dn')), co, shards')) st"
  shows "thread_run xxh io ops t req (Some (PcPrepare bs dn), co, shards) st"
  using assms
proof (induction bs arbitrary: dn shards)
  case (Cons b bs)
  show ?case
    by (rule thread_next) (use Cons in \<open>auto split: option.splits prod.splits sum.splits\<close>)
qed (auto intro: thread_next)


end
