(* ===== verification/Dtxn_Safety.thy ===== *)
theory Dtxn_Safety
  imports Dtxn_Coordinator
begin

text \<open>
  Two-phase commit as a concurrent system: any number of transactions run as threads beside the
  recovery of participants, restarts of shards and crashes of the coordinator, which reopens from
  its decision log. The first part states what the protocol promises on an abstract view (the
  decisions, the prepared write-sets and the commands in the shards' logs); the second shows that
  the code's steps keep it, for every participant that meets the contract.
\<close>

section \<open>The system\<close>

record 's dsys =
  ds_co :: coordinator
  ds_shards :: "u64 \<Rightarrow> 's option"
  ds_threads :: "u64 \<Rightarrow> (dist_txn_request \<times> pc) option"
  ds_reqs :: "u64 \<Rightarrow> dist_txn_request option"

text \<open>
  \<open>ds_reqs\<close> remembers the request of every transaction begun. The flag \<open>careful\<close> restricts the
  runs to those in which a transaction id is fresh, a request names a shard once, the decision log
  can be written, and recovery presumes the abort of no transaction that is still running.
\<close>

inductive dstep ::
  "(bytes \<Rightarrow> u64) \<Rightarrow> 's participant_ops \<Rightarrow> ('s \<Rightarrow> 's \<Rightarrow> bool) \<Rightarrow> bool \<Rightarrow> 's dsys \<Rightarrow> 's dsys \<Rightarrow> bool"
  for xxh ops env careful
where
  d_begin: "co_begin (ds_co d) = ((t, read_ts), co) \<Longrightarrow>
     careful \<longrightarrow> ds_reqs d t = None \<and> distinct (map sb_shard_id (dr_branches req)) \<Longrightarrow>
     dstep xxh ops env careful d (d\<lparr>ds_co := co, ds_threads := (ds_threads d)(t \<mapsto> (req, pc_start req)), ds_reqs := (ds_reqs d)(t \<mapsto> req)\<rparr>)"
| d_thread: "ds_threads d t = Some (req, pc) \<Longrightarrow> careful \<longrightarrow> io = None \<Longrightarrow>
     thread_step xxh io ops t req pc (ds_co d, ds_shards d) = (pc', co, shards) \<Longrightarrow>
     dstep xxh ops env careful d (d\<lparr>ds_co := co, ds_shards := shards, ds_threads := (ds_threads d)(t := map_option (\<lambda>p. (req, p)) pc')\<rparr>)"
| d_recover: "ds_shards d i = Some s \<Longrightarrow> t \<in> sp_orphaned ops s \<Longrightarrow> recover_orphan ops (ds_co d) t s = (r, s') \<Longrightarrow>
     careful \<longrightarrow> ds_threads d t = None \<or> co_decision t (ds_co d) \<noteq> None \<Longrightarrow>
     dstep xxh ops env careful d (d\<lparr>ds_shards := (ds_shards d)(i \<mapsto> s')\<rparr>)"
| d_env: "ds_shards d i = Some s \<Longrightarrow> env s s' \<Longrightarrow> dstep xxh ops env careful d (d\<lparr>ds_shards := (ds_shards d)(i \<mapsto> s')\<rparr>)"
| d_inject: "dstep xxh ops env careful d (d\<lparr>ds_co := inject_crash_after_decide b (ds_co d)\<rparr>)"
| d_crash: "co_log (ds_co d) = Some f \<Longrightarrow> crash_to f n bs \<Longrightarrow> co_open xxh (Some \<lparr>df_bytes = bs, df_synced = length bs\<rparr>) = Inr co \<Longrightarrow>
     dstep xxh ops env careful d (d\<lparr>ds_co := co, ds_threads := Map.empty\<rparr>)"

definition dsys_init :: "(bytes \<Rightarrow> u64) \<Rightarrow> (u64 \<Rightarrow> 's option) \<Rightarrow> 's dsys \<Rightarrow> bool" where
  "dsys_init xxh shards d \<longleftrightarrow>
     co_open xxh None = Inr (ds_co d) \<and> ds_shards d = shards \<and> ds_threads d = Map.empty \<and> ds_reqs d = Map.empty"

section \<open>What the protocol keeps\<close>

text \<open>
  The abstract view: \<open>D\<close> the decisions, \<open>P i t\<close> the write-set shard \<open>i\<close> holds prepared for \<open>t\<close>,
  \<open>H i\<close> the commands in the log of shard \<open>i\<close>, \<open>T\<close> the threads and \<open>R\<close> the requests.
\<close>

type_synonym decisions = "u64 \<Rightarrow> coordinator_decision option"
type_synonym prep_view = "u64 \<Rightarrow> u64 \<Rightarrow> write_op list option"
type_synonym log_view = "u64 \<Rightarrow> raft_command set"
type_synonym thread_view = "u64 \<Rightarrow> (dist_txn_request \<times> pc) option"
type_synonym req_view = "u64 \<Rightarrow> dist_txn_request option"

definition commit_decision :: "commit_ts \<Rightarrow> coordinator_decision" where
  "commit_decision ts = \<lparr>cd_state = Committed, cd_commit_ts = Some ts\<rparr>"

definition abort_decision :: coordinator_decision where
  "abort_decision = \<lparr>cd_state = Aborted, cd_commit_ts = None\<rparr>"

lemma decision_eqs [simp]:
  "commit_decision ts \<noteq> abort_decision" "abort_decision \<noteq> commit_decision ts" "commit_decision a = commit_decision b \<longleftrightarrow> a = b"
  by (auto simp: commit_decision_def abort_decision_def)

definition branch_of :: "req_view \<Rightarrow> u64 \<Rightarrow> u64 \<Rightarrow> write_op list \<Rightarrow> bool" where
  "branch_of R t i ws \<longleftrightarrow> (\<exists>req b. R t = Some req \<and> b \<in> set (dr_branches req) \<and> sb_shard_id b = i \<and> sb_writes b = ws)"

definition known :: "decisions \<Rightarrow> thread_view \<Rightarrow> req_view \<Rightarrow> bool" where
  "known D T R \<longleftrightarrow> dom D \<subseteq> dom R \<and> (\<forall>t d. D t = Some d \<longrightarrow> d = abort_decision \<or> (\<exists>ts. d = commit_decision ts)) \<and>
     (\<forall>t req pc. T t = Some (req, pc) \<longrightarrow> R t = Some req) \<and>
     (\<forall>t req. R t = Some req \<longrightarrow> distinct (map sb_shard_id (dr_branches req)))"

definition prepared_of_request :: "prep_view \<Rightarrow> req_view \<Rightarrow> bool" where
  "prepared_of_request P R \<longleftrightarrow> (\<forall>i t ws. P i t = Some ws \<longrightarrow> branch_of R t i ws)"

definition commits_decided :: "decisions \<Rightarrow> log_view \<Rightarrow> req_view \<Rightarrow> bool" where
  "commits_decided D H R \<longleftrightarrow> (\<forall>i t ts ws. CmdTxnCommit t ts ws \<in> H i \<longrightarrow> D t = Some (commit_decision ts) \<and> branch_of R t i ws)"

definition aborts_undecided :: "decisions \<Rightarrow> log_view \<Rightarrow> thread_view \<Rightarrow> req_view \<Rightarrow> bool" where
  "aborts_undecided D H T R \<longleftrightarrow>
     (\<forall>i t. CmdTxnAbort t \<in> H i \<longrightarrow> t \<in> dom R \<and> (\<forall>ts. D t \<noteq> Some (commit_decision ts)) \<and> (\<forall>req pc. T t = Some (req, pc) \<longrightarrow> (\<exists>is. pc = PcAbort is)))"

definition decided_covered :: "decisions \<Rightarrow> prep_view \<Rightarrow> log_view \<Rightarrow> req_view \<Rightarrow> bool" where
  "decided_covered D P H R \<longleftrightarrow>
     (\<forall>t ts i ws. D t = Some (commit_decision ts) \<longrightarrow> branch_of R t i ws \<longrightarrow> P i t = Some ws \<or> CmdTxnCommit t ts ws \<in> H i)"

fun thread_ok :: "decisions \<Rightarrow> prep_view \<Rightarrow> u64 \<Rightarrow> dist_txn_request \<Rightarrow> pc \<Rightarrow> bool" where
  "thread_ok D P t req (PcPrepare todo done) \<longleftrightarrow> D t = None \<and>
     (\<exists>pre. dr_branches req = pre @ todo \<and> (\<forall>b \<in> set pre. P (sb_shard_id b) t = Some (sb_writes b)))"
| "thread_ok D P t req (PcAbort is) \<longleftrightarrow> D t = None"
| "thread_ok D P t req PcDecide \<longleftrightarrow> D t = None \<and> (\<forall>b \<in> set (dr_branches req). P (sb_shard_id b) t = Some (sb_writes b))"
| "thread_ok D P t req (PcCommit ts todo) \<longleftrightarrow> D t = Some (commit_decision ts)"

definition twopc_inv :: "decisions \<Rightarrow> prep_view \<Rightarrow> log_view \<Rightarrow> thread_view \<Rightarrow> req_view \<Rightarrow> bool" where
  "twopc_inv D P H T R \<longleftrightarrow>
     known D T R \<and> prepared_of_request P R \<and> commits_decided D H R \<and> aborts_undecided D H T R \<and> decided_covered D P H R \<and>
     (\<forall>t req pc. T t = Some (req, pc) \<longrightarrow> thread_ok D P t req pc)"

lemmas twopc_defs = twopc_inv_def known_def prepared_of_request_def commits_decided_def aborts_undecided_def decided_covered_def

lemma inv_threadD: "twopc_inv D P H T R \<Longrightarrow> T t = Some (req, pc) \<Longrightarrow> thread_ok D P t req pc"
  by (simp add: twopc_inv_def)

lemma inv_reqD: "twopc_inv D P H T R \<Longrightarrow> T t = Some (req, pc) \<Longrightarrow> R t = Some req \<and> distinct (map sb_shard_id (dr_branches req))"
  unfolding twopc_inv_def known_def by metis

lemma inv_coveredD:
  "twopc_inv D P H T R \<Longrightarrow> D t = Some (commit_decision ts) \<Longrightarrow> branch_of R t i ws \<Longrightarrow> P i t = Some ws \<or> CmdTxnCommit t ts ws \<in> H i"
  by (simp add: twopc_inv_def decided_covered_def)

lemma thread_ok_decision_other: "t' \<noteq> t \<Longrightarrow> thread_ok (D(t' := d)) P t req pc = thread_ok D P t req pc"
  by (cases pc) auto

lemma thread_ok_prep_other: "t' \<noteq> t \<Longrightarrow> thread_ok D (P(i := (P i)(t' := p))) t req pc = thread_ok D P t req pc"
  by (cases pc) (auto simp: fun_upd_def)

lemma branch_of_fresh: "R t = None \<Longrightarrow> branch_of (R(t \<mapsto> req)) t' i ws \<longleftrightarrow> (if t' = t then \<exists>b \<in> set (dr_branches req). sb_shard_id b = i \<and> sb_writes b = ws else branch_of R t' i ws)"
  by (auto simp: branch_of_def)

subsection \<open>The abstract steps\<close>

lemma inv_begin:
  assumes inv: "twopc_inv D P H T R" and "R t = None" "distinct (map sb_shard_id (dr_branches req))"
  shows "twopc_inv D P H (T(t \<mapsto> (req, pc_start req))) (R(t \<mapsto> req))"
proof -
  have D: "D t = None" using inv assms(2) by (auto simp: twopc_inv_def known_def)
  have b: "branch_of R t' i ws \<Longrightarrow> branch_of (R(t \<mapsto> req)) t' i ws" for t' i ws using assms(2) by (auto simp: branch_of_def)
  have "known D (T(t \<mapsto> (req, pc_start req))) (R(t \<mapsto> req))" using inv assms(3) by (auto simp: twopc_inv_def known_def)
  moreover have "prepared_of_request P (R(t \<mapsto> req))" using inv b by (auto simp: twopc_inv_def prepared_of_request_def)
  moreover have "commits_decided D H (R(t \<mapsto> req))" using inv b by (auto simp: twopc_inv_def commits_decided_def)
  moreover have "aborts_undecided D H (T(t \<mapsto> (req, pc_start req))) (R(t \<mapsto> req))"
    using inv assms(2) by (fastforce simp: twopc_inv_def aborts_undecided_def)
  moreover have "decided_covered D P H (R(t \<mapsto> req))"
    using inv D assms(2) by (auto simp: twopc_inv_def decided_covered_def branch_of_fresh)
  moreover have "thread_ok D P t req (pc_start req)" using D by (simp add: pc_start_def)
  ultimately show ?thesis using inv by (auto simp: twopc_inv_def)
qed

lemma inv_thread:
  assumes inv: "twopc_inv D P H T R" and "T t = Some (req, pc)" "thread_ok D P t req pc'" "\<forall>is. pc = PcAbort is \<longrightarrow> (\<exists>is'. pc' = PcAbort is')"
  shows "twopc_inv D P H (T(t \<mapsto> (req, pc'))) R"
proof -
  have "known D (T(t \<mapsto> (req, pc'))) R" using inv assms(2) by (auto simp: twopc_inv_def known_def)
  moreover have "aborts_undecided D H (T(t \<mapsto> (req, pc'))) R"
    using inv assms(2,4) by (fastforce simp: twopc_inv_def aborts_undecided_def)
  ultimately show ?thesis using inv assms(3) by (auto simp: twopc_inv_def)
qed

lemma inv_thread_end: "twopc_inv D P H T R \<Longrightarrow> twopc_inv D P H (T(t := None)) R"
  by (auto simp: twopc_defs)

lemma inv_crash: "twopc_inv D P H T R \<Longrightarrow> twopc_inv D P H Map.empty R"
  by (auto simp: twopc_defs)

lemma inv_prepare:
  assumes inv: "twopc_inv D P H T R" and t: "T t = Some (req, PcPrepare (b # bs) dn)" and i: "i = sb_shard_id b"
  shows "twopc_inv D (P(i := (P i)(t \<mapsto> sb_writes b))) (H(i := insert (CmdTxnPrepare t read_ts (sb_writes b)) (H i))) (T(t \<mapsto> (req, PcPrepare bs (dn @ [i])))) R"
proof -
  have ok: "thread_ok D P t req (PcPrepare (b # bs) dn)" using inv_threadD [OF inv t] .
  then obtain pre where pre: "dr_branches req = pre @ b # bs" "\<forall>b \<in> set pre. P (sb_shard_id b) t = Some (sb_writes b)" and D: "D t = None" by auto
  have R: "R t = Some req" "distinct (map sb_shard_id (dr_branches req))" using inv_reqD [OF inv t] by auto
  have "known D (T(t \<mapsto> (req, PcPrepare bs (dn @ [i])))) R" using inv t by (auto simp: twopc_inv_def known_def)
  moreover have "prepared_of_request (P(i := (P i)(t \<mapsto> sb_writes b))) R"
    using inv R pre i by (auto simp: twopc_inv_def prepared_of_request_def branch_of_def)
  moreover have "commits_decided D (H(i := insert (CmdTxnPrepare t read_ts (sb_writes b)) (H i))) R"
    using inv by (auto simp: twopc_inv_def commits_decided_def)
  moreover have "aborts_undecided D (H(i := insert (CmdTxnPrepare t read_ts (sb_writes b)) (H i))) (T(t \<mapsto> (req, PcPrepare bs (dn @ [i])))) R"
    using inv t by (fastforce simp: twopc_inv_def aborts_undecided_def)
  moreover have "decided_covered D (P(i := (P i)(t \<mapsto> sb_writes b))) (H(i := insert (CmdTxnPrepare t read_ts (sb_writes b)) (H i))) R"
    using inv D by (auto simp: twopc_inv_def decided_covered_def)
  moreover have "thread_ok D (P(i := (P i)(t \<mapsto> sb_writes b))) t req (PcPrepare bs (dn @ [i]))"
    using pre D R(2) i by (auto intro!: exI [of _ "pre @ [b]"]) (metis imageI)
  ultimately show ?thesis using inv by (auto simp: twopc_inv_def thread_ok_prep_other)
qed

lemma inv_commit:
  assumes inv: "twopc_inv D P H T R" and p: "P i t = Some ws" and d: "D t = Some (commit_decision ts)"
  shows "twopc_inv D (P(i := (P i)(t := None))) (H(i := insert (CmdTxnCommit t ts ws) (H i))) T R"
proof -
  have b: "branch_of R t i ws" using inv p by (auto simp: twopc_inv_def prepared_of_request_def)
  have "prepared_of_request (P(i := (P i)(t := None))) R" using inv by (auto simp: twopc_inv_def prepared_of_request_def)
  moreover have "commits_decided D (H(i := insert (CmdTxnCommit t ts ws) (H i))) R"
    using inv b d by (auto simp: twopc_inv_def commits_decided_def)
  moreover have "aborts_undecided D (H(i := insert (CmdTxnCommit t ts ws) (H i))) T R"
    using inv by (auto simp: twopc_inv_def aborts_undecided_def)
  moreover have "decided_covered D (P(i := (P i)(t := None))) (H(i := insert (CmdTxnCommit t ts ws) (H i))) R"
    using inv_coveredD [OF inv] d p by (fastforce simp: decided_covered_def)
  moreover have "thread_ok D (P(i := (P i)(t := None))) t' req pc" if "T t' = Some (req, pc)" for t' req pc
  proof -
    have "thread_ok D P t' req pc" using inv_threadD [OF inv that] .
    then show ?thesis using d by (cases "t' = t"; cases pc) (auto simp: fun_upd_def)
  qed
  ultimately show ?thesis using inv by (auto simp: twopc_inv_def)
qed

lemma inv_abort:
  assumes inv: "twopc_inv D P H T R" and d: "\<forall>ts. D t \<noteq> Some (commit_decision ts)" and "t \<in> dom R"
    and "\<forall>req pc. T t = Some (req, pc) \<longrightarrow> (\<exists>is. pc = PcAbort is)"
  shows "twopc_inv D (P(i := (P i)(t := None))) (H(i := insert (CmdTxnAbort t) (H i))) T R"
proof -
  have "prepared_of_request (P(i := (P i)(t := None))) R" using inv by (auto simp: twopc_inv_def prepared_of_request_def)
  moreover have "commits_decided D (H(i := insert (CmdTxnAbort t) (H i))) R"
    using inv by (auto simp: twopc_inv_def commits_decided_def)
  moreover have "aborts_undecided D (H(i := insert (CmdTxnAbort t) (H i))) T R"
    using inv assms(2-4) by (auto simp: twopc_inv_def aborts_undecided_def)
  moreover have "decided_covered D (P(i := (P i)(t := None))) (H(i := insert (CmdTxnAbort t) (H i))) R"
    using inv d by (auto simp: twopc_inv_def decided_covered_def)
  moreover have "thread_ok D (P(i := (P i)(t := None))) t' req pc" if T: "T t' = Some (req, pc)" for t' req pc
  proof (cases "t' = t")
    case True
    then obtain "is" where "pc = PcAbort is" using assms(4) T by auto
    moreover have "thread_ok D P t' req pc" using inv_threadD [OF inv T] .
    ultimately show ?thesis by simp
  next
    case False
    moreover have "thread_ok D P t' req pc" using inv_threadD [OF inv T] .
    ultimately show ?thesis by (simp add: thread_ok_prep_other)
  qed
  ultimately show ?thesis using inv by (auto simp: twopc_inv_def)
qed

lemma inv_decide:
  assumes inv: "twopc_inv D P H T R" and t: "T t = Some (req, PcDecide)"
  shows "twopc_inv (D(t \<mapsto> commit_decision ts)) P H (T(t \<mapsto> (req, PcCommit ts (dr_branches req)))) R"
proof -
  have ok: "D t = None" "\<forall>b \<in> set (dr_branches req). P (sb_shard_id b) t = Some (sb_writes b)"
    using inv_threadD [OF inv t] by auto
  have R: "R t = Some req" using inv t by (auto simp: twopc_inv_def known_def)
  let ?D = "D(t \<mapsto> commit_decision ts)" and ?T = "T(t \<mapsto> (req, PcCommit ts (dr_branches req)))"
  have "known ?D ?T R" using inv t R by (auto simp: twopc_inv_def known_def)
  moreover have "commits_decided ?D H R" using inv ok(1) by (fastforce simp: twopc_inv_def commits_decided_def)
  moreover have "aborts_undecided ?D H ?T R" using inv t by (fastforce simp: twopc_inv_def aborts_undecided_def)
  moreover have "decided_covered ?D P H R"
    using inv ok(2) R by (auto simp: twopc_inv_def decided_covered_def branch_of_def)
  ultimately show ?thesis using inv by (auto simp: twopc_inv_def thread_ok_decision_other)
qed

lemma inv_finish_abort:
  assumes inv: "twopc_inv D P H T R" and t: "T t = Some (req, PcAbort is)"
  shows "twopc_inv (D(t \<mapsto> abort_decision)) P H (T(t := None)) R"
proof -
  have D: "D t = None" and R: "t \<in> dom R" using inv_threadD [OF inv t] inv t by (auto simp: twopc_inv_def known_def)
  have "known (D(t \<mapsto> abort_decision)) (T(t := None)) R" using inv R by (auto simp: twopc_inv_def known_def)
  moreover have "commits_decided (D(t \<mapsto> abort_decision)) H R" using inv D by (fastforce simp: twopc_inv_def commits_decided_def)
  moreover have "aborts_undecided (D(t \<mapsto> abort_decision)) H (T(t := None)) R" using inv by (auto simp: twopc_inv_def aborts_undecided_def)
  moreover have "decided_covered (D(t \<mapsto> abort_decision)) P H R" using inv by (auto simp: twopc_inv_def decided_covered_def)
  ultimately show ?thesis using inv by (auto simp: twopc_inv_def thread_ok_decision_other)
qed

section \<open>The code's steps keep it\<close>

definition pview :: "('s \<Rightarrow> u64 \<Rightarrow> write_op list option) \<Rightarrow> (u64 \<Rightarrow> 's option) \<Rightarrow> prep_view" where
  "pview prepared shards i t = (case shards i of None \<Rightarrow> None | Some s \<Rightarrow> prepared s t)"

definition lview :: "('s \<Rightarrow> raft_command list) \<Rightarrow> (u64 \<Rightarrow> 's option) \<Rightarrow> log_view" where
  "lview hist shards i = (case shards i of None \<Rightarrow> {} | Some s \<Rightarrow> set (hist s))"

lemma pview_update:
  "shards i = Some s \<Longrightarrow> prepared s' = (prepared s)(t := x) \<Longrightarrow>
     pview prepared (shards(i \<mapsto> s')) = (pview prepared shards)(i := (pview prepared shards i)(t := x))"
  by (auto simp: pview_def fun_eq_iff)

lemma lview_update:
  "shards i = Some s \<Longrightarrow> hist s' = hist s @ [c] \<Longrightarrow> lview hist (shards(i \<mapsto> s')) = (lview hist shards)(i := insert c (lview hist shards i))"
  by (auto simp: lview_def fun_eq_iff)

lemma view_same:
  "shards i = Some s \<Longrightarrow> prepared s' = prepared s \<Longrightarrow> pview prepared (shards(i \<mapsto> s')) = pview prepared shards"
  "shards i = Some s \<Longrightarrow> hist s' = hist s \<Longrightarrow> lview hist (shards(i \<mapsto> s')) = lview hist shards"
  by (auto simp: pview_def lview_def fun_eq_iff)

text \<open>The decision log holds the decisions, all of them synced.\<close>

definition log_ok :: "(bytes \<Rightarrow> u64) \<Rightarrow> coordinator \<Rightarrow> bool" where
  "log_ok xxh co \<longleftrightarrow>
     (\<exists>rs f. co_log co = Some f \<and> df_bytes f = tc_header @ tc_bytes xxh rs \<and> df_synced f = length (df_bytes f) \<and>
             (\<forall>r \<in> set rs. tc_final r) \<and> co_decisions co = fst (foldl tc_add (Map.empty, 0) rs))"

lemma log_ok_update [simp]:
  "log_ok xxh (co\<lparr>co_inflight := x\<rparr>) = log_ok xxh co" "log_ok xxh (co\<lparr>co_clock := c\<rparr>) = log_ok xxh co"
  "log_ok xxh (co\<lparr>co_next_txn := t\<rparr>) = log_ok xxh co" "log_ok xxh (co\<lparr>co_crash_after_decide := b\<rparr>) = log_ok xxh co"
  by (simp_all add: log_ok_def)

lemma persist_final:
  assumes "log_ok xxh co" "d = abort_decision \<or> d = commit_decision ts"
  obtains co' where "persist_decision xxh None t d co = (Inr (), co')" "log_ok xxh co'" "co_decisions co' = (co_decisions co)(t \<mapsto> d)"
proof -
  let ?r = "\<lparr>tr_txn_id = t, tr_state = cd_state d, tr_commit_ts = cd_commit_ts d\<rparr>"
  obtain rs f where f: "co_log co = Some f" "df_bytes f = tc_header @ tc_bytes xxh rs" "df_synced f = length (df_bytes f)"
    "\<forall>r \<in> set rs. tc_final r" "co_decisions co = fst (foldl tc_add (Map.empty, 0) rs)"
    using assms(1) by (auto simp: log_ok_def)
  have fin: "tc_final ?r" using assms(2) by (auto simp: tc_final_def abort_decision_def commit_decision_def)
  let ?co = "co\<lparr>co_decisions := (co_decisions co)(t \<mapsto> d), co_log := Some (file_sync (file_append (tc_frame xxh ?r) f))\<rparr>"
  have "persist_decision xxh None t d co = (Inr (), ?co)"
    by (simp add: persist_decision_def f(1) append_final [OF fin])
  moreover have "log_ok xxh ?co"
    unfolding log_ok_def
    by (rule exI [of _ "rs @ [?r]"])
      (use f fin in \<open>auto simp: file_sync_def file_append_def tc_bytes_def tc_add_def tc_decision_def\<close>)
  ultimately show thesis using that by simp
qed

lemma co_open_crashed:
  assumes "log_ok xxh co" "co_log co = Some f" "crash_to f n bs"
  obtains co' where "co_open xxh (Some \<lparr>df_bytes = bs, df_synced = length bs\<rparr>) = Inr co'" "log_ok xxh co'" "co_decisions co' = co_decisions co"
proof -
  obtain rs where f: "df_bytes f = tc_header @ tc_bytes xxh rs" "df_synced f = length (df_bytes f)"
    "\<forall>r \<in> set rs. tc_final r" "co_decisions co = fst (foldl tc_add (Map.empty, 0) rs)"
    using assms(1,2) by (auto simp: log_ok_def)
  have bs: "bs = tc_header @ tc_bytes xxh rs" using assms(3) f(1,2) unfolding crash_to_def by (metis take_all)
  have "length (tc_bytes xxh rs) = 29 * length rs" using f(3) by (induction rs) (simp_all add: tc_bytes_def length_tc_frame)
  then have "tc_load_loop xxh (tc_bytes xxh rs) (Map.empty, 0) = Inr (foldl tc_add (Map.empty, 0) rs)"
    using tc_load_cut [of rs xxh "29 * length rs" "(Map.empty, 0)"] f(3) by simp
  then have l: "tc_load xxh (Some bs) = Inr (foldl tc_add (Map.empty, 0) rs)" by (simp add: bs tc_load_header)
  have o: "tc_open (Some \<lparr>df_bytes = bs, df_synced = length bs\<rparr>) = Inr \<lparr>df_bytes = bs, df_synced = length bs\<rparr>"
    by (simp add: tc_open_def bs tc_check_header_def tc_header_def TC_MAGIC_def)
  obtain D m where fold: "foldl tc_add (Map.empty, 0) rs = (D, m)" by fastforce
  then obtain co' where co': "co_open xxh (Some \<lparr>df_bytes = bs, df_synced = length bs\<rparr>) = Inr co'"
    "co_decisions co' = D" "co_log co' = Some \<lparr>df_bytes = bs, df_synced = length bs\<rparr>"
    by (simp add: co_open_def l o)
  have "log_ok xxh co'"
    unfolding log_ok_def by (intro exI [of _ rs] exI conjI) (rule co'(3), use co' fold f(3) bs in simp_all)
  then show thesis using that [of co'] co' f(4) fold by simp
qed

context durable_participant
begin

definition sys_inv :: "(bytes \<Rightarrow> u64) \<Rightarrow> coordinator \<Rightarrow> (u64 \<Rightarrow> 'a option) \<Rightarrow> thread_view \<Rightarrow> req_view \<Rightarrow> bool" where
  "sys_inv xxh co shards T R \<longleftrightarrow> (\<forall>i s. shards i = Some s \<longrightarrow> inv s) \<and> log_ok xxh co \<and>
     twopc_inv (co_decisions co) (pview prepared shards) (lview hist shards) T R"

lemma sys_inv_shard:
  "sys_inv xxh co shards T R \<Longrightarrow> inv s' \<and> twopc_inv (co_decisions co) (pview prepared (shards(i \<mapsto> s'))) (lview hist (shards(i \<mapsto> s'))) T' R \<Longrightarrow>
     sys_inv xxh co (shards(i \<mapsto> s')) T' R"
  by (auto simp: sys_inv_def)

text \<open>The effect of each call of a participant.\<close>

lemma prepare_keeps:
  assumes I: "twopc_inv D (pview prepared shards) (lview hist shards) T R" and s: "shards i = Some s" "inv s" and i: "i = sb_shard_id b"
    and T: "T t = Some (req, PcPrepare (b # bs) dn)" and c: "sp_prepare ops t read_ts (sb_writes b) rd s = (r, s')"
  shows "inv s' \<and> twopc_inv D (pview prepared (shards(i \<mapsto> s'))) (lview hist (shards(i \<mapsto> s')))
    (T(t \<mapsto> (req, case r of Inr _ \<Rightarrow> PcPrepare bs (dn @ [i]) | Inl _ \<Rightarrow> PcAbort is))) R"
proof -
  let ?P = "(pview prepared shards)(i := (pview prepared shards i)(t \<mapsto> sb_writes b))"
  let ?H = "(lview hist shards)(i := insert (CmdTxnPrepare t read_ts (sb_writes b)) (lview hist shards i))"
  note upd = pview_update [of shards i s prepared, OF s(1)] lview_update [of shards i s hist, OF s(1)]
    view_same(1) [of shards i s prepared, OF s(1)] view_same(2) [of shards i s hist, OF s(1)]
  have D: "D t = None" using inv_threadD [OF I T] by simp
  have prep: "twopc_inv D ?P ?H (T(t \<mapsto> (req, PcPrepare bs (dn @ [i])))) R" by (rule inv_prepare [OF I T i])
  have stop: "twopc_inv D ?P ?H (T(t \<mapsto> (req, PcAbort is))) R"
    using inv_thread [OF prep, of t req "PcPrepare bs (dn @ [i])" "PcAbort is"] D by simp
  have "twopc_inv D (pview prepared shards) (lview hist shards) (T(t \<mapsto> (req, PcAbort is))) R"
    using inv_thread [OF I T, of "PcAbort is"] D by simp
  then show ?thesis
    using prepare_ok [OF s(2), of t read_ts "sb_writes b" rd s'] prepare_err [OF s(2), of t read_ts "sb_writes b" rd _ s'] c prep stop upd
    by (cases r) auto
qed

lemma commit_keeps:
  assumes "twopc_inv D (pview prepared shards) (lview hist shards) T R" "shards i = Some s" "inv s"
    and "sp_commit ops t ts s = (r, s')" "D t = Some (commit_decision ts)"
  shows "inv s' \<and> twopc_inv D (pview prepared (shards(i \<mapsto> s'))) (lview hist (shards(i \<mapsto> s'))) T R"
proof (cases r)
  case (Inl e)
  then show ?thesis using commit_err [OF assms(3)] assms view_same(1) [of shards i s prepared, OF assms(2)] view_same(2) [of shards i s hist, OF assms(2)] by fastforce
next
  case (Inr u)
  then have c: "sp_commit ops t ts s = (Inr (), s')" using assms(4) by simp
  obtain ws where ws: "inv s'" "prepared s t = Some ws" "prepared s' = (prepared s)(t := None)" "hist s' = hist s @ [CmdTxnCommit t ts ws]"
    using commit_ok [OF assms(3) c] by auto
  have p: "pview prepared shards i t = Some ws" using assms(2) ws(2) by (simp add: pview_def)
  show ?thesis
    unfolding pview_update [of shards i s prepared, OF assms(2) ws(3)] lview_update [of shards i s hist, OF assms(2) ws(4)]
    using inv_commit [OF assms(1) p assms(5)] ws(1) by simp
qed

lemma abort_keeps:
  assumes "twopc_inv D (pview prepared shards) (lview hist shards) T R" "shards i = Some s" "inv s"
    and "sp_abort ops t s = (r, s')" "\<forall>ts. D t \<noteq> Some (commit_decision ts)" "t \<in> dom R"
    and "\<forall>req pc. T t = Some (req, pc) \<longrightarrow> (\<exists>is. pc = PcAbort is)"
  shows "inv s' \<and> twopc_inv D (pview prepared (shards(i \<mapsto> s'))) (lview hist (shards(i \<mapsto> s'))) T R"
proof (cases r)
  case (Inl e)
  then show ?thesis using abort_err [OF assms(3)] assms view_same(1) [of shards i s prepared, OF assms(2)] view_same(2) [of shards i s hist, OF assms(2)] by fastforce
next
  case (Inr u)
  then have c: "sp_abort ops t s = (Inr (), s')" using assms(4) by simp
  have ws: "inv s'" "prepared s' = (prepared s)(t := None)" "hist s' = hist s @ [CmdTxnAbort t]"
    using abort_ok [OF assms(3) c] by auto
  show ?thesis
    unfolding pview_update [of shards i s prepared, OF assms(2) ws(2)] lview_update [of shards i s hist, OF assms(2) ws(3)]
    using inv_abort [OF assms(1,5,6,7)] ws(1) by simp
qed

text \<open>The steps of a thread.\<close>

lemma sys_invD:
  assumes "sys_inv xxh co shards T R"
  shows "twopc_inv (co_decisions co) (pview prepared shards) (lview hist shards) T R" "log_ok xxh co" "shards i = Some s \<Longrightarrow> inv s"
  using assms by (auto simp: sys_inv_def)

lemma step_prepare:
  assumes I: "sys_inv xxh co shards T R" and T: "T t = Some (req, PcPrepare (b # bs) dn)"
    and step: "thread_step xxh None ops t req (PcPrepare (b # bs) dn) (co, shards) = (pc', co', shards')"
  shows "sys_inv xxh co' shards' (T(t := map_option (\<lambda>p. (req, p)) pc')) R"
proof (cases "shards (sb_shard_id b)")
  case None
  then show ?thesis
    using step I inv_thread [OF sys_invD(1) [OF I] T, of "PcAbort (abort_targets req dn)"] inv_threadD [OF sys_invD(1) [OF I] T]
    by (auto simp: sys_inv_def)
next
  case (Some s)
  obtain r s' where c: "sp_prepare ops t (dr_read_ts req) (sb_writes b) (sb_reads b) s = (r, s')" by fastforce
  have "sys_inv xxh co (shards(sb_shard_id b \<mapsto> s'))
      (T(t \<mapsto> (req, case r of Inr _ \<Rightarrow> PcPrepare bs (dn @ [sb_shard_id b]) | Inl _ \<Rightarrow> PcAbort (abort_targets req dn)))) R"
    by (rule sys_inv_shard [OF I prepare_keeps [OF sys_invD(1) [OF I] Some sys_invD(3) [OF I Some] refl T c]])
  then show ?thesis using step Some c by (cases r) auto
qed

lemma step_abort:
  assumes I: "sys_inv xxh co shards T R" and T: "T t = Some (req, PcAbort (i # is))"
  shows "sys_inv xxh co (abort_shard ops t shards i) (T(t \<mapsto> (req, PcAbort is))) R"
proof -
  have "co_decisions co t = None" using inv_threadD [OF sys_invD(1) [OF I] T] by simp
  moreover have "twopc_inv (co_decisions co) (pview prepared shards) (lview hist shards) (T(t \<mapsto> (req, PcAbort is))) R"
    using inv_thread [OF sys_invD(1) [OF I] T, of "PcAbort is"] calculation by simp
  moreover have "t \<in> dom R" using inv_reqD [OF sys_invD(1) [OF I] T] by auto
  ultimately show ?thesis
    using I abort_keeps [of "co_decisions co" shards "T(t \<mapsto> (req, PcAbort is))" R i _ t]
    by (cases "sp_abort ops t (the (shards i))") (auto simp: abort_shard_def sys_inv_def split: option.splits)
qed

lemma step_decide:
  assumes I: "sys_inv xxh co shards T R" and T: "T t = Some (req, PcDecide)"
    and step: "thread_step xxh None ops t req PcDecide (co, shards) = (pc', co', shards')"
  shows "sys_inv xxh co' shards' (T(t := map_option (\<lambda>p. (req, p)) pc')) R"
proof -
  let ?ts = "gk_next (co_clock co)" and ?co = "co\<lparr>co_clock := (co_clock co)\<lparr>gk_next := gk_next (co_clock co) + 1\<rparr>\<rparr>"
  obtain co1 where p: "persist_decision xxh None t (commit_decision ?ts) ?co = (Inr (), co1)" "log_ok xxh co1"
    "co_decisions co1 = (co_decisions co)(t \<mapsto> commit_decision ?ts)"
    by (rule persist_final [of xxh ?co "commit_decision ?ts" ?ts t]) (use sys_invD(2) [OF I] in auto)
  have d: "co_decide xxh None t co =
      (if co_crash_after_decide co1 then Inl (Network ''injected crash after durable 2PC decide'') else Inr ?ts,
       co1\<lparr>co_inflight := (co_inflight co1)(t \<mapsto> Committed)\<rparr>)"
    using p(1) by (simp add: co_decide_def gk_tick_def commit_decision_def)
  have tw: "twopc_inv (co_decisions co1) (pview prepared shards) (lview hist shards) (T(t \<mapsto> (req, PcCommit ?ts (dr_branches req)))) R"
    unfolding p(3) by (rule inv_decide [OF sys_invD(1) [OF I] T])
  show ?thesis
    using step I p(2) tw inv_thread_end [OF tw, of t] by (auto simp: d sys_inv_def split: if_splits)
qed

lemma step_commit:
  assumes I: "sys_inv xxh co shards T R" and T: "T t = Some (req, PcCommit ts (b # bs))"
    and step: "thread_step xxh None ops t req (PcCommit ts (b # bs)) (co, shards) = (pc', co', shards')"
  shows "sys_inv xxh co' shards' (T(t := map_option (\<lambda>p. (req, p)) pc')) R"
proof (cases "shards (sb_shard_id b)")
  case None
  then show ?thesis using step I inv_thread_end [OF sys_invD(1) [OF I]] by (auto simp: sys_inv_def)
next
  case (Some s)
  have d: "co_decisions co t = Some (commit_decision ts)" using inv_threadD [OF sys_invD(1) [OF I] T] by simp
  obtain r s' where c: "sp_commit ops t ts s = (r, s')" by fastforce
  have I': "sys_inv xxh co (shards(sb_shard_id b \<mapsto> s')) T R"
    by (rule sys_inv_shard [OF I commit_keeps [OF sys_invD(1) [OF I] Some sys_invD(3) [OF I Some] c d]])
  show ?thesis
    using step Some c I' inv_thread [OF sys_invD(1) [OF I'] T, of "PcCommit ts bs"] inv_thread_end [OF sys_invD(1) [OF I']] d
    by (cases r) (auto simp: sys_inv_def)
qed

lemma thread_step_keeps:
  assumes I: "sys_inv xxh co shards T R" and T: "T t = Some (req, pc)"
    and step: "thread_step xxh None ops t req pc (co, shards) = (pc', co', shards')"
  shows "sys_inv xxh co' shards' (T(t := map_option (\<lambda>p. (req, p)) pc')) R"
proof -
  note tw = sys_invD(1) [OF I]
  show ?thesis
  proof (cases "(xxh, None :: nat option, ops, t, req, pc, co, shards)" rule: thread_step.cases)
    case 1
    then show ?thesis using step I inv_thread [OF tw T, of PcDecide] inv_threadD [OF tw T] by (auto simp: sys_inv_def)
  next
    case 2
    then show ?thesis using step step_prepare [OF I] T by simp
  next
    case 3
    then show ?thesis using step step_abort [OF I] T by auto
  next
    case 4
    obtain co1 where "persist_decision xxh None t abort_decision co = (Inr (), co1)" "log_ok xxh co1"
      "co_decisions co1 = (co_decisions co)(t \<mapsto> abort_decision)"
      by (rule persist_final [of xxh co abort_decision 0 t]) (use sys_invD(2) [OF I] in auto)
    then show ?thesis using 4 step I inv_finish_abort [OF tw, of t req "[]"] T
      by (auto simp: sys_inv_def finish_abort_def abort_decision_def)
  next
    case 5
    then show ?thesis using step step_decide [OF I] T by simp
  next
    case 6
    then show ?thesis using step I inv_thread_end [OF tw] by (auto simp: sys_inv_def)
  next
    case 7
    then show ?thesis using step step_commit [OF I] T by simp
  qed
qed

lemma recover_keeps:
  assumes I: "sys_inv xxh co shards T R" and s: "shards i = Some s" and o: "t \<in> sp_orphaned ops s"
    and r: "recover_orphan ops co t s = (r, s')" and g: "T t = None \<or> co_decision t co \<noteq> None"
  shows "sys_inv xxh co (shards(i \<mapsto> s')) T R"
proof -
  note tw = sys_invD(1) [OF I] and inv = sys_invD(3) [OF I s]
  obtain ws where "prepared s t = Some ws" using o orphaned [OF inv] by auto
  then have "branch_of R t i ws" using tw s by (auto simp: twopc_inv_def prepared_of_request_def pview_def)
  then have R: "t \<in> dom R" by (auto simp: branch_of_def)
  consider (none) "co_decisions co t = None" | (abort) "co_decisions co t = Some abort_decision"
    | (commit) ts where "co_decisions co t = Some (commit_decision ts)"
    using tw unfolding twopc_inv_def known_def by (metis not_None_eq)
  then show ?thesis
  proof cases
    case none
    then have "sp_abort ops t s = (fst (sp_abort ops t s), s')" "\<forall>req pc. T t = Some (req, pc) \<longrightarrow> (\<exists>is. pc = PcAbort is)"
      using r g by (auto simp: recover_orphan_def co_decision_def split: prod.splits)
    then show ?thesis using sys_inv_shard [OF I abort_keeps [OF tw s inv _ _ R]] none by auto
  next
    case abort
    have "\<exists>is. pc = PcAbort is" if "T t = Some (req, pc)" for req pc
      using inv_threadD [OF tw that] abort by (cases pc) auto
    moreover have "sp_abort ops t s = (fst (sp_abort ops t s), s')"
      using r abort by (auto simp: recover_orphan_def co_decision_def abort_decision_def split: prod.splits)
    ultimately show ?thesis using sys_inv_shard [OF I abort_keeps [OF tw s inv _ _ R]] abort by auto
  next
    case commit
    have "sp_commit ops t ts s = (fst (sp_commit ops t ts s), s')"
      using r commit by (auto simp: recover_orphan_def co_decision_def commit_decision_def split: prod.splits)
    then show ?thesis using sys_inv_shard [OF I commit_keeps [OF tw s inv _ commit]] by auto
  qed
qed

lemma dstep_keeps:
  assumes "dstep xxh ops env True d d'" and I: "sys_inv xxh (ds_co d) (ds_shards d) (ds_threads d) (ds_reqs d)"
  shows "sys_inv xxh (ds_co d') (ds_shards d') (ds_threads d') (ds_reqs d')"
  using assms(1)
proof cases
  case (d_begin t read_ts co req)
  have "co_decisions co = co_decisions (ds_co d)" "log_ok xxh co = log_ok xxh (ds_co d)"
    using d_begin(2) by (auto simp: co_begin_def gk_tick_def Let_def)
  then show ?thesis using I d_begin inv_begin [OF sys_invD(1) [OF I]] by (auto simp: sys_inv_def)
next
  case (d_thread t req pc io pc' co shards)
  then show ?thesis using thread_step_keeps [OF I, of t req pc] by simp
next
  case (d_recover i s t r s')
  then show ?thesis using recover_keeps [OF I, of i s t r s'] by simp
next
  case (d_env i s s')
  then have "inv s' \<and> prepared s' = prepared s \<and> hist s' = hist s" using env_keeps sys_invD(3) [OF I] by blast
  then show ?thesis
    using d_env I view_same(1) [of "ds_shards d" i s prepared s'] view_same(2) [of "ds_shards d" i s hist s'] by (auto simp: sys_inv_def)
next
  case (d_inject b)
  then show ?thesis using I by (simp add: sys_inv_def inject_crash_after_decide_def)
next
  case (d_crash f n bs co)
  obtain co' where "co_open xxh (Some \<lparr>df_bytes = bs, df_synced = length bs\<rparr>) = Inr co'" "log_ok xxh co'" "co_decisions co' = co_decisions (ds_co d)"
    by (rule co_open_crashed [OF sys_invD(2) [OF I] d_crash(2,3)])
  then show ?thesis using d_crash I inv_crash [OF sys_invD(1) [OF I]] by (auto simp: sys_inv_def)
qed

lemma init_keeps:
  assumes "dsys_init xxh shards d" "\<And>i s. shards i = Some s \<Longrightarrow> inv s \<and> prepared s = Map.empty \<and> hist s = []"
  shows "sys_inv xxh (ds_co d) (ds_shards d) (ds_threads d) (ds_reqs d)"
proof -
  have co: "co_log (ds_co d) = Some tc_create" "co_decisions (ds_co d) = Map.empty"
    using assms(1) by (cases "ds_co d"; auto simp: dsys_init_def co_open_def tc_load_def tc_open_def)+
  then have "log_ok xxh (ds_co d)" by (auto simp: log_ok_def tc_created tc_bytes_def intro!: exI [of _ "[]"])
  moreover have "pview prepared shards i t = None" "lview hist shards i = {}" for i t
    using assms(2) [of i] by (auto simp: pview_def lview_def split: option.split)
  ultimately show ?thesis using assms co by (auto simp: sys_inv_def dsys_init_def twopc_defs)
qed

lemma run_keeps:
  assumes "(dstep xxh ops env True)\<^sup>*\<^sup>* d0 d" "dsys_init xxh shards d0"
    and "\<And>i s. shards i = Some s \<Longrightarrow> inv s \<and> prepared s = Map.empty \<and> hist s = []"
  shows "sys_inv xxh (ds_co d) (ds_shards d) (ds_threads d) (ds_reqs d)"
  using assms(1) by (induction rule: rtranclp_induct) (auto intro: init_keeps [OF assms(2,3)] dstep_keeps)

lemma commits_of_decision:
  assumes "sys_inv xxh co shards T R" "shards i = Some s" "CmdTxnCommit t ts ws \<in> set (hist s)"
  shows "co_decisions co t = Some (commit_decision ts) \<and> branch_of R t i ws"
proof -
  have "CmdTxnCommit t ts ws \<in> lview hist shards i" using assms(2,3) by (simp add: lview_def)
  then show ?thesis using sys_invD(1) [OF assms(1)] unfolding twopc_inv_def commits_decided_def by blast
qed

lemma aborts_of_no_decision:
  assumes "sys_inv xxh co shards T R" "shards i = Some s" "CmdTxnAbort t \<in> set (hist s)"
  shows "co_decisions co t \<noteq> Some (commit_decision ts)"
proof -
  have "CmdTxnAbort t \<in> lview hist shards i" using assms(2,3) by (simp add: lview_def)
  then show ?thesis using sys_invD(1) [OF assms(1)] unfolding twopc_inv_def aborts_undecided_def by blast
qed

lemma decided_everywhere:
  assumes "sys_inv xxh co shards T R" "co_decisions co t = Some (commit_decision ts)" "branch_of R t i ws"
    and "\<And>s. shards i = Some s \<Longrightarrow> prepared s t = None"
  shows "\<exists>s. shards i = Some s \<and> CmdTxnCommit t ts ws \<in> set (hist s)"
  using inv_coveredD [OF sys_invD(1) [OF assms(1)] assms(2,3)] assms(4) by (auto simp: pview_def lview_def split: option.splits)

end

section \<open>Scheduled runs\<close>

text \<open>Runs of the system under a given schedule, to evaluate.\<close>

datatype d_action = ActBegin dist_txn_request | ActThread u64 | ActRecover u64 u64 | ActCrash

fun dact :: "(bytes \<Rightarrow> u64) \<Rightarrow> 's participant_ops \<Rightarrow> bool \<Rightarrow> d_action \<Rightarrow> 's dsys \<Rightarrow> 's dsys option" where
  "dact xxh ops careful (ActBegin req) d =
     (let ((t, _), co) = co_begin (ds_co d)
      in if careful \<and> (ds_reqs d t \<noteq> None \<or> \<not> distinct (map sb_shard_id (dr_branches req))) then None
         else Some (d\<lparr>ds_co := co, ds_threads := (ds_threads d)(t \<mapsto> (req, pc_start req)), ds_reqs := (ds_reqs d)(t \<mapsto> req)\<rparr>))"
| "dact xxh ops careful (ActThread t) d =
     (case ds_threads d t of
        None \<Rightarrow> None
      | Some (req, pc) \<Rightarrow>
          (case thread_step xxh None ops t req pc (ds_co d, ds_shards d) of
             (pc', co, shards) \<Rightarrow>
               Some (d\<lparr>ds_co := co, ds_shards := shards, ds_threads := (ds_threads d)(t := map_option (\<lambda>p. (req, p)) pc')\<rparr>)))"
| "dact xxh ops careful (ActRecover i t) d =
     (case ds_shards d i of
        None \<Rightarrow> None
      | Some s \<Rightarrow>
          if t \<notin> sp_orphaned ops s \<or> careful \<and> ds_threads d t \<noteq> None \<and> co_decision t (ds_co d) = None then None
          else Some (d\<lparr>ds_shards := (ds_shards d)(i \<mapsto> snd (recover_orphan ops (ds_co d) t s))\<rparr>))"
| "dact xxh ops careful ActCrash d =
     (case co_log (ds_co d) of
        None \<Rightarrow> None
      | Some f \<Rightarrow>
          (case co_open xxh (Some \<lparr>df_bytes = df_bytes f, df_synced = length (df_bytes f)\<rparr>) of
             Inl _ \<Rightarrow> None
           | Inr co \<Rightarrow> if df_synced f \<le> length (df_bytes f) then Some (d\<lparr>ds_co := co, ds_threads := Map.empty\<rparr>) else None))"

primrec drun :: "(bytes \<Rightarrow> u64) \<Rightarrow> 's participant_ops \<Rightarrow> bool \<Rightarrow> d_action list \<Rightarrow> 's dsys \<Rightarrow> 's dsys option" where
  "drun xxh ops careful [] d = Some d"
| "drun xxh ops careful (a # as) d = (case dact xxh ops careful a d of None \<Rightarrow> None | Some d' \<Rightarrow> drun xxh ops careful as d')"

lemma dact_sound: "dact xxh ops careful a d = Some d' \<Longrightarrow> dstep xxh ops env careful d d'"
proof (cases a)
  case (ActBegin req)
  assume "dact xxh ops careful a d = Some d'"
  then show ?thesis using ActBegin by (auto simp: Let_def split: prod.splits if_splits intro!: d_begin)
next
  case (ActThread t)
  assume "dact xxh ops careful a d = Some d'"
  then show ?thesis using ActThread by (auto split: option.splits prod.splits intro: d_thread [where io = None])
next
  case (ActRecover i t)
  assume "dact xxh ops careful a d = Some d'"
  then show ?thesis
    using ActRecover d_recover [of d i _ t ops, OF _ _ prod.collapse [symmetric]]
    by (cases "ds_threads d t") (auto split: option.splits if_splits)
next
  case ActCrash
  assume "dact xxh ops careful a d = Some d'"
  then show ?thesis
    using ActCrash by (auto simp: crash_to_def split: option.splits sum.splits if_splits intro!: d_crash)
qed

lemma drun_sound: "drun xxh ops careful as d = Some d' \<Longrightarrow> (dstep xxh ops env careful)\<^sup>*\<^sup>* d d'"
proof (induction "as" arbitrary: d)
  case (Cons a "as")
  then obtain d1 where "dact xxh ops careful a d = Some d1" "drun xxh ops careful as d1 = Some d'" by (auto split: option.splits)
  then show ?case using Cons.IH dact_sound by (metis converse_rtranclp_into_rtranclp)
qed simp

text \<open>A fresh system of two shards and a transaction that writes to both.\<close>

definition example_start :: "local_shard dsys" where
  "example_start = \<lparr>ds_co = \<lparr>co_clock = gk_new, co_next_txn = 1, co_decisions = Map.empty, co_log = Some tc_create, co_inflight = Map.empty,
      co_crash_after_decide = False\<rparr>, ds_shards = [1 \<mapsto> ls_new 1, 2 \<mapsto> ls_new 2], ds_threads = Map.empty, ds_reqs = Map.empty\<rparr>"

definition example_req :: dist_txn_request where
  "example_req = \<lparr>dr_read_ts = 1, dr_branches = [put_branch 1 [1] [10], put_branch 2 [2] [20]]\<rparr>"

lemmas dtxn_eval = co_begin_def gk_tick_def gk_new_def pc_start_def example_req_def put_branch_def local_ops_def ls_prepare_def occ_validate_def
  occ_stale_def lock_conflict_def locks_insert_def locks_remove_def ls_commit_def ls_abort_def apply_writes_def apply_write_def abort_targets_def abort_shard_def
  co_decide_def persist_decision_def recover_orphan_def co_decision_def ls_orphaned_def Let_def finish_abort_def

lemma example_commit:
  "\<exists>d. drun (\<lambda>_. 7) local_ops True [ActBegin example_req, ActThread 1, ActThread 1, ActThread 1, ActThread 1, ActThread 1, ActThread 1, ActThread 1] example_start = Some d \<and>
    ds_reqs d 1 = Some example_req \<and> (\<exists>s. ds_shards d 2 = Some s \<and> CmdTxnCommit 1 2 [([2], Some [20])] \<in> set (ls_raft_log s))"
  by (simp add: dtxn_eval example_start_def ls_new_def append_final tc_final_def)
section \<open>Properties\<close>


lemma example_start_init: "dsys_init (\<lambda>_. 7) [1 \<mapsto> ls_new 1, 2 \<mapsto> ls_new 2] example_start"
  by (simp add: dsys_init_def example_start_def co_open_def tc_load_def tc_open_def sat_add_def)


text \<open>
  C7. Recovery of a reachable participant ends: over the orphans of a local shard that is up, in any
  order, \<open>recover_participant\<close> resolves every one of them and leaves nothing prepared, provided the
  coordinator's decisions are final.
\<close>

theorem recover_participant_completes:
  assumes "\<not> ls_crash_after_prepare s" "distinct orphans" "set orphans = ls_orphaned s"
    and "\<forall>t d. co_decision t co = Some d \<longrightarrow> d = abort_decision \<or> (\<exists>ts. d = commit_decision ts)"
  shows "\<exists>s'. recover_participant local_ops co orphans 0 s = (Inr (length orphans), s') \<and> ls_prepared s' = Map.empty"
proof -
  have one: "\<exists>s'. recover_orphan local_ops co t s = (Inr 1, s') \<and> ls_prepared s' = (ls_prepared s)(t := None) \<and> \<not> ls_crash_after_prepare s'"
    if p: "ls_prepared s t \<noteq> None" and up: "\<not> ls_crash_after_prepare s" for t s
  proof -
    obtain ws where ws: "ls_prepared s t = Some ws" using p by auto
    have crash: "ls_crash_after_prepare (apply_writes w ts x) = ls_crash_after_prepare x" for w ts x
      by (induction w arbitrary: x) (simp_all add: apply_writes_def apply_write_def Let_def)
    show ?thesis using assms(4) [rule_format, of t] ws up
      by (cases "co_decision t co")
        (auto simp: recover_orphan_def local_ops_def ls_abort_def ls_commit_def abort_decision_def commit_decision_def crash)
  qed
  have "\<exists>s'. recover_participant local_ops co os n s = (Inr (n + length os), s') \<and> ls_prepared s' = Map.empty"
    if "distinct os" "set os = dom (ls_prepared s)" "\<not> ls_crash_after_prepare s" for os n s
    using that
  proof (induction os arbitrary: n s)
    case (Cons t os)
    obtain s1 where s1: "recover_orphan local_ops co t s = (Inr 1, s1)" "ls_prepared s1 = (ls_prepared s)(t := None)" "\<not> ls_crash_after_prepare s1"
      using one [of s t] Cons.prems by auto
    have "set os = dom (ls_prepared s1)" using Cons.prems(1,2) s1(2) by auto
    from Cons.IH [OF _ this s1(3), of "n + 1"] show ?case using Cons.prems(1) s1(1) by simp
  qed auto
  from this [OF assms(2) assms(3) [unfolded ls_orphaned_def] assms(1), of 0] show ?thesis by simp
qed

theorem recover_participant_completes_witness:
  "\<exists>s'. recover_participant local_ops co_new [4] 0 (snd (ls_prepare 4 1 [([1], None)] [] (ls_new 1))) = (Inr 1, s') \<and> ls_prepared s' = Map.empty"
proof -
  let ?s = "snd (ls_prepare 4 1 [([1], None)] [] (ls_new 1))"
  have "\<not> ls_crash_after_prepare ?s" "set [4] = ls_orphaned ?s"
    by (simp_all add: dtxn_eval ls_new_def)
  then show ?thesis using recover_participant_completes [of ?s "[4]" co_new] by (simp add: co_decision_def co_new_def)
qed

end
