(* ===== verification/Dtxn_Anomalies.thy ===== *)
theory Dtxn_Anomalies
  imports Dtxn_Safety
begin

text \<open>
  Runs of the two-phase commit outside the careful ones: what the code permits and the atomicity
  theorem excludes. Each is a schedule of the system of \<open>Dtxn_Safety\<close>, evaluated.
\<close>

lemma co_open_fresh:
  "co_open xxh (Some \<lparr>df_bytes = df_bytes tc_create, df_synced = n\<rparr>) =
     Inr \<lparr>co_clock = gk_new, co_next_txn = 1, co_decisions = Map.empty, co_log = Some \<lparr>df_bytes = df_bytes tc_create, df_synced = n\<rparr>,
          co_inflight = Map.empty, co_crash_after_decide = False\<rparr>"
proof -
  have "tc_load xxh (Some (df_bytes tc_create)) = Inr (Map.empty, 0)"
    using tc_load_header [of xxh "[]"] by (simp add: tc_created tc_load_loop.simps)
  moreover have "tc_open (Some \<lparr>df_bytes = df_bytes tc_create, df_synced = n\<rparr>) = Inr \<lparr>df_bytes = df_bytes tc_create, df_synced = n\<rparr>"
    by (simp add: tc_open_def tc_created tc_check_header_def tc_header_def TC_MAGIC_def)
  ultimately show ?thesis by (simp add: co_open_def sat_add_def)
qed

text \<open>
  C9. Recovery aborts a transaction that is still running. \<open>recover_participant\<close> takes the
  absence of a decision for an abort without looking at the transactions in flight: when it runs
  between the prepare on the first shard and the coordinator's decision, the transaction is aborted
  on that shard, decided and committed on the other one, and nothing is left prepared.
\<close>

theorem presumed_abort_breaks_atomicity:
  "\<exists>d s1 s2. (dstep (\<lambda>_. 7) local_ops local_env False)\<^sup>*\<^sup>* example_start d \<and> ds_shards d 1 = Some s1 \<and> ds_shards d 2 = Some s2 \<and>
     CmdTxnAbort 1 \<in> set (ls_raft_log s1) \<and> CmdTxnCommit 1 2 [([2], Some [20])] \<in> set (ls_raft_log s2) \<and>
     co_decision 1 (ds_co d) = Some (commit_decision 2) \<and> ls_prepared s1 = Map.empty \<and> ls_prepared s2 = Map.empty"
proof -
  have "\<exists>d s1 s2. drun (\<lambda>_. 7) local_ops False
      [ActBegin example_req, ActThread 1, ActRecover 1 1, ActThread 1, ActThread 1, ActThread 1, ActThread 1, ActRecover 2 1] example_start = Some d \<and>
      ds_shards d 1 = Some s1 \<and> ds_shards d 2 = Some s2 \<and>
      CmdTxnAbort 1 \<in> set (ls_raft_log s1) \<and> CmdTxnCommit 1 2 [([2], Some [20])] \<in> set (ls_raft_log s2) \<and>
      co_decision 1 (ds_co d) = Some (commit_decision 2) \<and> ls_prepared s1 = Map.empty \<and> ls_prepared s2 = Map.empty"
    by (simp add: dtxn_eval example_start_def ls_new_def append_final tc_final_def commit_decision_def)
  then show ?thesis using drun_sound by blast
qed

text \<open>
  C10. Transaction ids are reused after a restart. The coordinator reopens with one more than the
  highest \<^emph>\<open>decided\<close> id, so a transaction that was prepared and not decided gives its id to a new
  one; when the new transaction commits, recovery commits the old write-set of a shard the new
  transaction never named, and the other branch of the old transaction is not committed.
\<close>

theorem reused_id_commits_orphan:
  "\<exists>d s1 s2. (dstep (\<lambda>_. 7) local_ops local_env False)\<^sup>*\<^sup>* example_start d \<and> ds_shards d 1 = Some s1 \<and> ds_shards d 2 = Some s2 \<and>
     CmdTxnCommit 1 2 [([1], Some [10])] \<in> set (ls_raft_log s1) \<and>
     ds_reqs d 1 = Some \<lparr>dr_read_ts = 1, dr_branches = [put_branch 2 [3] [30]]\<rparr> \<and>
     CmdTxnCommit 1 2 [([2], Some [20])] \<notin> set (ls_raft_log s2) \<and> CmdTxnCommit 1 2 [([3], Some [30])] \<in> set (ls_raft_log s2)"
proof -
  let ?req = "\<lparr>dr_read_ts = 1, dr_branches = [put_branch 2 [3] [30]]\<rparr>"
  have "\<exists>d s1 s2. drun (\<lambda>_. 7) local_ops False
      [ActBegin example_req, ActThread 1, ActCrash, ActBegin ?req, ActThread 1, ActThread 1, ActThread 1, ActThread 1, ActThread 1, ActRecover 1 1] example_start = Some d \<and>
      ds_shards d 1 = Some s1 \<and> ds_shards d 2 = Some s2 \<and> CmdTxnCommit 1 2 [([1], Some [10])] \<in> set (ls_raft_log s1) \<and>
      ds_reqs d 1 = Some ?req \<and> CmdTxnCommit 1 2 [([2], Some [20])] \<notin> set (ls_raft_log s2) \<and>
      CmdTxnCommit 1 2 [([3], Some [30])] \<in> set (ls_raft_log s2)"
    by (simp add: dtxn_eval example_start_def ls_new_def append_final tc_final_def co_open_fresh [unfolded tc_created] tc_created)
  then show ?thesis using drun_sound by blast
qed

text \<open>
  The clock restarts. A reopened coordinator hands out timestamps from 1 again, so the first
  transaction that writes a key some shard committed before, at a timestamp above 1, is aborted
  with a conflict although nothing runs beside it.
\<close>

theorem clock_restart_aborts:
  assumes "co_open xxh file = Inr co" "shards i = Some s" "ls_last_commit s k = Some ts" "1 < ts" "\<not> ls_fail_prepare s"
    and "dr_branches req = b # bs" "sb_shard_id b = i" "k \<in> fst ` set (sb_writes b)" "sb_reads b = []"
  shows "fst (co_execute xxh io local_ops req (co, shards)) =
    Inr (OutAborted (co_next_txn co) (PrepareFailed (Conflict ''write key committed after read_ts'')))"
proof -
  have clock: "co_clock co = gk_new"
    using assms(1) by (auto simp: co_open_def rbind_def split: sum.splits)
  have "list_ex (occ_stale (ls_last_commit s) 1 \<circ> fst) (sb_writes b)"
    using assms(3,4,8) by (auto simp: list_ex_iff occ_stale_def intro!: bexI)
  then have "ls_prepare t 1 (sb_writes b) [] s = (Inl (Conflict ''write key committed after read_ts''), s)" for t
    using assms(5) by (simp add: ls_prepare_def occ_validate_def)
  then show ?thesis
    using assms(2,6,7,9) by (simp add: co_execute_def co_begin_def gk_tick_def clock gk_new_def Let_def co_commit_def local_ops_def)
qed

theorem clock_restart_aborts_witness:
  "\<exists>co s. co_open (\<lambda>_. 7) None = Inr co \<and> ls_last_commit s [1] = Some 4 \<and>
     fst (co_execute (\<lambda>_. 7) None local_ops \<lparr>dr_read_ts = 0, dr_branches = [put_branch 1 [1] [9]]\<rparr> (co, [1 \<mapsto> s])) =
       Inr (OutAborted (co_next_txn co) (PrepareFailed (Conflict ''write key committed after read_ts'')))"
proof -
  let ?s = "apply_writes [([1], Some [8])] 4 (ls_new 1)"
  obtain co where co: "co_open (\<lambda>_. 7) None = Inr co" by (simp add: co_open_def tc_load_def tc_open_def)
  have s: "ls_last_commit ?s [1] = Some 4" "\<not> ls_fail_prepare ?s" by (simp_all add: apply_writes_def apply_write_def ls_new_def Let_def)
  then show ?thesis
    using clock_restart_aborts [OF co, of "[1 \<mapsto> ?s]" 1 ?s "[1]" 4 "\<lparr>dr_read_ts = 0, dr_branches = [put_branch 1 [1] [9]]\<rparr>" "put_branch 1 [1] [9]" "[]" None] co
    by (intro exI [of _ co] exI [of _ ?s]) (simp add: put_branch_def)
qed

end
