(* ===== verification/Engine_Shard.thy ===== *)
theory Engine_Shard
  imports Engine_Wal Raft_Log Dtxn_Coordinator
begin

text \<open>
  The participant \<open>EngineShard\<close> (\<open>dtxn.rs\<close>) over the two-phase-commit operations of the engine
  (\<open>engine.rs\<close>). The local path is modelled: a command is proposed to the embedded node and its
  side effect is applied. Of the distributed path the recovery from the Raft log is modelled.
  \<open>es_trace\<close> records the commands whose proposal succeeded; no operation reads it.
\<close>

section \<open>The engine as a participant\<close>

record engine_shard =
  es_engine :: engine
  es_closed :: bool
  es_prepared :: "u64 \<Rightarrow> write_op list option"
  es_locks :: "key \<Rightarrow> u64 option"
  es_last_commit :: "key \<Rightarrow> commit_ts option"
  es_fail_prepare :: bool
  es_crash_after_prepare :: bool
  es_trace :: "raft_command list"

definition note_committed_keys :: "key list \<Rightarrow> commit_ts \<Rightarrow> engine_shard \<Rightarrow> engine_shard" where
  "note_committed_keys ks ts s = s\<lparr>es_last_commit := foldl (\<lambda>l k. l(k \<mapsto> ts)) (es_last_commit s) ks\<rparr>"

fun apply_twopc_side_effect :: "raft_command \<Rightarrow> engine_shard \<Rightarrow> engine_shard" where
  "apply_twopc_side_effect (CmdTxnPrepare t _ ops) s =
     s\<lparr>es_locks := locks_insert t ops (es_locks s), es_prepared := (es_prepared s)(t \<mapsto> ops)\<rparr>"
| "apply_twopc_side_effect (CmdTxnAbort t) s =
     (case es_prepared s t of
        None \<Rightarrow> s
      | Some writes \<Rightarrow> s\<lparr>es_prepared := (es_prepared s)(t := None), es_locks := locks_remove writes (es_locks s)\<rparr>)"
| "apply_twopc_side_effect (CmdTxnCommit t ts ops) s =
     note_committed_keys (map fst ops) ts (s\<lparr>es_prepared := (es_prepared s)(t := None), es_locks := locks_remove ops (es_locks s)\<rparr>)"
| "apply_twopc_side_effect _ s = s"

definition propose_twopc :: "(bytes \<Rightarrow> u64) \<Rightarrow> nat option \<Rightarrow> raft_command \<Rightarrow> engine_shard \<Rightarrow> unit result \<times> engine_shard" where
  "propose_twopc xxh io command s =
     (case engine_propose xxh io command (es_engine s) of
        (Inl e, eg) \<Rightarrow> (Inl e, s\<lparr>es_engine := eg\<rparr>)
      | (Inr _, eg) \<Rightarrow>
          (Inr (), apply_twopc_side_effect command (s\<lparr>es_engine := eg, es_trace := es_trace s @ [command]\<rparr>)))"

text \<open>After a failed proposal the locks that belong to the transaction are given back.\<close>

definition unlock_own :: "u64 \<Rightarrow> write_op list \<Rightarrow> (key \<rightharpoonup> u64) \<Rightarrow> key \<rightharpoonup> u64" where
  "unlock_own t ws locks = foldl (\<lambda>l op. if l (fst op) = Some t then l(fst op := None) else l) locks ws"

definition twopc_prepare ::
  "(bytes \<Rightarrow> u64) \<Rightarrow> nat option \<Rightarrow> u64 \<Rightarrow> commit_ts \<Rightarrow> write_op list \<Rightarrow> (key \<times> commit_ts) list \<Rightarrow> engine_shard \<Rightarrow> unit result \<times> engine_shard"
where
  "twopc_prepare xxh io t read_ts writes reads s =
     (if es_closed s then (Inl (Engine ''engine is closed''), s)
      else if es_fail_prepare s then (Inl (Network ''injected prepare failure''), s)
      else case occ_validate (es_last_commit s) read_ts reads writes of
             Inl e \<Rightarrow> (Inl e, s)
           | Inr _ \<Rightarrow>
               if lock_conflict (es_locks s) t writes then (Inl (Conflict ''key locked by txn''), s)
               else
                 (case propose_twopc xxh io (CmdTxnPrepare t read_ts writes) (s\<lparr>es_locks := locks_insert t writes (es_locks s)\<rparr>) of
                    (Inl e, s) \<Rightarrow> (Inl e, s\<lparr>es_locks := unlock_own t writes (es_locks s)\<rparr>)
                  | (Inr _, s) \<Rightarrow>
                      if es_crash_after_prepare s then (Inl (Network ''crashed after PREPARED''), s) else (Inr (), s)))"

definition twopc_commit :: "(bytes \<Rightarrow> u64) \<Rightarrow> nat option \<Rightarrow> u64 \<Rightarrow> commit_ts \<Rightarrow> engine_shard \<Rightarrow> unit result \<times> engine_shard" where
  "twopc_commit xxh io t ts s =
     (if es_closed s then (Inl (Engine ''engine is closed''), s)
      else if es_crash_after_prepare s then (Inl (Network ''down (cannot commit)''), s)
      else case es_prepared s t of
             None \<Rightarrow> (Inl (Engine ''commit for unknown prepared txn''), s)
           | Some writes \<Rightarrow> propose_twopc xxh io (CmdTxnCommit t ts writes) s)"

definition twopc_abort :: "(bytes \<Rightarrow> u64) \<Rightarrow> nat option \<Rightarrow> u64 \<Rightarrow> engine_shard \<Rightarrow> unit result \<times> engine_shard" where
  "twopc_abort xxh io t s =
     (if es_closed s then (Inl (Engine ''engine is closed''), s)
      else if es_crash_after_prepare s then (Inl (Network ''down (cannot abort)''), s)
      else propose_twopc xxh io (CmdTxnAbort t) s)"

definition twopc_orphaned_prepared :: "engine_shard \<Rightarrow> u64 set" where
  "twopc_orphaned_prepared s = dom (es_prepared s)"

text \<open>Reading with no concurrent change of the tables; an error reads as absent.\<close>

definition es_get_at :: "(bytes \<Rightarrow> u64) \<Rightarrow> (sst_reader \<Rightarrow> page_source) \<Rightarrow> engine_shard \<Rightarrow> key \<Rightarrow> commit_ts \<Rightarrow> val option" where
  "es_get_at xxh pools s k read_ts =
     (if es_closed s then None
      else case get_at_with_ts xxh pools (eg_mem (es_engine s)) (\<lambda>_. eg_mgr (es_engine s)) k read_ts of
             Inl _ \<Rightarrow> None
           | Inr (v, _) \<Rightarrow> v)"

definition engine_ops :: "(bytes \<Rightarrow> u64) \<Rightarrow> nat option \<Rightarrow> (sst_reader \<Rightarrow> page_source) \<Rightarrow> engine_shard participant_ops" where
  "engine_ops xxh io pools =
     \<lparr>sp_prepare = twopc_prepare xxh io, sp_commit = twopc_commit xxh io, sp_abort = twopc_abort xxh io,
      sp_orphaned = twopc_orphaned_prepared, sp_get_at = es_get_at xxh pools\<rparr>"

text \<open>Recovery on a distributed node: the entries behind the snapshot, in order; undecodable ones are skipped.\<close>

fun twopc_replay :: "(u64 \<rightharpoonup> write_op list) \<times> (key \<rightharpoonup> u64) \<Rightarrow> raft_command \<Rightarrow> (u64 \<rightharpoonup> write_op list) \<times> (key \<rightharpoonup> u64)" where
  "twopc_replay (prepared, locks) (CmdTxnPrepare t _ ops) = (prepared(t \<mapsto> ops), locks_insert t ops locks)"
| "twopc_replay (prepared, locks) (CmdTxnCommit t _ ops) = (prepared(t := None), locks_remove ops locks)"
| "twopc_replay (prepared, locks) (CmdTxnAbort t) =
     (case prepared t of None \<Rightarrow> (prepared, locks) | Some ops \<Rightarrow> (prepared(t := None), locks_remove ops locks))"
| "twopc_replay st _ = st"

definition twopc_replay_index ::
  "raft_log \<Rightarrow> (u64 \<rightharpoonup> write_op list) \<times> (key \<rightharpoonup> u64) \<Rightarrow> u64 \<Rightarrow> (u64 \<rightharpoonup> write_op list) \<times> (key \<rightharpoonup> u64)"
where
  "twopc_replay_index l st i =
     (case rl_entry l i of
        None \<Rightarrow> st
      | Some e \<Rightarrow> (case decode_cmd (le_command e) of Inl _ \<Rightarrow> st | Inr cmd \<Rightarrow> twopc_replay st cmd))"

definition twopc_recover_from_raft_log :: "raft_log \<Rightarrow> engine_shard \<Rightarrow> unit result \<times> engine_shard" where
  "twopc_recover_from_raft_log l s =
     (if es_closed s then (Inl (Engine ''engine is closed''), s)
      else
        let (prepared, locks) = foldl (twopc_replay_index l) (Map.empty, Map.empty)
              (u64_range (sat_add (sm_index (rl_snapshot l)) 1) (rl_last_index l))
        in (Inr (), s\<lparr>es_prepared := prepared, es_locks := locks\<rparr>))"

section \<open>The engine meets the contract of a participant\<close>

lemma propose_twopc_cases:
  obtains (failed) e eg where "propose_twopc xxh io c s = (Inl e, s\<lparr>es_engine := eg\<rparr>)"
  | (applied) eg where "propose_twopc xxh io c s = (Inr (), apply_twopc_side_effect c (s\<lparr>es_engine := eg, es_trace := es_trace s @ [c]\<rparr>))"
  by (cases "engine_propose xxh io c (es_engine s)"; cases "fst (engine_propose xxh io c (es_engine s))") (auto simp: propose_twopc_def)

lemma side_effect_trace [simp]: "es_trace (apply_twopc_side_effect c s) = es_trace s"
  by (cases c) (auto simp: note_committed_keys_def split: option.splits)

lemma twopc_prepare_view:
  "twopc_prepare xxh io t read_ts ws rd s = (r, s') \<Longrightarrow>
     (es_prepared s' = (es_prepared s)(t \<mapsto> ws) \<and> es_trace s' = es_trace s @ [CmdTxnPrepare t read_ts ws]) \<or>
     (\<exists>e. r = Inl e) \<and> es_prepared s' = es_prepared s \<and> es_trace s' = es_trace s"
  by (rule propose_twopc_cases [of xxh io "CmdTxnPrepare t read_ts ws" "s\<lparr>es_locks := locks_insert t ws (es_locks s)\<rparr>"];
      cases "occ_validate (es_last_commit s) read_ts rd ws"; cases r)
    (auto simp: twopc_prepare_def split: if_splits sum.splits)

lemma twopc_commit_view:
  "twopc_commit xxh io t ts s = (r, s') \<Longrightarrow>
     (\<exists>ws. r = Inr () \<and> es_prepared s t = Some ws \<and> es_prepared s' = (es_prepared s)(t := None) \<and> es_trace s' = es_trace s @ [CmdTxnCommit t ts ws]) \<or>
     (\<exists>e. r = Inl e) \<and> es_prepared s' = es_prepared s \<and> es_trace s' = es_trace s"
  by (rule propose_twopc_cases [of xxh io "CmdTxnCommit t ts (the (es_prepared s t))" s])
    (auto simp: twopc_commit_def note_committed_keys_def split: if_splits option.splits)

lemma twopc_abort_view:
  "twopc_abort xxh io t s = (r, s') \<Longrightarrow>
     (r = Inr () \<and> es_prepared s' = (es_prepared s)(t := None) \<and> es_trace s' = es_trace s @ [CmdTxnAbort t]) \<or>
     (\<exists>e. r = Inl e) \<and> es_prepared s' = es_prepared s \<and> es_trace s' = es_trace s"
  by (rule propose_twopc_cases [of xxh io "CmdTxnAbort t" s])
    (auto simp: twopc_abort_def fun_eq_iff split: if_splits option.splits)

interpretation engine_part: shard_participant "engine_ops xxh io pools" es_prepared es_trace "\<lambda>_. True"
  by unfold_locales
    (auto simp: engine_ops_def twopc_orphaned_prepared_def dest!: twopc_prepare_view twopc_commit_view twopc_abort_view)

context versioned_read
begin

lemma older_version_invisible:
  assumes "inv s" "inv s'" "versions s' = insert e (versions s)"
    and "e' \<in> versions s" "e_key e' = k" "e_seq e < e_seq e'" "e_seq e' \<le> ts"
  shows "get_at s' k ts = get_at s k ts"
proof (rule get_at_eqI [OF assms(2)])
  have N: "newest (versions s) k ts (get_at s k ts)" by (rule read_newest [OF assms(1)])
  obtain r where r: "get_at s k ts = Some r" using N assms(4,5,7) by (cases "get_at s k ts") auto
  note D = newest_SomeD [OF N [unfolded r]]
  have "e_seq e' \<le> e_seq r" using N assms(4,5,7) unfolding r newest_def by simp
  then have "e_seq e < e_seq r" using assms(6) by simp
  then show "newest (versions s') k ts (get_at s k ts)"
    using N unfolding r assms(3) newest_def by auto
qed

end

lemma mem_older_invisible:
  assumes "mt_inv m" "e \<in> mt_versions m" "e_key e = k" "e_seq e \<le> ts" "\<forall>x \<in> set es. e_seq x < e_seq e"
  shows "mt_get_at (foldl mt_apply m es) k ts = mt_get_at m k ts"
  using assms(1,2,5)
proof (induction es arbitrary: m)
  case (Cons x es)
  have inv: "mt_inv (mt_apply m x)" using Cons.prems(1) by (rule mt_inv_apply)
  have v: "mt_versions (mt_apply m x) = mt_versions m \<or> mt_versions (mt_apply m x) = insert x (mt_versions m)"
    using mt_versions_apply [OF Cons.prems(1), of x] by simp
  then have "mt_get_at (mt_apply m x) k ts = mt_get_at m k ts"
  proof
    assume "mt_versions (mt_apply m x) = mt_versions m"
    then show ?thesis by (rule mem_read.same_versions_same_reads [OF Cons.prems(1) inv])
  next
    assume "mt_versions (mt_apply m x) = insert x (mt_versions m)"
    then show ?thesis
      by (rule mem_read.older_version_invisible [OF Cons.prems(1) inv]) (use Cons.prems assms(3,4) in auto)
  qed
  moreover have "e \<in> mt_versions (mt_apply m x)" using v Cons.prems(2) by auto
  ultimately show ?case using Cons.IH [OF inv] Cons.prems(3) by simp
qed simp

lemma op_entry_seq [simp]: "e_seq (op_entry ts op) = ts"
  by (cases "snd op") (simp_all add: op_entry_def entry_put_def entry_delete_def)

lemma twopc_commit_engine:
  assumes "twopc_commit xxh io t ts s = (Inr (), s')" "es_prepared s t = Some ws"
  shows "eg_mem (es_engine s') = foldl mt_apply (eg_mem (es_engine s)) (map (op_entry ts) ws)" "eg_mgr (es_engine s') = eg_mgr (es_engine s)"
    "es_closed s' = es_closed s"
  using assms
  by (auto simp: twopc_commit_def propose_twopc_def engine_propose_def engine_submit_def note_committed_keys_def Let_def
      split: if_splits prod.splits sum.splits option.splits)

section \<open>Properties\<close>



text \<open>
  C13. Log compaction forgets prepared transactions. Recovery on a distributed node reads the log
  behind the snapshot only: once the log is compacted through an index, a transaction whose
  prepare record is not behind it is no longer prepared after recovery, although the record was
  acknowledged to the coordinator and the snapshot does not carry it.
\<close>

theorem compaction_forgets_prepared:
  assumes "rl_compact_through xxh l index trm = (l', Inr ())" "sm_index (rl_snapshot l) < index"
    and "\<forall>e \<in> set (rl_entries l). index < le_index e \<longrightarrow> (\<forall>read_ts ops. decode_cmd (le_command e) \<noteq> Inr (CmdTxnPrepare t read_ts ops))"
    and "\<not> es_closed s"
  shows "fst (twopc_recover_from_raft_log l' s) = Inr () \<and> es_prepared (snd (twopc_recover_from_raft_log l' s)) t = None"
proof -
  have l': "rl_entries l' = filter (\<lambda>e. index < le_index e) (rl_entries l)"
    using assms(1,2) by (auto simp: rl_compact_through_def rl_rewrite_def Let_def split: if_splits sum.splits)
  have replay: "fst (twopc_replay st c) t = None" if p: "fst st t = None" and c: "\<forall>read_ts ops. c \<noteq> CmdTxnPrepare t read_ts ops" for st c
    using p c by (cases "(st, c)" rule: twopc_replay.cases) (auto split: option.splits)
  have step: "fst (twopc_replay_index l' st i) t = None" if p: "fst st t = None" for st i
  proof (cases "rl_entry l' i")
    case (Some e)
    then have "e \<in> set (rl_entries l')" by (auto simp: rl_entry_def find_Some_iff)
    then have "\<forall>read_ts ops. decode_cmd (le_command e) \<noteq> Inr (CmdTxnPrepare t read_ts ops)" using assms(3) by (simp add: l')
    then show ?thesis using replay [OF p] Some p by (auto simp: twopc_replay_index_def split: sum.split)
  qed (use p in \<open>simp add: twopc_replay_index_def\<close>)
  have "fst (foldl (twopc_replay_index l') st is) t = None" if "fst st t = None" for st "is"
    using that by (induction "is" arbitrary: st) (simp_all add: step)
  from this [of "(Map.empty, Map.empty)"] show ?thesis
    using assms(4) by (simp add: twopc_recover_from_raft_log_def split_beta)
qed

definition example_prepare :: raft_command where
  "example_prepare = CmdTxnPrepare 7 3 [([98], Some [5])]"

theorem compaction_forgets_prepared_witness:
  "\<exists>(l :: raft_log) l' bs (s :: engine_shard). encode_cmd example_prepare = Inr bs \<and>
     rl_entries l = [\<lparr>le_term = 1, le_index = 1, le_command = bs\<rparr>] \<and> rl_compact_through (\<lambda>_. 11) l 1 1 = (l', Inr ()) \<and>
     es_prepared (snd (twopc_recover_from_raft_log l s)) 7 = Some [([98], Some [5])] \<and>
     es_prepared (snd (twopc_recover_from_raft_log l' s)) 7 = None"
proof -
  obtain bs where bs: "encode_cmd example_prepare = Inr bs"
    by (simp add: example_prepare_def encode_kv_def encode_ops_body_def encode_op_def)
  have dec: "decode_cmd bs = Inr example_prepare" by (rule decode_encode_cmd [OF _ bs]) (simp add: example_prepare_def)
  let ?l = "\<lparr>rl_entries = [\<lparr>le_term = 1, le_index = 1, le_command = bs\<rparr>], rl_snapshot = no_snapshot,
    rl_wal = \<lparr>df_bytes = [], df_synced = 0\<rparr>, rl_tmp = None, rl_meta = None\<rparr> :: raft_log"
  obtain l' where c: "rl_compact_through (\<lambda>_. 11) ?l 1 1 = (l', Inr ())"
    by (auto simp: rl_compact_through_def rl_rewrite_def no_snapshot_def wal_create_def Let_def)
  fix s0 :: engine_shard
  let ?s = "s0\<lparr>es_closed := False\<rparr>"
  have "es_prepared (snd (twopc_recover_from_raft_log l' ?s)) 7 = None"
    using compaction_forgets_prepared [OF c, of 7 ?s] by (simp add: no_snapshot_def)
  moreover have "es_prepared (snd (twopc_recover_from_raft_log ?l ?s)) 7 = Some [([98], Some [5])]"
    by (simp add: twopc_recover_from_raft_log_def no_snapshot_def rl_last_index_def u64_range_def sat_add_def twopc_replay_index_def rl_entry_def dec
        example_prepare_def upt_rec)
  ultimately show ?thesis using bs c by (intro exI [of _ ?l] exI [of _ l'] exI [of _ bs] exI [of _ ?s]) simp
qed

end
