(* ===== verification/Txn.thy ===== *)
theory Txn
  imports Engine_Wal Epoch
begin

text \<open>
  Local transactions: the workspace of \<open>txn.rs\<close>, the registry of serializable readers, and the
  transaction operations of the engine (\<open>engine.rs\<close>): begin, validation, commit, end and plain
  writes. The engine is the one of \<open>Engine_Wal\<close> with the indices the transactions use. The outcome
  of admission and of the transactional log are arguments; the caches of B-Tree tables, table
  statistics and vector indexes that follow a commit are not modelled, nor is the replicated path.
\<close>

section \<open>Workspaces\<close>

datatype isolation_level = Snapshot | Serializable

definition isolation_from_guc :: "string \<Rightarrow> isolation_level" where
  "isolation_from_guc v =
     (if map (\<lambda>c. if of_char c \<in> {65 .. 90 :: nat} then char_of (of_char c + 32 :: nat) else c) v = ''serializable'' then Serializable else Snapshot)"

definition is_serializable :: "isolation_level \<Rightarrow> bool" where
  "is_serializable l = (l = Serializable)"

datatype txn_write = TwPut val | TwDelete

record transaction =
  tx_id :: u64
  tx_read_ts :: commit_ts
  tx_isolation :: isolation_level
  tx_reads :: "(key \<times> commit_ts) list"
  tx_writes :: "(key \<times> txn_write) list"
  tx_finished :: bool

text \<open>The registry of serializable transactions: the keys each has read, and whether it is doomed.\<close>

type_synonym ssi_registry = "u64 \<Rightarrow> (key set \<times> bool) option"

definition ssi_register :: "u64 \<Rightarrow> ssi_registry \<Rightarrow> ssi_registry" where
  "ssi_register i r = (case r i of None \<Rightarrow> r(i \<mapsto> ({}, False)) | Some _ \<Rightarrow> r)"

definition ssi_note_read :: "u64 \<Rightarrow> key \<Rightarrow> ssi_registry \<Rightarrow> ssi_registry" where
  "ssi_note_read i k r = (case r i of None \<Rightarrow> r | Some (ks, doomed) \<Rightarrow> r(i \<mapsto> (insert k ks, doomed)))"

definition ssi_is_doomed :: "u64 \<Rightarrow> ssi_registry \<Rightarrow> bool" where
  "ssi_is_doomed i r = (case r i of None \<Rightarrow> False | Some (_, doomed) \<Rightarrow> doomed)"

definition doom_concurrent_readers :: "u64 \<Rightarrow> key list \<Rightarrow> ssi_registry \<Rightarrow> ssi_registry" where
  "doom_concurrent_readers writer ks r =
     (if ks = [] then r
      else (\<lambda>i. case r i of
                  None \<Rightarrow> None
                | Some (reads, doomed) \<Rightarrow> Some (reads, doomed \<or> i \<noteq> writer \<and> list_ex (\<lambda>k. k \<in> reads) ks)))"

definition ssi_unregister :: "u64 \<Rightarrow> ssi_registry \<Rightarrow> ssi_registry" where
  "ssi_unregister i r = r(i := None)"

section \<open>The engine's part\<close>

record txn_engine =
  te_engine :: engine
  te_last_applied :: u64
  te_last_commit :: "key \<Rightarrow> commit_ts option"
  te_ssi :: ssi_registry
  te_tracker :: epoch_manager
  te_closed :: bool

text \<open>A proposal to the embedded node and the applied index it leaves.\<close>

definition te_propose :: "(bytes \<Rightarrow> u64) \<Rightarrow> nat option \<Rightarrow> raft_command \<Rightarrow> txn_engine \<Rightarrow> u64 result \<times> txn_engine" where
  "te_propose xxh io cmd te =
     (case engine_propose xxh io cmd (te_engine te) of
        (Inl e, eg) \<Rightarrow> (Inl e, te\<lparr>te_engine := eg\<rparr>)
      | (Inr i, eg) \<Rightarrow>
          let seqs = (if is_meta cmd then [i] else case to_entries cmd i of Inl _ \<Rightarrow> [] | Inr es \<Rightarrow> map e_seq es)
          in (Inr i, te\<lparr>te_engine := eg, te_last_applied := foldl max (te_last_applied te) seqs\<rparr>))"

definition note_committed :: "key list \<Rightarrow> commit_ts \<Rightarrow> txn_engine \<Rightarrow> txn_engine" where
  "note_committed ks ts te = te\<lparr>te_last_commit := foldl (\<lambda>l k. l(k \<mapsto> ts)) (te_last_commit te) ks\<rparr>"

definition te_begin :: "isolation_level \<Rightarrow> txn_engine \<Rightarrow> (transaction \<times> txn_engine) result" where
  "te_begin lvl te =
     (if te_closed te then Inl (Engine ''engine is closed'')
      else
        let read_ts = min (te_last_applied te) (sat_sub u64_max 1);
            (tracker, i) = em_begin (te_tracker te) read_ts;
            ssi = (if is_serializable lvl then ssi_register i (te_ssi te) else te_ssi te)
        in Inr (\<lparr>tx_id = i, tx_read_ts = read_ts, tx_isolation = lvl, tx_reads = [], tx_writes = [], tx_finished = False\<rparr>,
                te\<lparr>te_tracker := tracker, te_ssi := ssi\<rparr>))"

definition end_transaction :: "u64 \<Rightarrow> txn_engine \<Rightarrow> txn_engine" where
  "end_transaction i te = te\<lparr>te_ssi := ssi_unregister i (te_ssi te), te_tracker := em_end (te_tracker te) i\<rparr>"

definition te_read ::
  "(bytes \<Rightarrow> u64) \<Rightarrow> (sst_reader \<Rightarrow> page_source) \<Rightarrow> key \<Rightarrow> commit_ts \<Rightarrow> txn_engine \<Rightarrow> (val option \<times> commit_ts) result"
where
  "te_read xxh pools k ts te =
     (if te_closed te then Inl (Engine ''engine is closed'')
      else get_at_with_ts xxh pools (eg_mem (te_engine te)) (\<lambda>_. eg_mgr (te_engine te)) k ts)"

text \<open>The validation and the operations of the command.\<close>

definition txn_ops :: "(key \<times> txn_write) list \<Rightarrow> write_op list" where
  "txn_ops writes = map (\<lambda>(k, w). (k, case w of TwPut v \<Rightarrow> Some v | TwDelete \<Rightarrow> None)) writes"

definition committed_after :: "(key \<rightharpoonup> commit_ts) \<Rightarrow> commit_ts \<Rightarrow> key \<Rightarrow> bool" where
  "committed_after last_commit read_ts k = (case last_commit k of None \<Rightarrow> False | Some ts \<Rightarrow> read_ts < ts)"

datatype admission_outcome = Acquired | TimedOut

definition prepare_txn_commit ::
  "admission_outcome result \<Rightarrow> transaction \<Rightarrow> txn_engine \<Rightarrow> write_op list result \<times> txn_engine"
where
  "prepare_txn_commit admit tx te =
     (if list_ex (committed_after (te_last_commit te) (tx_read_ts tx)) (map fst (tx_reads tx) @ map fst (tx_writes tx))
      then (Inl (Conflict ''key committed after read_ts''), end_transaction (tx_id tx) te)
      else case admit of
             Inl e \<Rightarrow> (Inl e, te)
           | Inr TimedOut \<Rightarrow> (Inl (Admission ''timed out waiting for write admission''), end_transaction (tx_id tx) te)
           | Inr Acquired \<Rightarrow> (Inr (txn_ops (tx_writes tx)), te))"

text \<open>A flush runs when the memtable has reached its size.\<close>

definition maybe_flush :: "engine_env \<Rightarrow> nat \<Rightarrow> txn_engine \<Rightarrow> unit result \<times> txn_engine" where
  "maybe_flush ev limit te =
     (if limit \<le> approx_size (eg_mem (te_engine te))
      then case engine_flush ev (te_engine te) of (r, eg) \<Rightarrow> (r, te\<lparr>te_engine := eg\<rparr>)
      else (Inr (), te))"

text \<open>What a commit depends on outside: admission, the transactional log, the log device and the flush.\<close>

record commit_env =
  ce_admit :: "admission_outcome result"
  ce_txn_wal :: "unit result"
  ce_io :: "nat option"
  ce_flush :: engine_env
  ce_limit :: nat

definition commit_transaction :: "commit_env \<Rightarrow> transaction \<Rightarrow> txn_engine \<Rightarrow> commit_ts result \<times> txn_engine" where
  "commit_transaction ce tx te =
     (if te_closed te then (Inl (Engine ''engine is closed''), te)
      else if tx_writes tx = [] then (Inr (tx_read_ts tx), end_transaction (tx_id tx) te)
      else if is_serializable (tx_isolation tx) \<and> ssi_is_doomed (tx_id tx) (te_ssi te)
      then (Inl (Conflict ''SSI conflict: concurrent write to a key this transaction read (write-skew / rw-antidependency)''), end_transaction (tx_id tx) te)
      else case prepare_txn_commit (ce_admit ce) tx te of
             (Inl e, te) \<Rightarrow> (Inl e, te)
           | (Inr ops, te) \<Rightarrow>
               let te = (if is_serializable (tx_isolation tx)
                         then te\<lparr>te_ssi := doom_concurrent_readers (tx_id tx) (map fst (tx_writes tx)) (te_ssi te)\<rparr> else te)
               in case ce_txn_wal ce of
                    Inl e \<Rightarrow> (Inl e, te)
                  | Inr _ \<Rightarrow>
                      (case te_propose (ev_xxh (ce_flush ce)) (ce_io ce) (CmdTxnBatch ops) te of
                         (Inl e, te) \<Rightarrow> (Inl e, te)
                       | (Inr ts, te) \<Rightarrow>
                           (case maybe_flush (ce_flush ce) (ce_limit ce) (note_committed (map fst (tx_writes tx)) ts te) of
                              (Inl e, te) \<Rightarrow> (Inl e, te)
                            | (Inr _, te) \<Rightarrow> (Inr ts, end_transaction (tx_id tx) te))))"

text \<open>A plain write: proposed and applied first, noted for the validation afterwards, without the commit lock.\<close>

definition cmd_keys :: "raft_command \<Rightarrow> key list" where
  "cmd_keys cmd = (case cmd of CmdPut k _ \<Rightarrow> [k] | CmdDelete k \<Rightarrow> [k] | CmdTxnBatch ops \<Rightarrow> map fst ops | CmdTxnCommit _ _ ops \<Rightarrow> map fst ops | _ \<Rightarrow> [])"

definition te_write :: "commit_env \<Rightarrow> raft_command \<Rightarrow> txn_engine \<Rightarrow> unit result \<times> txn_engine" where
  "te_write ce cmd te =
     (case ce_admit ce of
        Inl e \<Rightarrow> (Inl e, te)
      | Inr TimedOut \<Rightarrow> (Inl (Admission ''timed out waiting for write admission''), te)
      | Inr Acquired \<Rightarrow>
          if te_closed te then (Inl (Engine ''engine is closed''), te)
          else case te_propose (ev_xxh (ce_flush ce)) (ce_io ce) cmd te of
                 (Inl e, te) \<Rightarrow> (Inl e, te)
               | (Inr ts, te) \<Rightarrow> maybe_flush (ce_flush ce) (ce_limit ce) (note_committed (cmd_keys cmd) ts te))"

section \<open>Operations of a transaction\<close>

definition tx_touch ::
  "(bytes \<Rightarrow> u64) \<Rightarrow> (sst_reader \<Rightarrow> page_source) \<Rightarrow> key \<Rightarrow> transaction \<Rightarrow> txn_engine \<Rightarrow> unit result \<times> transaction \<times> txn_engine"
where
  "tx_touch xxh pools k tx te =
     (if map_of (tx_reads tx) k \<noteq> None then (Inr (), tx, te)
      else case te_read xxh pools k (tx_read_ts tx) te of
             Inl e \<Rightarrow> (Inl e, tx, te)
           | Inr (_, seen) \<Rightarrow>
               (Inr (), tx\<lparr>tx_reads := bt_insert k seen (tx_reads tx)\<rparr>,
                if is_serializable (tx_isolation tx) then te\<lparr>te_ssi := ssi_note_read (tx_id tx) k (te_ssi te)\<rparr> else te))"

definition tx_get ::
  "(bytes \<Rightarrow> u64) \<Rightarrow> (sst_reader \<Rightarrow> page_source) \<Rightarrow> key \<Rightarrow> transaction \<Rightarrow> txn_engine \<Rightarrow> val option result \<times> transaction \<times> txn_engine"
where
  "tx_get xxh pools k tx te =
     (if tx_finished tx then (Inl (Engine ''transaction already finished''), tx, te)
      else case map_of (tx_writes tx) k of
             Some (TwPut v) \<Rightarrow> (Inr (Some v), tx, te)
           | Some TwDelete \<Rightarrow> (Inr None, tx, te)
           | None \<Rightarrow>
               (case te_read xxh pools k (tx_read_ts tx) te of
                  Inl e \<Rightarrow> (Inl e, tx, te)
                | Inr (v, seen) \<Rightarrow>
                    (Inr v, if map_of (tx_reads tx) k = None then tx\<lparr>tx_reads := bt_insert k seen (tx_reads tx)\<rparr> else tx,
                     if is_serializable (tx_isolation tx) then te\<lparr>te_ssi := ssi_note_read (tx_id tx) k (te_ssi te)\<rparr> else te)))"

definition tx_write ::
  "(bytes \<Rightarrow> u64) \<Rightarrow> (sst_reader \<Rightarrow> page_source) \<Rightarrow> key \<Rightarrow> txn_write \<Rightarrow> transaction \<Rightarrow> txn_engine \<Rightarrow> unit result \<times> transaction \<times> txn_engine"
where
  "tx_write xxh pools k w tx te =
     (if tx_finished tx then (Inl (Engine ''transaction already finished''), tx, te)
      else case tx_touch xxh pools k tx te of
             (Inl e, tx, te) \<Rightarrow> (Inl e, tx, te)
           | (Inr _, tx, te) \<Rightarrow> (Inr (), tx\<lparr>tx_writes := bt_insert k w (tx_writes tx)\<rparr>, te))"

definition tx_put where
  "tx_put xxh pools k v = tx_write xxh pools k (TwPut v)"

definition tx_delete where
  "tx_delete xxh pools k = tx_write xxh pools k TwDelete"

text \<open>\<open>commit\<close> consumes the transaction: when it fails before ending it, dropping it ends it.\<close>

definition tx_commit :: "commit_env \<Rightarrow> transaction \<Rightarrow> txn_engine \<Rightarrow> commit_ts result \<times> txn_engine" where
  "tx_commit ce tx te =
     (if tx_finished tx then (Inl (Engine ''transaction already finished''), te)
      else case commit_transaction ce tx te of
             (Inr ts, te) \<Rightarrow> (Inr ts, te)
           | (Inl e, te) \<Rightarrow> (Inl e, end_transaction (tx_id tx) te))"

definition tx_abort :: "transaction \<Rightarrow> txn_engine \<Rightarrow> txn_engine" where
  "tx_abort tx te = (if tx_finished tx then te else end_transaction (tx_id tx) te)"

section \<open>Runs of transactions\<close>

text \<open>
  Any number of transactions side by side with plain writes and flushes. \<open>ts_acked\<close> are the
  versions written so far, \<open>ts_done\<close> the committed transactions with the timestamps they got. The
  log device works and flushes succeed; a plain write is one step, a commit runs under the commit
  lock.
\<close>

record tsys =
  ts_te :: txn_engine
  ts_open :: "u64 \<Rightarrow> transaction option"
  ts_acked :: "entry list"
  ts_done :: "(transaction \<times> commit_ts) list"

inductive tstep :: "(bytes \<Rightarrow> u64) \<Rightarrow> (sst_reader \<Rightarrow> page_source) \<Rightarrow> tsys \<Rightarrow> tsys \<Rightarrow> bool" for xxh pools where
  t_begin: "te_begin lvl (ts_te s) = Inr (tx, te) \<Longrightarrow> tstep xxh pools s (s\<lparr>ts_te := te, ts_open := (ts_open s)(tx_id tx \<mapsto> tx)\<rparr>)"
| t_get: "ts_open s i = Some tx \<Longrightarrow> tx_get xxh pools k tx (ts_te s) = (r, tx', te) \<Longrightarrow>
    tstep xxh pools s (s\<lparr>ts_te := te, ts_open := (ts_open s)(i \<mapsto> tx')\<rparr>)"
| t_write: "ts_open s i = Some tx \<Longrightarrow> tx_write xxh pools k w tx (ts_te s) = (r', tx', te) \<Longrightarrow>
    tstep xxh pools s (s\<lparr>ts_te := te, ts_open := (ts_open s)(i \<mapsto> tx')\<rparr>)"
| t_commit: "ts_open s i = Some tx \<Longrightarrow> ce_io ce = None \<Longrightarrow> ev_xxh (ce_flush ce) = xxh \<Longrightarrow> eg_next_seq (te_engine (ts_te s)) < u64_max \<Longrightarrow>
    tx_commit ce tx (ts_te s) = (Inr c, te) \<Longrightarrow>
    tstep xxh pools s (s\<lparr>ts_te := te, ts_open := (ts_open s)(i := None), ts_acked := ts_acked s @ map (op_entry c) (txn_ops (tx_writes tx)),
      ts_done := ts_done s @ [(tx, c)]\<rparr>)"
| t_commit_fails: "ts_open s i = Some tx \<Longrightarrow> tx_commit ce tx (ts_te s) = (Inl e, te) \<Longrightarrow> te_engine te = te_engine (ts_te s) \<Longrightarrow>
    tstep xxh pools s (s\<lparr>ts_te := te, ts_open := (ts_open s)(i := None)\<rparr>)"
| t_abort: "ts_open s i = Some tx \<Longrightarrow> tstep xxh pools s (s\<lparr>ts_te := tx_abort tx (ts_te s), ts_open := (ts_open s)(i := None)\<rparr>)"
| t_plain: "cmd = CmdPut k v \<or> cmd = CmdDelete k \<Longrightarrow> ce_io ce = None \<Longrightarrow> ev_xxh (ce_flush ce) = xxh \<Longrightarrow> eg_next_seq (te_engine (ts_te s)) < u64_max \<Longrightarrow>
    te_write ce cmd (ts_te s) = (Inr (), te) \<Longrightarrow> to_entries cmd (eg_next_seq (te_engine (ts_te s))) = Inr es \<Longrightarrow>
    tstep xxh pools s (s\<lparr>ts_te := te, ts_acked := ts_acked s @ es\<rparr>)"
| t_flush: "engine_flush ev (te_engine (ts_te s)) = (Inr (), eg) \<Longrightarrow> ev_xxh ev = xxh \<Longrightarrow>
    tstep xxh pools s (s\<lparr>ts_te := (ts_te s)\<lparr>te_engine := eg\<rparr>\<rparr>)"

definition te_new :: "sst_manager \<Rightarrow> disk_file \<Rightarrow> txn_engine" where
  "te_new m w = \<lparr>te_engine = engine_new m w, te_last_applied = 0, te_last_commit = Map.empty, te_ssi = Map.empty, te_tracker = em_new, te_closed = False\<rparr>"

definition ts_new :: "sst_manager \<Rightarrow> disk_file \<Rightarrow> tsys" where
  "ts_new m w = \<lparr>ts_te = te_new m w, ts_open = Map.empty, ts_acked = [], ts_done = []\<rparr>"

text \<open>The timestamp of the version of \<open>k\<close> that a read at \<open>ts\<close> sees, 0 for none.\<close>

definition sees :: "entry set \<Rightarrow> key \<Rightarrow> commit_ts \<Rightarrow> commit_ts \<Rightarrow> bool" where
  "sees V k ts seen \<longleftrightarrow> (\<exists>v. newest V k ts v \<and> seen = (case v of None \<Rightarrow> 0 | Some e \<Rightarrow> e_seq e))"

lemma sees_later:
  assumes "sees V k ts seen" "\<forall>e \<in> W. ts < e_seq e"
  shows "sees (V \<union> W) k ts seen"
proof -
  obtain v where v: "newest V k ts v" "seen = (case v of None \<Rightarrow> 0 | Some e \<Rightarrow> e_seq e)" using assms(1) by (auto simp: sees_def)
  have "newest (V \<union> W) k ts v" using v(1) assms(2) by (cases v) (auto simp: newest_def)
  then show ?thesis using v(2) by (auto simp: sees_def)
qed

text \<open>With no version in between a read at two timestamps sees the same.\<close>

lemma sees_between:
  assumes "sees V k ts seen" "ts \<le> ts'" "\<forall>e \<in> V. e_key e = k \<longrightarrow> e_seq e \<le> ts"
  shows "sees V k ts' seen"
proof -
  obtain v where v: "newest V k ts v" "seen = (case v of None \<Rightarrow> 0 | Some e \<Rightarrow> e_seq e)" using assms(1) by (auto simp: sees_def)
  have "newest V k ts' v"
  proof (cases v)
    case None
    then show ?thesis using v(1) assms(3) by (fastforce simp: newest_def)
  next
    case (Some e)
    then show ?thesis using v(1) assms(2,3) by (force simp: newest_def)
  qed
  then show ?thesis using v(2) by (auto simp: sees_def)
qed

section \<open>The invariant of runs\<close>

text \<open>Where a committed transaction stands in the serial order: a reader at its snapshot, a writer just before its commit.\<close>

definition ser_point :: "transaction \<Rightarrow> commit_ts \<Rightarrow> commit_ts" where
  "ser_point tx c = (if tx_writes tx = [] then c else c - 1)"

definition reads_at :: "entry set \<Rightarrow> commit_ts \<Rightarrow> transaction \<Rightarrow> bool" where
  "reads_at V ts tx \<longleftrightarrow> (\<forall>(k, seen) \<in> set (tx_reads tx). sees V k ts seen)"

definition tx_ok :: "entry set \<Rightarrow> u64 \<Rightarrow> transaction \<Rightarrow> bool" where
  "tx_ok V next_seq tx \<longleftrightarrow> tx_read_ts tx < next_seq \<and> bt_sorted (tx_writes tx) \<and> reads_at V (tx_read_ts tx) tx"

definition done_ok :: "entry set \<Rightarrow> u64 \<Rightarrow> transaction \<times> commit_ts \<Rightarrow> bool" where
  "done_ok V next_seq d \<longleftrightarrow> ser_point (fst d) (snd d) < next_seq \<and> tx_ok V next_seq (fst d) \<and> reads_at V (ser_point (fst d) (snd d)) (fst d) \<and>
     op_entry (snd d) ` set (txn_ops (tx_writes (fst d))) \<subseteq> V"

definition versions_ok :: "txn_engine \<Rightarrow> entry list \<Rightarrow> bool" where
  "versions_ok te acked \<longleftrightarrow> 1 \<le> eg_next_seq (te_engine te) \<and> te_last_applied te < eg_next_seq (te_engine te) \<and> versions_unique (set acked) \<and>
     (\<forall>e \<in> set acked. e_seq e < eg_next_seq (te_engine te) \<and> (\<exists>ts. te_last_commit te (e_key e) = Some ts \<and> e_seq e \<le> ts))"

definition tsys_inv :: "(bytes \<Rightarrow> u64) \<Rightarrow> sst_manager \<Rightarrow> disk_file \<Rightarrow> tsys \<Rightarrow> bool" where
  "tsys_inv xxh m w s \<longleftrightarrow>
     (engine_step xxh)\<^sup>*\<^sup>* (engine_new m w, [], True) (te_engine (ts_te s), ts_acked s, True) \<and> versions_ok (ts_te s) (ts_acked s) \<and>
     (\<forall>i tx. ts_open s i = Some tx \<longrightarrow> tx_ok (set (ts_acked s)) (eg_next_seq (te_engine (ts_te s))) tx) \<and>
     (\<forall>d \<in> set (ts_done s). done_ok (set (ts_acked s)) (eg_next_seq (te_engine (ts_te s))) d)"

lemma reads_at_later: "reads_at V ts tx \<Longrightarrow> \<forall>e \<in> W. ts < e_seq e \<Longrightarrow> reads_at (V \<union> W) ts tx"
  unfolding reads_at_def using sees_later by fastforce

lemma tx_ok_later: "tx_ok V n tx \<Longrightarrow> \<forall>e \<in> W. n \<le> e_seq e \<Longrightarrow> n \<le> n' \<Longrightarrow> tx_ok (V \<union> W) n' tx"
  unfolding tx_ok_def using reads_at_later [of V "tx_read_ts tx" tx W] by (auto dest: less_le_trans)

lemma done_ok_later:
  assumes "done_ok V n d" "\<forall>e \<in> W. n \<le> e_seq e" "n \<le> n'"
  shows "done_ok (V \<union> W) n' d"
proof -
  have p: "ser_point (fst d) (snd d) < n" using assms(1) by (simp add: done_ok_def)
  then have "\<forall>e \<in> W. ser_point (fst d) (snd d) < e_seq e" using assms(2) by (meson less_le_trans)
  then have "reads_at (V \<union> W) (ser_point (fst d) (snd d)) (fst d)" using assms(1) reads_at_later by (simp add: done_ok_def)
  moreover have "tx_ok V n (fst d)" using assms(1) by (simp add: done_ok_def)
  then have "tx_ok (V \<union> W) n' (fst d)" using assms(2,3) by (rule tx_ok_later)
  ultimately show ?thesis using assms(1,3) p by (auto simp: done_ok_def)
qed

lemma engine_flush_seq: "engine_flush ev eg = (r, eg') \<Longrightarrow> eg_next_seq eg' = eg_next_seq eg"
  by (auto simp: engine_flush_def Let_def split: if_splits prod.splits sum.splits)

lemma foldl_max_same: "xs \<noteq> [] \<Longrightarrow> \<forall>x \<in> set xs. x = (c :: 'a :: linorder) \<Longrightarrow> foldl max a xs = max a c"
  by (induction xs rule: rev_nonempty_induct) (auto simp: max.assoc)

lemma note_committed_at: "te_last_commit (note_committed ks ts te) k = (if k \<in> set ks then Some ts else te_last_commit te k)"
proof -
  have "foldl (\<lambda>l k. l(k \<mapsto> ts)) l ks k = (if k \<in> set ks then Some ts else l k)" for l
    by (induction ks arbitrary: l) auto
  then show ?thesis by (simp add: note_committed_def)
qed

subsection \<open>Reads\<close>

lemma te_read_sees:
  assumes "store_inv xxh pools (te_engine te) acked" "te_read xxh pools k ts te = Inr (v, seen)"
  shows "sees (set acked) k ts seen"
proof -
  have inv: "lsm_inv xxh pools (eg_mem (te_engine te), eg_mgr (te_engine te))"
    and V: "lsm_versions xxh pools (eg_mem (te_engine te), eg_mgr (te_engine te)) = set acked"
    using assms(1) by (auto simp: store_inv_def)
  obtain r where "newest (set acked) k ts r" "lsm_get_at xxh pools (eg_mem (te_engine te)) (\<lambda>_. eg_mgr (te_engine te)) k ts = Inr r"
    using lsm_get_newest [OF inv, of k ts] V by auto
  then show ?thesis using assms(2) by (auto simp: te_read_def get_at_with_ts_def sees_def split: if_splits option.splits)
qed

lemma reads_at_insert:
  "reads_at V (tx_read_ts tx) tx \<Longrightarrow> sees V k (tx_read_ts tx) seen \<Longrightarrow>
     reads_at V (tx_read_ts tx) (tx\<lparr>tx_reads := bt_insert k seen (tx_reads tx)\<rparr>)"
  unfolding reads_at_def using set_bt_insert [of k seen "tx_reads tx"] by auto

text \<open>Two states that agree on everything but the registries of transactions.\<close>

definition te_same :: "txn_engine \<Rightarrow> txn_engine \<Rightarrow> bool" where
  "te_same te te' \<longleftrightarrow> te_engine te' = te_engine te \<and> te_last_applied te' = te_last_applied te \<and> te_last_commit te' = te_last_commit te"

lemma tx_get_ok:
  assumes "store_inv xxh pools (te_engine te) acked" "tx_ok (set acked) n tx" "tx_get xxh pools k tx te = (r, tx', te')"
  shows "tx_ok (set acked) n tx' \<and> te_same te te'"
  using assms(2,3) te_read_sees [OF assms(1)] reads_at_insert [of "set acked" tx k]
  by (auto simp: tx_get_def tx_ok_def te_same_def split: if_splits option.splits txn_write.splits sum.splits)

lemma tx_touch_ok:
  assumes "store_inv xxh pools (te_engine te) acked" "tx_ok (set acked) n tx" "tx_touch xxh pools k tx te = (r, tx', te')"
  shows "tx_ok (set acked) n tx' \<and> te_same te te'"
  using assms(2,3) te_read_sees [OF assms(1)] reads_at_insert [of "set acked" tx k]
  by (auto simp: tx_touch_def tx_ok_def te_same_def split: if_splits sum.splits)

lemma tx_write_ok:
  assumes "store_inv xxh pools (te_engine te) acked" "tx_ok (set acked) n tx" "tx_write xxh pools k wr tx te = (r, tx', te')"
  shows "tx_ok (set acked) n tx' \<and> te_same te te'"
proof (cases "tx_finished tx")
  case False
  obtain r1 tx1 te1 where t: "tx_touch xxh pools k tx te = (r1, tx1, te1)" using prod_cases3 by blast
  have "tx_ok (set acked) n (tx1\<lparr>tx_writes := bt_insert k wr (tx_writes tx1)\<rparr>)"
    using tx_touch_ok [OF assms(1,2) t] by (auto simp: tx_ok_def reads_at_def bt_sorted_insert)
  then show ?thesis using tx_touch_ok [OF assms(1,2) t] assms(3) t False by (auto simp: tx_write_def split: sum.splits)
qed (use assms in \<open>auto simp: tx_write_def te_same_def\<close>)

subsection \<open>Writes\<close>

abbreviation engine_run :: "(bytes \<Rightarrow> u64) \<Rightarrow> sst_manager \<Rightarrow> disk_file \<Rightarrow> txn_engine \<Rightarrow> entry list \<Rightarrow> bool" where
  "engine_run xxh m w te acked \<equiv> (engine_step xxh)\<^sup>*\<^sup>* (engine_new m w, [], True) (te_engine te, acked, True)"

lemma propose_index: "engine_propose xxh io cmd eg = (Inr c, eg') \<Longrightarrow> c = eg_next_seq eg \<and> eg_next_seq eg' = eg_next_seq eg + 1"
  by (auto simp: engine_propose_def engine_submit_def Let_def split: if_splits sum.splits option.splits prod.splits)

lemma u64_below_max:
  assumes "x < u64_max"
  shows "x < x + 1" "1 \<le> x + 1"
proof -
  have "unat x < 2 ^ 64 - 1" using assms by (simp add: word_less_nat_alt)
  then have "unat (x + 1) = unat x + 1" by (simp add: unat_word_ariths)
  then show "x < x + 1" "1 \<le> x + 1" by (simp_all add: word_less_nat_alt word_le_nat_alt)
qed

lemma u64_pred:
  assumes "1 \<le> (c :: u64)"
  shows "c - 1 < c" "x < c \<Longrightarrow> x \<le> c - 1"
proof -
  have "unat (c - 1) = unat c - 1" "1 \<le> unat c" using assms unat_sub [OF assms] by (simp_all add: word_le_nat_alt)
  then show "c - 1 < c" "x < c \<Longrightarrow> x \<le> c - 1" by (simp_all add: word_less_nat_alt word_le_nat_alt)
qed

lemma write_keeps:
  assumes run: "engine_run xxh m w te acked" and ok: "versions_ok te acked" and lt: "eg_next_seq (te_engine te) < u64_max"
    and p: "te_propose xxh None cmd te = (Inr c, te1)" "\<not> is_meta cmd" "to_entries cmd c = Inr es"
    and es: "\<forall>e \<in> set es. e_seq e = c" "distinct (map e_key es)" "e_key ` set es \<subseteq> set ks"
  shows "c = eg_next_seq (te_engine te) \<and> eg_next_seq (te_engine (note_committed ks c te1)) = c + 1 \<and> c < c + 1 \<and>
    engine_run xxh m w (note_committed ks c te1) (acked @ es) \<and> versions_ok (note_committed ks c te1) (acked @ es)"
proof -
  obtain eg where eg: "engine_propose xxh None cmd (te_engine te) = (Inr c, eg)"
    and te1: "te1 = te\<lparr>te_engine := eg, te_last_applied := foldl max (te_last_applied te) (map e_seq es)\<rparr>"
    using p by (auto simp: te_propose_def Let_def split: prod.splits sum.splits)
  have c: "c = eg_next_seq (te_engine te)" "eg_next_seq eg = c + 1" using propose_index [OF eg] by simp_all
  have lt1: "c < c + 1" "1 \<le> c + 1" using u64_below_max [OF lt] c(1) by simp_all
  have A: "\<forall>a \<in> set acked. e_seq a < c" and U: "versions_unique (set acked)" and L: "te_last_applied te < c"
    and N: "\<forall>e \<in> set acked. \<exists>ts. te_last_commit te (e_key e) = Some ts \<and> e_seq e \<le> ts"
    using ok c(1) by (auto simp: versions_ok_def)
  have "engine_run xxh m w (note_committed ks c te1) (acked @ es)"
    using run engine_step.ack [OF eg p(2,3), of acked True] by (simp add: te1 note_committed_def)
  moreover have "versions_unique (set (acked @ es))"
  proof -
    have "inj_on ikey (set es)" using es(1,2) by (auto simp: inj_on_def ikey_def distinct_map)
    moreover have "ikey ` set acked \<inter> ikey ` set es = {}" using A es(1) by (force simp: ikey_def)
    ultimately show ?thesis using U by (auto simp: versions_unique_def inj_on_Un)
  qed
  moreover have "foldl max (te_last_applied te) (map e_seq es) < c + 1"
  proof (cases "es = []")
    case False
    then have "foldl max (te_last_applied te) (map e_seq es) = max (te_last_applied te) c" using es(1) by (intro foldl_max_same) auto
    then show ?thesis using L lt1(1) by simp
  qed (use L lt1(1) in simp)
  moreover have "\<exists>ts. te_last_commit (note_committed ks c te1) (e_key e) = Some ts \<and> e_seq e \<le> ts" if e: "e \<in> set (acked @ es)" for e
  proof (cases "e_key e \<in> set ks")
    case True
    then have "e_seq e \<le> c" using e A es(1) by (auto intro: less_imp_le)
    then show ?thesis using True by (simp add: note_committed_at)
  next
    case False
    then have "e \<in> set acked" using e es(3) by auto
    then show ?thesis using False N by (simp add: note_committed_at te1)
  qed
  moreover have "e_seq e < c + 1" if "e \<in> set (acked @ es)" for e
    using that A es(1) lt1(1) by (auto intro: less_trans)
  ultimately show ?thesis using c lt1 by (simp add: versions_ok_def te1 note_committed_def)
qed

lemma flush_keeps:
  assumes "engine_run xxh m w te acked" "versions_ok te acked" "maybe_flush ev limit te = (Inr (), te')" "ev_xxh ev = xxh"
  shows "engine_run xxh m w te' acked \<and> versions_ok te' acked \<and> eg_next_seq (te_engine te') = eg_next_seq (te_engine te)"
proof (cases "limit \<le> approx_size (eg_mem (te_engine te))")
  case True
  then obtain eg where eg: "engine_flush ev (te_engine te) = (Inr (), eg)" "te' = te\<lparr>te_engine := eg\<rparr>"
    using assms(3) by (auto simp: maybe_flush_def split: prod.splits)
  have "engine_step xxh (te_engine te, acked, True) (eg, acked, True)"
    using engine_step.flush [OF eg(1) assms(4), of acked True] by simp
  then show ?thesis using assms(1,2) engine_flush_seq [OF eg(1)] by (auto simp: eg(2) versions_ok_def)
qed (use assms in \<open>auto simp: maybe_flush_def\<close>)

subsection \<open>Commits\<close>

lemma end_transaction_fields [simp]:
  "te_engine (end_transaction i te) = te_engine te" "te_last_applied (end_transaction i te) = te_last_applied te"
  "te_last_commit (end_transaction i te) = te_last_commit te" "te_closed (end_transaction i te) = te_closed te"
  by (simp_all add: end_transaction_def)

lemma versions_ok_cong:
  "te_engine te' = te_engine te \<Longrightarrow> te_last_applied te' = te_last_applied te \<Longrightarrow> te_last_commit te' = te_last_commit te \<Longrightarrow>
     versions_ok te' acked = versions_ok te acked"
  by (simp add: versions_ok_def)

lemma tx_commit_cases:
  assumes "tx_commit ce tx te = (Inr c, te')" "ce_io ce = None"
  obtains (read_only) "tx_writes tx = []" "c = tx_read_ts tx" "te' = end_transaction (tx_id tx) te"
  | (writes) ssi te1 te2 where "tx_writes tx \<noteq> []"
      "\<And>k ts. k \<in> fst ` set (tx_reads tx) \<Longrightarrow> te_last_commit te k = Some ts \<Longrightarrow> ts \<le> tx_read_ts tx"
      "te_propose (ev_xxh (ce_flush ce)) None (CmdTxnBatch (txn_ops (tx_writes tx))) (te\<lparr>te_ssi := ssi\<rparr>) = (Inr c, te1)"
      "maybe_flush (ce_flush ce) (ce_limit ce) (note_committed (map fst (tx_writes tx)) c te1) = (Inr (), te2)"
      "te' = end_transaction (tx_id tx) te2"
proof (cases "tx_writes tx = []")
  case True
  then show thesis using assms read_only by (auto simp: tx_commit_def commit_transaction_def split: if_splits prod.splits sum.splits)
next
  case False
  let ?te = "if is_serializable (tx_isolation tx) then te\<lparr>te_ssi := doom_concurrent_readers (tx_id tx) (map fst (tx_writes tx)) (te_ssi te)\<rparr> else te"
  obtain te1 te2 where c: "te_propose (ev_xxh (ce_flush ce)) None (CmdTxnBatch (txn_ops (tx_writes tx))) ?te = (Inr c, te1)"
    "maybe_flush (ce_flush ce) (ce_limit ce) (note_committed (map fst (tx_writes tx)) c te1) = (Inr (), te2)"
    "te' = end_transaction (tx_id tx) te2"
    "\<not> list_ex (committed_after (te_last_commit te) (tx_read_ts tx)) (map fst (tx_reads tx) @ map fst (tx_writes tx))"
    using assms False
    by (auto simp: tx_commit_def commit_transaction_def prepare_txn_commit_def Let_def
        split: if_splits prod.splits sum.splits admission_outcome.splits)
  have "ts \<le> tx_read_ts tx" if "k \<in> fst ` set (tx_reads tx)" "te_last_commit te k = Some ts" for k ts
  proof -
    have "\<not> committed_after (te_last_commit te) (tx_read_ts tx) k" using c(4) that(1) by (auto simp: list_ex_iff)
    then show ?thesis using that(2) by (simp add: committed_after_def not_less)
  qed
  then show thesis using writes [OF False _ _ c(2,3), of "te_ssi ?te"] c(1) by (cases "is_serializable (tx_isolation tx)") auto
qed

lemma txn_ops_keys: "map (e_key \<circ> op_entry c) (txn_ops ws) = map fst ws"
  by (induction ws) (auto simp: txn_ops_def op_entry_def entry_put_def entry_delete_def split: txn_write.splits)

lemma op_entry_at [simp]: "e_seq (op_entry c op) = c"
  by (simp add: op_entry_def entry_put_def entry_delete_def split: option.split)

lemma txn_commit_keeps:
  assumes run: "engine_run xxh m w te acked" and ok: "versions_ok te acked" and lt: "eg_next_seq (te_engine te) < u64_max"
    and tx: "tx_ok (set acked) (eg_next_seq (te_engine te)) tx" and ce: "ce_io ce = None" "ev_xxh (ce_flush ce) = xxh"
    and c: "tx_commit ce tx te = (Inr c, te')"
  shows "\<exists>n' es. es = map (op_entry c) (txn_ops (tx_writes tx)) \<and> n' = eg_next_seq (te_engine te') \<and> eg_next_seq (te_engine te) \<le> n' \<and>
    (\<forall>e \<in> set es. eg_next_seq (te_engine te) \<le> e_seq e) \<and>
    engine_run xxh m w te' (acked @ es) \<and> versions_ok te' (acked @ es) \<and> done_ok (set (acked @ es)) n' (tx, c)"
  using c ce(1)
proof (cases rule: tx_commit_cases)
  case read_only
  then show ?thesis using run ok tx by (auto simp: txn_ops_def done_ok_def ser_point_def tx_ok_def versions_ok_def)
next
  case (writes ssi te1 te2)
  let ?es = "map (op_entry c) (txn_ops (tx_writes tx))" and ?te = "te\<lparr>te_ssi := ssi\<rparr>" and ?n = "eg_next_seq (te_engine te)"
  have ks: "map e_key ?es = map fst (tx_writes tx)" using txn_ops_keys by simp
  have d: "distinct (map e_key ?es)" unfolding ks using tx by (auto simp: tx_ok_def bt_sorted_distinct)
  have pre: "engine_run xxh m w ?te acked" "versions_ok ?te acked" "eg_next_seq (te_engine ?te) < u64_max"
    "te_propose xxh None (CmdTxnBatch (txn_ops (tx_writes tx))) ?te = (Inr c, te1)"
    "\<not> is_meta (CmdTxnBatch (txn_ops (tx_writes tx)))" "to_entries (CmdTxnBatch (txn_ops (tx_writes tx))) c = Inr ?es"
    "\<forall>e \<in> set ?es. e_seq e = c"
    using run ok lt writes(3) ce(2) versions_ok_cong [of ?te te] by simp_all
  have keys: "e_key ` set ?es \<subseteq> set (map fst (tx_writes tx))" using arg_cong [OF ks, of set] by (simp add: image_image)
  have W: "engine_run xxh m w (note_committed (map fst (tx_writes tx)) c te1) (acked @ ?es)"
    "versions_ok (note_committed (map fst (tx_writes tx)) c te1) (acked @ ?es)"
    "eg_next_seq (te_engine (note_committed (map fst (tx_writes tx)) c te1)) = c + 1" and cn: "c = ?n" "c < c + 1"
    using write_keeps [OF pre d keys] by auto
  have F: "engine_run xxh m w te2 (acked @ ?es)" "versions_ok te2 (acked @ ?es)" "eg_next_seq (te_engine te2) = c + 1"
    using flush_keeps [OF W(1,2) writes(4) ce(2)] W(3) by simp_all
  have A: "\<forall>e \<in> set acked. e_seq e < c" and c1: "1 \<le> c" using ok cn(1) by (auto simp: versions_ok_def)
  have old: "e_seq e \<le> tx_read_ts tx" if "e \<in> set acked" "e_key e \<in> fst ` set (tx_reads tx)" for e
    using writes(2) [OF that(2)] ok that(1) by (force simp: versions_ok_def intro: order_trans)
  have "tx_read_ts tx \<le> c - 1" using tx cn(1) u64_pred [OF c1] by (simp add: tx_ok_def)
  then have "reads_at (set acked) (c - 1) tx"
    using tx old unfolding tx_ok_def reads_at_def by (force intro: sees_between)
  then have "reads_at (set (acked @ ?es)) (c - 1) tx"
    using reads_at_later [of "set acked" "c - 1" tx "set ?es"] u64_pred(1) [OF c1] by simp
  moreover have "tx_ok (set (acked @ ?es)) (c + 1) tx"
    using tx_ok_later [OF tx, of "set ?es" "c + 1"] cn by simp
  ultimately have "done_ok (set (acked @ ?es)) (c + 1) (tx, c)"
    using writes(1) u64_pred(1) [OF c1] cn(2) by (auto simp: done_ok_def ser_point_def)
  moreover have "versions_ok te' (acked @ ?es)" using F(2) versions_ok_cong [of te' te2] by (simp add: writes(5))
  moreover have "engine_run xxh m w te' (acked @ ?es)" "eg_next_seq (te_engine te') = c + 1" using F(1,3) by (simp_all add: writes(5))
  moreover have "?n \<le> c + 1" "\<forall>e \<in> set ?es. ?n \<le> e_seq e" using cn by simp_all
  ultimately show ?thesis by metis
qed

subsection \<open>Every step keeps the invariant\<close>

lemma te_begin_ok:
  assumes "te_begin lvl te = Inr (tx, te')" "versions_ok te acked"
  shows "tx_ok V (eg_next_seq (te_engine te)) tx \<and> te_same te te'"
proof -
  have "tx_read_ts tx \<le> te_last_applied te" "tx_reads tx = []" "tx_writes tx = []" "te_same te te'"
    using assms(1) by (auto simp: te_begin_def te_same_def Let_def split: if_splits prod.splits)
  then show ?thesis using assms(2) by (auto simp: tx_ok_def reads_at_def versions_ok_def bt_sorted_def)
qed

lemma maybe_flush_seq: "maybe_flush ev limit te = (r, te') \<Longrightarrow> eg_next_seq (te_engine te') = eg_next_seq (te_engine te)"
  by (auto simp: maybe_flush_def engine_flush_seq split: if_splits prod.splits)

lemma te_propose_seq: "te_propose xxh io cmd te = (Inr c, te') \<Longrightarrow> eg_next_seq (te_engine te') = eg_next_seq (te_engine te) + 1"
  using propose_index [of xxh io cmd "te_engine te"] by (auto simp: te_propose_def Let_def split: prod.splits sum.splits)

lemma te_propose_fails: "te_propose xxh io cmd te = (Inl e, te') \<Longrightarrow> te_last_applied te' = te_last_applied te \<and> te_last_commit te' = te_last_commit te"
  by (auto simp: te_propose_def Let_def split: prod.splits sum.splits)

lemma tx_commit_fails:
  assumes "tx_commit ce tx te = (Inl e, te')" "te_engine te' = te_engine te"
  shows "te_same te te'"
proof -
  have "eg_next_seq (te_engine te1) \<noteq> eg_next_seq (te_engine te)"
    if "te_propose xxh io cmd te0 = (Inr c, te2)" "te_engine te0 = te_engine te" "maybe_flush ev limit (note_committed ks c te2) = (r, te1)"
    for xxh io cmd te0 c te2 ev limit ks r te1
    using te_propose_seq [OF that(1)] maybe_flush_seq [OF that(3)] that(2) by (simp add: note_committed_def)
  then show ?thesis
    using assms te_propose_fails
    by (fastforce simp: te_same_def tx_commit_def commit_transaction_def prepare_txn_commit_def Let_def
        split: if_splits prod.splits sum.splits admission_outcome.splits)
qed

lemma tsys_invI:
  assumes "tsys_inv xxh m w s" "te_same (ts_te s) te"
    and "\<And>i tx. opn i = Some tx \<Longrightarrow> ts_open s i = Some tx \<or> tx_ok (set (ts_acked s)) (eg_next_seq (te_engine (ts_te s))) tx"
  shows "tsys_inv xxh m w (s\<lparr>ts_te := te, ts_open := opn\<rparr>)"
proof -
  have "tx_ok (set (ts_acked s)) (eg_next_seq (te_engine (ts_te s))) tx" if "opn i = Some tx" for i tx
    using assms(1) assms(3) [OF that] unfolding tsys_inv_def by blast
  then show ?thesis using assms(1,2) versions_ok_cong [of te "ts_te s"] by (simp add: tsys_inv_def te_same_def)
qed

lemma tsys_inv_grow:
  assumes "tsys_inv xxh m w s" "engine_run xxh m w te (ts_acked s @ es)" "versions_ok te (ts_acked s @ es)"
    and "\<forall>e \<in> set es. eg_next_seq (te_engine (ts_te s)) \<le> e_seq e" "eg_next_seq (te_engine (ts_te s)) \<le> eg_next_seq (te_engine te)"
    and "\<And>i tx. opn i = Some tx \<Longrightarrow> ts_open s i = Some tx" "\<forall>d \<in> set ds. done_ok (set (ts_acked s @ es)) (eg_next_seq (te_engine te)) d"
  shows "tsys_inv xxh m w (s\<lparr>ts_te := te, ts_open := opn, ts_acked := ts_acked s @ es, ts_done := ts_done s @ ds\<rparr>)"
proof -
  have "tx_ok (set (ts_acked s) \<union> set es) (eg_next_seq (te_engine te)) tx" if "opn i = Some tx" for i tx
    using assms(1) assms(6) [OF that] tx_ok_later [OF _ assms(4,5)] unfolding tsys_inv_def by blast
  moreover have "done_ok (set (ts_acked s) \<union> set es) (eg_next_seq (te_engine te)) d" if "d \<in> set (ts_done s)" for d
    using assms(1) that done_ok_later [OF _ assms(4,5)] unfolding tsys_inv_def by blast
  ultimately show ?thesis using assms(2,3,7) by (auto simp: tsys_inv_def)
qed

lemma tstep_keeps:
  assumes step: "tstep xxh pools s s'" and I: "tsys_inv xxh m w s"
    and init: "lsm_inv xxh pools (mt_new, m)" "all_files m = []" "pools_serve xxh pools" "length (ts_acked s) < 429496729"
  shows "tsys_inv xxh m w s'"
proof -
  let ?te = "ts_te s"
  have run: "engine_run xxh m w ?te (ts_acked s)" and ok: "versions_ok ?te (ts_acked s)"
    and opn: "\<And>i tx. ts_open s i = Some tx \<Longrightarrow> tx_ok (set (ts_acked s)) (eg_next_seq (te_engine ?te)) tx"
    using I by (auto simp: tsys_inv_def)
  have st: "store_inv xxh pools (te_engine ?te) (ts_acked s)"
    using engine_run_store [OF init(1-3) run] ok init(4) by (simp add: versions_ok_def)
  show ?thesis using step
  proof cases
    case (t_begin lvl tx te)
    then show ?thesis using te_begin_ok [OF t_begin(2) ok] by (auto intro!: tsys_invI [OF I] split: if_splits)
  next
    case (t_get i tx k r tx' te)
    then show ?thesis using tx_get_ok [OF st opn [OF t_get(2)] t_get(3)] by (auto intro!: tsys_invI [OF I] split: if_splits)
  next
    case (t_write i tx k wr r tx' te)
    then show ?thesis using tx_write_ok [OF st opn [OF t_write(2)] t_write(3)] by (auto intro!: tsys_invI [OF I] split: if_splits)
  next
    case (t_commit i tx ce c te)
    obtain es where es: "es = map (op_entry c) (txn_ops (tx_writes tx))" "eg_next_seq (te_engine ?te) \<le> eg_next_seq (te_engine te)"
      "\<forall>e \<in> set es. eg_next_seq (te_engine ?te) \<le> e_seq e" "engine_run xxh m w te (ts_acked s @ es)" "versions_ok te (ts_acked s @ es)"
      "done_ok (set (ts_acked s @ es)) (eg_next_seq (te_engine te)) (tx, c)"
      using txn_commit_keeps [OF run ok t_commit(5) opn [OF t_commit(2)] t_commit(3,4,6)] by blast
    show ?thesis unfolding t_commit(1) es(1) [symmetric]
      by (rule tsys_inv_grow [OF I es(4,5,3,2)]) (use es(6) in \<open>auto split: if_splits\<close>)
  next
    case (t_commit_fails i tx ce e te)
    then show ?thesis using tx_commit_fails [OF t_commit_fails(3,4)] by (auto intro!: tsys_invI [OF I] split: if_splits)
  next
    case (t_abort i tx)
    show ?thesis unfolding t_abort(1)
      by (rule tsys_invI [OF I]) (auto simp: tx_abort_def te_same_def split: if_splits)
  next
    case (t_plain cmd k v ce te es)
    obtain c te1 where p: "te_propose xxh None cmd ?te = (Inr c, te1)"
      and fl: "maybe_flush (ce_flush ce) (ce_limit ce) (note_committed (cmd_keys cmd) c te1) = (Inr (), te)"
      using t_plain(3,4,6) by (auto simp: te_write_def split: sum.splits admission_outcome.splits if_splits prod.splits)
    have c: "c = eg_next_seq (te_engine ?te)" using p propose_index [of xxh None cmd "te_engine ?te"]
      by (auto simp: te_propose_def Let_def split: prod.splits sum.splits)
    have es: "to_entries cmd c = Inr es" "\<not> is_meta cmd" "\<forall>e \<in> set es. e_seq e = c" "distinct (map e_key es)" "e_key ` set es \<subseteq> set (cmd_keys cmd)"
      using t_plain(2,7) c by (auto simp: cmd_keys_def entry_put_def entry_delete_def)
    have "engine_run xxh m w (note_committed (cmd_keys cmd) c te1) (ts_acked s @ es)" "versions_ok (note_committed (cmd_keys cmd) c te1) (ts_acked s @ es)"
      and n: "eg_next_seq (te_engine (note_committed (cmd_keys cmd) c te1)) = c + 1" "c < c + 1"
      using write_keeps [OF run ok t_plain(5) p es(2,1,3,4,5)] by auto
    from flush_keeps [OF this(1,2) fl t_plain(4)] n
    have "engine_run xxh m w te (ts_acked s @ es)" "versions_ok te (ts_acked s @ es)" "eg_next_seq (te_engine te) = c + 1" by auto
    then show ?thesis unfolding t_plain(1)
      using tsys_inv_grow [OF I, of te es "ts_open s" "[]"] es(3) c n(2) by simp
  next
    case (t_flush ev eg)
    have "engine_step xxh (te_engine ?te, ts_acked s, True) (eg, ts_acked s, True)"
      using engine_step.flush [OF t_flush(2,3), of "ts_acked s" True] by simp
    then show ?thesis using I t_flush engine_flush_seq [OF t_flush(2)] by (auto simp: tsys_inv_def versions_ok_def)
  qed
qed

lemma tstep_acked: "tstep xxh pools s s' \<Longrightarrow> length (ts_acked s) \<le> length (ts_acked s')"
  by (cases rule: tstep.cases) auto

lemma ts_new_inv: "tsys_inv xxh m w (ts_new m w)"
  by (simp add: tsys_inv_def ts_new_def te_new_def versions_ok_def versions_unique_def engine_new_def)

lemma trun_keeps:
  assumes "(tstep xxh pools)\<^sup>*\<^sup>* (ts_new m w) s" "lsm_inv xxh pools (mt_new, m)" "all_files m = []" "pools_serve xxh pools"
  shows "length (ts_acked s) < 429496729 \<longrightarrow> tsys_inv xxh m w s"
  using assms(1)
proof (induction rule: rtranclp_induct)
  case base
  show ?case using ts_new_inv by blast
next
  case (step s s')
  then show ?case using tstep_keeps [OF step.hyps(2) _ assms(2-4)] tstep_acked [OF step.hyps(2)] by simp
qed

section \<open>Properties\<close>


text \<open>One transaction that reads an absent key and writes it.\<close>

definition example_commit_env :: commit_env where
  "example_commit_env = \<lparr>ce_admit = Inr Acquired, ce_txn_wal = Inr (), ce_io = None, ce_flush = sample_env False, ce_limit = 1000\<rparr>"

lemma example_txn_run:
  assumes "fresh_manager m"
  shows "\<exists>s tx. (tstep (\<lambda>_. 11) (\<lambda>_. None))\<^sup>*\<^sup>* (ts_new m w) s \<and> ts_done s = [(tx, 1)] \<and> tx_reads tx = [([98], 0)] \<and>
    tx_writes tx = [([98], TwPut [2])] \<and> tx_read_ts tx = 0 \<and> ts_acked s = [sample_version 1]"
proof -
  let ?tx = "\<lparr>tx_id = 1, tx_read_ts = 0, tx_isolation = Snapshot, tx_reads = [], tx_writes = [], tx_finished = False\<rparr>"
  let ?tx' = "?tx\<lparr>tx_reads := [([98], 0)], tx_writes := [([98], TwPut [2])]\<rparr>"
  let ?te1 = "(te_new m w)\<lparr>te_tracker := fst (em_begin em_new 0)\<rparr>"
  have b: "te_begin Snapshot (te_new m w) = Inr (?tx, ?te1)"
    by (simp add: te_begin_def te_new_def em_begin_def em_new_def is_serializable_def sat_add_def sat_sub_def)
  let ?s1 = "(ts_new m w)\<lparr>ts_te := ?te1, ts_open := [1 \<mapsto> ?tx]\<rparr>" and ?s2 = "(ts_new m w)\<lparr>ts_te := ?te1, ts_open := [1 \<mapsto> ?tx']\<rparr>"
  have "te_read (\<lambda>_. 11) (\<lambda>_. None) [98] 0 ?te1 = Inr (None, 0)"
    using assms by (simp add: te_read_def te_new_def engine_new_def get_at_with_ts_def lsm_get_at_def fresh_manager_def
        level_files_def probe_order_def upt_rec mt_get_at_def mt_new_def bt_from_def)
  then have wr: "tx_write (\<lambda>_. 11) (\<lambda>_. None) [98] (TwPut [2]) ?tx ?te1 = (Inr (), ?tx', ?te1)"
    by (simp add: tx_write_def tx_touch_def is_serializable_def)
  obtain te2 where c: "tx_commit example_commit_env ?tx' ?te1 = (Inr 1, te2)"
    by (auto simp: tx_commit_def commit_transaction_def prepare_txn_commit_def committed_after_def txn_ops_def te_propose_def
        engine_propose_def engine_submit_def wal_submit_def te_new_def engine_new_def example_commit_env_def sample_env_def maybe_flush_def
        is_serializable_def note_committed_def Let_def mt_apply_def mt_new_def opt_len_def entry_overhead_def)
  let ?s3 = "?s2\<lparr>ts_te := te2, ts_open := Map.empty, ts_acked := [sample_version 1], ts_done := [(?tx', 1)]\<rparr>"
  have 1: "tstep (\<lambda>_. 11) (\<lambda>_. None) (ts_new m w) ?s1" using t_begin [of Snapshot "ts_new m w" ?tx ?te1] b by (simp add: ts_new_def)
  have 2: "tstep (\<lambda>_. 11) (\<lambda>_. None) ?s1 ?s2" using t_write [of ?s1 1 ?tx] wr by simp
  have 3: "tstep (\<lambda>_. 11) (\<lambda>_. None) ?s2 ?s3"
    using t_commit [of ?s2 1 ?tx' example_commit_env "\<lambda>_. 11" 1 te2] c
    by (simp add: example_commit_env_def sample_env_def te_new_def engine_new_def ts_new_def txn_ops_def op_entry_def)
  have "(tstep (\<lambda>_. 11) (\<lambda>_. None))\<^sup>*\<^sup>* (ts_new m w) ?s3"
    by (rule converse_rtranclp_into_rtranclp, rule 1, rule converse_rtranclp_into_rtranclp, rule 2, rule r_into_rtranclp, rule 3)
  then show ?thesis by (intro exI [of _ ?s3] exI [of _ ?tx']) simp
qed


end
