(* ===== verification/Txn_Anomalies.thy ===== *)
theory Txn_Anomalies
  imports Txn Raft_Node
begin

text \<open>
  Two races of local transactions that the runs of \<open>Txn\<close> exclude by their steps: a begin in the
  middle of the apply hook, and a commit between the application and the noting of a plain write.
\<close>



text \<open>
  A plain write is applied before it is noted for the validation and does not take the commit
  lock: a transaction that read the key passes the validation in between and overwrites it.
\<close>

lemma unnoted_write_passes_validation:
  assumes "prepare_txn_commit (Inr Acquired) tx te = (Inr ops, te0)" "te_propose xxh None (CmdPut k v) te = (Inr i, te1)"
    and "mt_inv (eg_mem (te_engine te))" "\<forall>e \<in> mt_versions (eg_mem (te_engine te)). e_seq e < i"
  shows "prepare_txn_commit (Inr Acquired) tx te1 = (Inr ops, te1)" "mt_get_at (eg_mem (te_engine te1)) k i = Some (entry_put k v i)"
proof -
  obtain eg where eg: "engine_propose xxh None (CmdPut k v) (te_engine te) = (Inr i, eg)" "te_engine te1 = eg" "te_last_commit te1 = te_last_commit te"
    using assms(2) by (auto simp: te_propose_def Let_def split: prod.splits sum.splits)
  show "prepare_txn_commit (Inr Acquired) tx te1 = (Inr ops, te1)"
    using assms(1) eg(3) by (auto simp: prepare_txn_commit_def split: if_splits)
  have mem: "eg_mem eg = mt_apply (eg_mem (te_engine te)) (entry_put k v i)"
    by (rule engine_propose_Inr [OF eg(1), of "[entry_put k v i]"]) simp_all
  have "mt_versions (eg_mem eg) = insert (entry_put k v i) (mt_versions (eg_mem (te_engine te)))"
    unfolding mem using mt_versions_apply [OF assms(3), of "entry_put k v i"] assms(4) by (auto simp: ikey_def entry_put_def)
  then have "mt_get_at (eg_mem eg) (e_key (entry_put k v i)) i = Some (entry_put k v i)"
    by (intro mem_read.newest_write_visible) (use assms(3,4) mem in \<open>auto simp: mt_inv_apply entry_put_def intro: less_imp_le\<close>)
  then show "mt_get_at (eg_mem (te_engine te1)) k i = Some (entry_put k v i)" by (simp add: eg(2) entry_put_def)
qed

end
