(* ===== verification/Spec2Isabelle.thy ===== *)
theory Spec2Isabelle
  imports Epoch Consensus_Anomalies Lsm_Anomalies Dtxn_Anomalies Engine_Shard Txn_Anomalies
begin

text \<open>
  A verification development of Takyonic, a replicated multi-version key-value store with a SQL
  layer on top. It covers the store from the bytes on disk to local and distributed
  transactions; source files are named relative to \<open>src/src\<close>.

  \<^bold>\<open>How the parts interact.\<close> A write becomes a \<open>RaftCommand\<close> that expands to versioned entries.
  On an embedded node the group-commit flusher writes them to the write-ahead log, one sync per
  batch, and the apply hook publishes them into the memtable; in a cluster the command first goes
  through the replicated log. A full memtable is flushed to sorted tables, which background
  workers merge level by level. A read takes a timestamp and returns the newest version at or
  below it over memtable and tables. A local transaction reads at a snapshot, buffers its writes
  and is validated at commit; a distributed one is driven by a two-phase-commit coordinator with a
  durable decision log over participants that log prepare, commit and abort commands.

  \<^bold>\<open>Conventions.\<close> \<open>u8\<close>, \<open>u32\<close> and \<open>u64\<close> are words and wrap, saturate or are checked as the code
  says; \<open>usize\<close> is \<open>nat\<close>. A \<open>Result\<close> is a sum with the error on the left and \<open>?\<close> is \<open>rbind\<close>. A
  \<open>BTreeMap\<close> is a sorted association list, a \<open>HashMap\<close> a partial map. A file is its bytes with the
  length that is synced; a crash keeps a prefix that contains the synced part. The checksum
  function \<open>xxh3_64\<close> is an arbitrary function of the bytes, so no theorem relies on its strength.
  Outcomes of devices, of admission, of the buffer pool and of the object store are arguments.

  \<^bold>\<open>Foundations.\<close>
  \<^item> \<open>Takyonic_Prelude\<close>: words, errors, results, byte codecs, UTF-8, sorted maps, files.
  \<^item> \<open>Takyonic_Types\<close> (\<open>types.rs\<close>): keys, entries and the internal-key order. The locale
    \<open>versioned_read\<close> states what a snapshot read returns; it is interpreted on the memtable, on a
    table and on the merged read of the engine, and its lemmas on newest, older and unrelated
    writes serve all three.

  \<^bold>\<open>Storage.\<close>
  \<^item> \<open>Memtable\<close> (\<open>memtable.rs\<close>): the ordered version map, reads, scans, garbage collection, and that
    collecting below a watermark changes no read at or above it.
  \<^item> \<open>Epoch\<close> (\<open>epoch.rs\<close>): the active transactions and the watermark, which never passes an open
    snapshot.
  \<^item> \<open>Wal\<close> (\<open>wal.rs\<close>): record format, writer, reader; recovery returns every synced record and
    only appended ones.
  \<^item> \<open>Group_Commit\<close> (\<open>group_commit.rs\<close>): clients, channel and flusher as an inductive step relation;
    an acknowledgement implies durability, and a submit that races with shutdown can wait forever.
  \<^item> \<open>Sst\<close>, \<open>Sst_Read\<close>, \<open>Sst_Registry\<close> (\<open>sst.rs\<close>): writer, Bloom filter, validating reader,
    round trip, and the registry that keeps pinned tables.
  \<^item> \<open>Kway_Merge\<close>, \<open>Kway_Proofs\<close>, \<open>Sst_Manager\<close>, \<open>Compaction_Safety\<close> (\<open>compaction.rs\<close>): the merge
    loop over any source that meets the locale \<open>entry_source\<close> (vectors and pinned tables), the
    leveled catalog, and concurrent picks, aborts and installs of plans.
  \<^item> \<open>Lsm_Engine\<close>, \<open>Lsm_Safety\<close>, \<open>Engine_Wal\<close>, \<open>Lsm_Anomalies\<close> (storage path of \<open>engine.rs\<close>): reads,
    flush, compaction, log rotation, close, reopen and snapshot installation. Reads return the
    newest version, flush and compaction keep them, acknowledged writes survive a crash, and a
    failed flush followed by a close, or a snapshot over its own files, loses data.

  \<^bold>\<open>Replication.\<close>
  \<^item> \<open>Raft_Command\<close>, \<open>Raft_Sm\<close>, \<open>Raft_Node\<close> (\<open>raft.rs\<close>): command codec, state machine, embedded node.
  \<^item> \<open>Membership\<close> (\<open>membership.rs\<close>), \<open>Snapshot_Codec\<close> (\<open>snapshot.rs\<close>): voters with the locale
    \<open>quorum_change\<close>, and the snapshot formats.
  \<^item> \<open>Raft_Log\<close> (\<open>raft_log.rs\<close>): the log refines an uncompacted list and survives crashes at every
    stage; truncation is not logged and is forgotten by a restart.
  \<^item> \<open>Consensus\<close>, \<open>Consensus_Safety\<close>, \<open>Consensus_Anomalies\<close> (\<open>consensus.rs\<close>, the rounds of
    \<open>network.rs\<close>): every handler as a function on the node; log matching, commitment by quorum and
    one vote per term, with the three situations in which the code leaves Raft.

  \<^bold>\<open>Transactions.\<close>
  \<^item> \<open>Txn\<close>, \<open>Txn_Anomalies\<close> (\<open>txn.rs\<close>, transaction operations of \<open>engine.rs\<close>): runs of concurrent
    transactions, plain writes and flushes are serializable; a begin inside the apply hook and a
    commit between the application and the noting of a plain write break this.
  \<^item> \<open>Tc_Log\<close> (\<open>tc_log.rs\<close>): decisions are durable once appended; a torn record makes later ones
    unreadable.
  \<^item> \<open>Dtxn_Shard\<close>, \<open>Dtxn_Coordinator\<close>, \<open>Dtxn_Safety\<close>, \<open>Dtxn_Anomalies\<close> (\<open>dtxn.rs\<close>): participants
    under the locales \<open>shard_participant\<close> and \<open>durable_participant\<close>, the coordinator as a function
    and as a thread that can be interrupted anywhere, atomicity with recoveries, restarts and
    crashes, and the schedules outside its conditions.
  \<^item> \<open>Engine_Shard\<close> (two-phase-commit operations of \<open>engine.rs\<close>): the engine as a participant.

  \<^bold>\<open>Bounds.\<close> A table has fewer than 429496729 entries, because its filter has ten bits for an
  entry and stores their number in 32 bits; the theorem on the overflow shows that the bound is
  sharp. Encoded lengths fit their 32-bit fields. Timestamps stay below the last \<open>u64\<close>, where the
  counters of the code would wrap. A log segment has fewer than \<open>2 ^ 64 - 5\<close> bytes. The
  replay, decoding and planning loops are total functions, with termination proved from the bytes
  or tables left. The merge loop is a partial function into \<open>option\<close>, and that it returns is
  proved; nothing uses fuel.

  \<^bold>\<open>Not modelled.\<close> SQL parsing, planning and execution, the PostgreSQL protocol, authorisation,
  statistics, vector search, the B-Tree store, the buffer pool and direct I/O, remote object
  stores, the transactional log and the token bucket behind admission, gRPC services and
  asynchronous drivers, configuration and telemetry. Threads interleave at the steps named in
  each theory; memory orderings below that are not modelled.
\<close>

end
